(* ===== verification/Prelude.thy ===== *)
theory Prelude
  imports Main "HOL-Library.Monad_Syntax"
begin

text \<open>
  Shared vocabulary of the development: the machine integers of the Rust code as natural
  numbers with the wrap-around written out, the \<open>Result\<close> type as a sum, and the
  generic lemmas on lists and on integer ranges the component theories use.

  The repository's build files set no \<open>overflow-checks\<close>, so the release profile
  applies: \<open>+\<close>, \<open>-\<close>, \<open>*\<close> wrap modulo the width and a shift amount is reduced modulo
  the width. \<open>usize\<close> is 64 bits wide on the platforms the node is released for.
\<close>

named_theorems width \<open>machine operations that are exact when the result fits\<close>

type_synonym u8 = nat
type_synonym u32 = nat
type_synonym u64 = nat
type_synonym usize = nat
type_synonym i64 = int

abbreviation u64_size :: nat where "u64_size \<equiv> 18446744073709551616"
abbreviation u64_max :: nat where "u64_max \<equiv> 18446744073709551615"
abbreviation u32_size :: nat where "u32_size \<equiv> 4294967296"
abbreviation u32_max :: nat where "u32_max \<equiv> 4294967295"

section \<open>Wrapping, saturating and converting operations\<close>

definition u64_add :: "u64 \<Rightarrow> u64 \<Rightarrow> u64" where
  "u64_add a b = (a + b) mod u64_size"

definition u64_sub :: "u64 \<Rightarrow> u64 \<Rightarrow> u64" where
  "u64_sub a b = (if b \<le> a then a - b else a + u64_size - b)"

definition u64_mul :: "u64 \<Rightarrow> u64 \<Rightarrow> u64" where
  "u64_mul a b = (a * b) mod u64_size"

definition u64_shl :: "u64 \<Rightarrow> nat \<Rightarrow> u64" where
  "u64_shl a n = (a * 2 ^ (n mod 64)) mod u64_size"

definition u64_sat_add :: "u64 \<Rightarrow> u64 \<Rightarrow> u64" where
  "u64_sat_add a b = min (a + b) u64_max"

definition u64_sat_mul :: "u64 \<Rightarrow> u64 \<Rightarrow> u64" where
  "u64_sat_mul a b = min (a * b) u64_max"

definition u64_sat_sub :: "u64 \<Rightarrow> u64 \<Rightarrow> u64" where
  "u64_sat_sub a b = a - b"

definition as_u32 :: "nat \<Rightarrow> u32" where
  "as_u32 a = a mod u32_size"

definition u32_add :: "u32 \<Rightarrow> u32 \<Rightarrow> u32" where
  "u32_add a b = (a + b) mod u32_size"

definition i64_wrap :: "int \<Rightarrow> i64" where
  "i64_wrap x = (x + 9223372036854775808) mod 18446744073709551616 - 9223372036854775808"

definition i64_of_u64 :: "u64 \<Rightarrow> i64" where
  "i64_of_u64 a = i64_wrap (int a)"

definition u64_of_i64 :: "i64 \<Rightarrow> u64" where
  "u64_of_i64 x = nat (x mod 18446744073709551616)"

lemma u64_add_exact [width]: "a + b < u64_size \<Longrightarrow> u64_add a b = a + b"
  by (simp add: u64_add_def)

lemma u64_sub_exact [width]: "b \<le> a \<Longrightarrow> u64_sub a b = a - b"
  by (simp add: u64_sub_def)

lemma u64_mul_exact [width]: "a * b < u64_size \<Longrightarrow> u64_mul a b = a * b"
  by (simp add: u64_mul_def)

lemma u64_shl_exact [width]: "n < 64 \<Longrightarrow> a * 2 ^ n < u64_size \<Longrightarrow> u64_shl a n = a * 2 ^ n"
  by (simp add: u64_shl_def)

lemma u64_sat_add_exact [width]: "a + b < u64_size \<Longrightarrow> u64_sat_add a b = a + b"
  by (simp add: u64_sat_add_def)

lemma u64_sat_mul_exact [width]: "a * b < u64_size \<Longrightarrow> u64_sat_mul a b = a * b"
  by (simp add: u64_sat_mul_def)

lemma u64_sat_sub_minus [width]: "u64_sat_sub a b = a - b"
  by (simp add: u64_sat_sub_def)

lemma as_u32_exact [width]: "a < u32_size \<Longrightarrow> as_u32 a = a"
  by (simp add: as_u32_def)

lemma u32_add_exact [width]: "a + b < u32_size \<Longrightarrow> u32_add a b = a + b"
  by (simp add: u32_add_def)

lemma i64_wrap_exact [width]:
  "- 9223372036854775808 \<le> x \<Longrightarrow> x < 9223372036854775808 \<Longrightarrow> i64_wrap x = x"
  by (simp add: i64_wrap_def)

lemma i64_of_u64_exact [width]: "a < 9223372036854775808 \<Longrightarrow> i64_of_u64 a = int a"
  by (simp add: i64_of_u64_def i64_wrap_def)

lemma u64_of_i64_exact [width]:
  "0 \<le> x \<Longrightarrow> x < 9223372036854775808 \<Longrightarrow> u64_of_i64 x = nat x"
  by (simp add: u64_of_i64_def)

lemma u64_add_less [simp]: "u64_add a b < u64_size"
  by (simp add: u64_add_def)

lemma u64_mul_less [simp]: "u64_mul a b < u64_size"
  by (simp add: u64_mul_def)

lemma u64_sub_less: "a < u64_size \<Longrightarrow> u64_sub a b < u64_size"
  by (auto simp: u64_sub_def)

lemma u64_sat_add_less [simp]: "u64_sat_add a b < u64_size"
  by (simp add: u64_sat_add_def min_def)

section \<open>Bit length\<close>

text \<open>\<open>bit_len n\<close> is \<open>64 - n.leading_zeros()\<close> for a \<open>u64\<close> value \<open>n\<close>.\<close>

fun bit_len :: "nat \<Rightarrow> nat" where
  "bit_len n = (if n = 0 then 0 else Suc (bit_len (n div 2)))"

declare bit_len.simps [simp del]

lemma bit_len_0 [simp]: "bit_len 0 = 0"
  by (simp add: bit_len.simps)

lemma bit_len_pos: "0 < n \<Longrightarrow> bit_len n = Suc (bit_len (n div 2))"
  by (simp add: bit_len.simps [of n])

lemma bit_len_numeral [simp]:
  "bit_len (Suc 0) = 1"
  "bit_len (numeral (Num.Bit0 n)) = Suc (bit_len (numeral n))"
  "bit_len (numeral (Num.Bit1 n)) = Suc (bit_len (numeral n))"
  "bit_len 1 = 1"
  by (simp_all add: bit_len.simps [of "Suc 0"] bit_len.simps [of "numeral (Num.Bit0 n)"]
    bit_len.simps [of "numeral (Num.Bit1 n)"])

lemma bit_len_bounds: "0 < n \<Longrightarrow> 2 ^ (bit_len n - 1) \<le> n \<and> n < 2 ^ bit_len n"
proof (induction n rule: bit_len.induct)
  case (1 n)
  show ?case
  proof (cases "n div 2 = 0")
    case True
    with "1.prems" have "n = 1" by auto
    then show ?thesis by (simp add: bit_len_pos)
  next
    case False
    with "1.prems" "1.IH" have ih: "2 ^ (bit_len (n div 2) - 1) \<le> n div 2 \<and> n div 2 < 2 ^ bit_len (n div 2)"
      by simp
    from False have pos: "0 < bit_len (n div 2)" by (simp add: bit_len_pos)
    then have "2 ^ bit_len (n div 2) = 2 * (2::nat) ^ (bit_len (n div 2) - 1)"
      by (metis Suc_diff_1 power_Suc)
    moreover have "p \<le> n div 2 \<Longrightarrow> n div 2 < 2 * p \<Longrightarrow> 2 * p \<le> n \<and> n < 4 * p" for p :: nat
      by linarith
    ultimately show ?thesis using ih by (simp add: bit_len_pos [OF "1.prems"])
  qed
qed

lemma bit_len_less: "n < 2 ^ bit_len n"
  using bit_len_bounds [of n] by (cases "n = 0") auto

lemma bit_len_eqI: "2 ^ k \<le> n \<Longrightarrow> n < 2 ^ Suc k \<Longrightarrow> bit_len n = Suc k"
proof -
  assume l: "2 ^ k \<le> n" and u: "n < 2 ^ Suc k"
  have pos: "0 < n" using l by (rule less_le_trans [rotated]) simp
  note b = bit_len_bounds [OF pos]
  have "bit_len n - 1 < Suc k"
    using b u by (meson le_less_trans nat_power_less_imp_less zero_less_numeral)
  moreover have "k < bit_len n"
    using b l by (meson le_less_trans nat_power_less_imp_less zero_less_numeral)
  ultimately show ?thesis by simp
qed

lemma not_bit_small: "(m::nat) < 2 ^ k \<Longrightarrow> \<not> bit m k"
  by (simp add: bit_iff_odd)

lemma bit_ge: "bit (m::nat) h \<Longrightarrow> 2 ^ h \<le> m"
  by (meson not_bit_small not_le)

section \<open>Results\<close>

text \<open>A Rust \<open>Result<a, e>\<close> is the sum \<open>e + a\<close>; \<open>bind_res\<close> is the \<open>?\<close> operator.\<close>

type_synonym ('a, 'e) result = "'e + 'a"

definition bind_res :: "'e + 'a \<Rightarrow> ('a \<Rightarrow> 'e + 'b) \<Rightarrow> 'e + 'b" where
  "bind_res r f = (case r of Inl e \<Rightarrow> Inl e | Inr a \<Rightarrow> f a)"

lemma bind_res_simps [simp]:
  "bind_res (Inl e) f = Inl e"
  "bind_res (Inr a) f = f a"
  by (simp_all add: bind_res_def)

lemma bind_res_Inr_iff: "bind_res r f = Inr b \<longleftrightarrow> (\<exists>a. r = Inr a \<and> f a = Inr b)"
  by (cases r) auto

lemma bind_res_Inl_iff: "bind_res r f = Inl e \<longleftrightarrow> r = Inl e \<or> (\<exists>a. r = Inr a \<and> f a = Inl e)"
  by (cases r) auto

section \<open>Lists\<close>

lemma sum_list_le_mult: "(\<And>x. x \<in> set xs \<Longrightarrow> f x \<le> (k::nat)) \<Longrightarrow> sum_list (map f xs) \<le> length xs * k"
  by (induction xs) (auto intro: add_mono)

lemma sum_list_upt: "sum_list (map f [Suc a..<b + 1]) = (\<Sum>i\<in>{a<..b}. (f i :: nat))"
proof -
  have "set [Suc a..<b + 1] = {a<..b}" by (auto simp del: upt_Suc)
  then show ?thesis by (simp only: interv_sum_list_conv_sum_set_nat)
qed

end
