(* ===== verification/Rust_Float.thy ===== *)
theory Rust_Float
  imports Prelude Complex_Main
begin

text \<open>
  The part of IEEE 754 binary arithmetic the consensus code uses: \<open>f64\<close> (53 significant
  bits) in the foundation levy and \<open>f32\<close> (24 significant bits) in the choice of the mining
  algorithm. A finite float is a pair \<open>(m, e)\<close> that stands for \<open>m * 2^e\<close>. Every
  operation computes the exact result as a quotient and rounds it to the nearest value with
  the given number of significant bits, ties to even. The values of the program stay far
  from the exponent limits, so overflow to infinity and subnormal numbers do not occur.
\<close>

type_synonym fp = "int \<times> int"

definition rne :: "nat \<Rightarrow> nat \<Rightarrow> nat" where
  "rne n d = (let q = n div d; r = n mod d in
     if 2 * r < d \<or> (2 * r = d \<and> even q) then q else Suc q)"

definition scaled :: "nat \<Rightarrow> nat \<Rightarrow> int \<Rightarrow> nat \<times> nat" where
  "scaled n d e = (if e < 0 then (n * 2 ^ nat (- e), d) else (n, d * 2 ^ nat e))"

text \<open>\<open>fround p n d e\<close> is the float with \<open>p\<close> significant bits nearest to \<open>(n / d) * 2^e\<close>.\<close>

definition fround :: "nat \<Rightarrow> nat \<Rightarrow> nat \<Rightarrow> int \<Rightarrow> fp" where
  "fround p n d e =
     (if n = 0 then (0, 0)
      else let k = int (bit_len n) - int (bit_len d) - int p;
               (n1, d1) = scaled n d k;
               k' = (if 2 ^ p * d1 \<le> n1 then k + 1 else k);
               (n2, d2) = scaled n d k'
           in (int (rne n2 d2), e + k'))"

definition fround_int :: "nat \<Rightarrow> int \<Rightarrow> int \<Rightarrow> fp" where
  "fround_int p m e = (let (m', e') = fround p (nat \<bar>m\<bar>) 1 e in (sgn m * m', e'))"

definition fp_of_nat :: "nat \<Rightarrow> nat \<Rightarrow> fp" where
  "fp_of_nat p n = fround p n 1 0"

definition fp_of_ratio :: "nat \<Rightarrow> nat \<Rightarrow> nat \<Rightarrow> fp" where
  "fp_of_ratio p n d = fround p n d 0"

fun fp_mul :: "nat \<Rightarrow> fp \<Rightarrow> fp \<Rightarrow> fp" where
  "fp_mul p (m1, e1) (m2, e2) = fround_int p (m1 * m2) (e1 + e2)"

fun fp_div :: "nat \<Rightarrow> fp \<Rightarrow> fp \<Rightarrow> fp" where
  "fp_div p (m1, e1) (m2, e2) =
     (let (m, e) = fround p (nat \<bar>m1\<bar>) (nat \<bar>m2\<bar>) (e1 - e2) in (sgn m1 * sgn m2 * m, e))"

fun fp_sub :: "nat \<Rightarrow> fp \<Rightarrow> fp \<Rightarrow> fp" where
  "fp_sub p (m1, e1) (m2, e2) =
     (let e = min e1 e2 in fround_int p (m1 * 2 ^ nat (e1 - e) - m2 * 2 ^ nat (e2 - e)) e)"

fun fp_le :: "fp \<Rightarrow> fp \<Rightarrow> bool" where
  "fp_le (m1, e1) (m2, e2) =
     (let e = min e1 e2 in m1 * 2 ^ nat (e1 - e) \<le> m2 * 2 ^ nat (e2 - e))"

text \<open>The cast \<open>x as u64\<close>: truncation towards zero, saturating at both ends.\<close>

fun fp_as_u64 :: "fp \<Rightarrow> u64" where
  "fp_as_u64 (m, e) =
     (if m \<le> 0 then 0
      else if 0 \<le> e then min u64_max (nat m * 2 ^ nat e)
      else min u64_max (nat m div 2 ^ nat (- e)))"

lemmas fp_eval = rne_def scaled_def fround_def fround_int_def fp_of_nat_def fp_of_ratio_def Let_def

lemma rne_exact [simp]: "0 < d \<Longrightarrow> rne (q * d) d = q"
  by (simp add: rne_def)

lemma rne_bounds:
  assumes "0 < d"
  shows "2 * n \<le> 2 * (rne n d * d) + d \<and> 2 * (rne n d * d) \<le> 2 * n + d"
proof -
  define q r where "q = n div d" and "r = n mod d"
  have n: "n = q * d + r" and r: "r < d"
    using assms by (simp_all add: q_def r_def)
  show ?thesis
    using r unfolding rne_def Let_def q_def [symmetric] r_def [symmetric]
    by (auto simp: n algebra_simps)
qed

section \<open>Values of floats\<close>

definition fpv :: "fp \<Rightarrow> real" where
  "fpv x = real_of_int (fst x) * 2 powi (snd x)"

lemma rne_nearest:
  assumes "0 < d"
  shows "\<bar>real (rne n d) - real n / real d\<bar> \<le> 1 / 2"
proof -
  have "real (2 * n) \<le> real (2 * (rne n d * d) + d)" and "real (2 * (rne n d * d)) \<le> real (2 * n + d)"
    using rne_bounds [OF assms, of n] by (simp_all only: of_nat_le_iff)
  then have "\<bar>real (rne n d) * real d - real n\<bar> \<le> real d / 2"
    unfolding abs_le_iff by auto
  moreover have "real (rne n d) - real n / real d = (real (rne n d) * real d - real n) / real d"
    using assms by (simp add: field_simps)
  ultimately show ?thesis
    using assms by (simp add: field_simps)
qed

lemma scaled_ratio:
  assumes "scaled n d k = (n', d')" and "0 < d"
  shows "0 < d' \<and> real n' / real d' = real n / real d * 2 powi (- k)"
proof (cases "k < 0")
  case True
  then have "real (2 ^ nat (- k)) = 2 powi (- k)" by (simp add: power_int_def)
  with assms True show ?thesis by (auto simp: scaled_def)
next
  case False
  then have "real (2 ^ nat k) = 2 powi k" by (simp add: power_int_def)
  with assms False show ?thesis
    by (auto simp: scaled_def power_int_minus field_simps)
qed

text \<open>A rounded quotient \<open>(m, E)\<close>: the mantissa is the integer nearest to the scaled value, which
  has exactly \<open>p\<close> significant bits.\<close>

lemma leading_bits:
  assumes "0 < n" and "0 < d"
  shows "2 ^ p / 2 < real n / real d * 2 powi (int (bit_len d) - int (bit_len n) + int p) \<and>
    real n / real d * 2 powi (int (bit_len d) - int (bit_len n) + int p) < 2 * 2 ^ p"
proof -
  obtain a where a: "bit_len n = Suc a" using bit_len_pos [OF assms(1)] by blast
  obtain b where b: "bit_len d = Suc b" using bit_len_pos [OF assms(2)] by blast
  have "2 ^ a \<le> n \<and> n < 2 * 2 ^ a" and "2 ^ b \<le> d \<and> d < 2 * 2 ^ b"
    using bit_len_bounds [OF assms(1)] bit_len_bounds [OF assms(2)] by (simp_all add: a b)
  then have "real (2 ^ a) \<le> real n \<and> real n < real (2 * 2 ^ a)"
    and "real (2 ^ b) \<le> real d \<and> real d < real (2 * 2 ^ b)"
    by (simp_all only: of_nat_le_iff of_nat_less_iff)
  then have n: "2 ^ a \<le> real n" "real n < 2 * 2 ^ a" and d: "2 ^ b \<le> real d" "real d < 2 * 2 ^ b"
    by simp_all
  have "2 powi (int (bit_len d) - int (bit_len n) + int p) = 2 ^ b * 2 ^ p / (2 ^ a :: real)"
    unfolding a b by (simp add: power_int_add power_int_diff)
  then have eq: "real n / real d * 2 powi (int (bit_len d) - int (bit_len n) + int p) =
      (real n / 2 ^ a) * (2 ^ b / real d) * 2 ^ p"
    by (simp add: ac_simps)
  define y z where "y = real n / 2 ^ a" and "z = 2 ^ b / real d"
  have "1 \<le> y" "y < 2" "1 / 2 < z" "z \<le> 1"
    using n d assms by (simp_all add: y_def z_def field_simps)
  then have "1 * (1 / 2) < y * z" and "y * z < 2 * 1"
    by - (rule mult_le_less_imp_less mult_less_le_imp_less; simp)+
  then have "1 / 2 * 2 ^ p < y * z * 2 ^ p" and "y * z * 2 ^ p < 2 * 2 ^ p"
    by - (rule mult_strict_right_mono; simp)+
  then show ?thesis unfolding eq y_def [symmetric] z_def [symmetric] by simp
qed

lemma fround_spec:
  assumes "0 < n" and "0 < d" and "0 < p"
  obtains m E x where "fround p n d e = (int m, E)" and "x = real n / real d * 2 powi (e - E)"
    and "2 ^ (p - 1) \<le> x" and "x < 2 ^ p" and "\<bar>real m - x\<bar> \<le> 1 / 2"
proof -
  define k where "k = int (bit_len n) - int (bit_len d) - int p"
  obtain n1 d1 where s1: "scaled n d k = (n1, d1)" by fastforce
  define k' where "k' = (if 2 ^ p * d1 \<le> n1 then k + 1 else k)"
  obtain n2 d2 where s2: "scaled n d k' = (n2, d2)" by fastforce
  define q where "q = real n / real d"
  note r1 = scaled_ratio [OF s1 assms(2), folded q_def]
  note r2 = scaled_ratio [OF s2 assms(2), folded q_def]
  have p2: "2 ^ (p - 1) = (2 ^ p :: real) / 2" using assms(3) by (cases p) simp_all
  have x1: "2 ^ p / 2 < q * 2 powi (- k)" "q * 2 powi (- k) < 2 * 2 ^ p"
    using leading_bits [OF assms(1,2), of p] by (simp_all add: k_def q_def algebra_simps)
  have "2 ^ p * d1 \<le> n1 \<longleftrightarrow> real (2 ^ p * d1) \<le> real n1"
    by (simp only: of_nat_le_iff)
  also have "\<dots> \<longleftrightarrow> 2 ^ p \<le> real n1 / real d1"
    using conjunct1 [OF r1] by (simp add: pos_le_divide_eq)
  finally have "2 ^ p * d1 \<le> n1 \<longleftrightarrow> 2 ^ p \<le> real n1 / real d1" .
  then have c: "2 ^ p * d1 \<le> n1 \<longleftrightarrow> 2 ^ p \<le> q * 2 powi (- k)" using r1 by simp
  have half: "q * 2 powi (- (k + 1)) = q * 2 powi (- k) / 2"
    using power_int_diff [of "2::real" "- k" 1] by simp
  have x: "2 ^ (p - 1) \<le> q * 2 powi (- k')" "q * 2 powi (- k') < 2 ^ p"
    unfolding k'_def p2 using x1 c half by (cases "2 ^ p * d1 \<le> n1"; simp only: if_True if_False; linarith)+
  have near: "\<bar>real (rne n2 d2) - q * 2 powi (- k')\<bar> \<le> 1 / 2"
    using rne_nearest [of d2 n2] r2 by simp
  have "fround p n d e = (int (rne n2 d2), e + k')"
    using assms(1) s1 s2 unfolding fround_def k_def k'_def by (simp add: Let_def)
  from that [OF this refl] x near show thesis by (simp add: q_def)
qed

lemma fround_zero [simp]: "fround p 0 d e = (0, 0)"
  by (simp add: fround_def)

lemma fround_pos: "0 < n \<Longrightarrow> 0 < d \<Longrightarrow> 0 < p \<Longrightarrow> 0 < fst (fround p n d e)"
proof -
  assume "0 < n" "0 < d" "0 < p"
  then obtain m E x where f: "fround p n d e = (int m, E)" and "2 ^ (p - 1) \<le> x" and "\<bar>real m - x\<bar> \<le> 1 / 2"
    by (rule fround_spec) blast
  moreover have "(1::real) \<le> 2 ^ (p - 1)" by simp
  ultimately have "0 < real m" unfolding abs_le_iff by linarith
  with f show ?thesis by simp
qed

text \<open>Rounding never crosses an integer below \<open>2 ^ (p - 1)\<close>.\<close>

lemma fround_integer:
  assumes "0 < n" and "0 < d" and "0 < p" and "N < 2 ^ (p - 1)"
  shows "real n / real d * 2 powi e \<le> real N \<Longrightarrow> fpv (fround p n d e) \<le> real N"
    and "real n / real d * 2 powi e < 2 ^ (p - 1) \<Longrightarrow> real N \<le> real n / real d * 2 powi e \<Longrightarrow>
      real N \<le> fpv (fround p n d e)"
proof -
  obtain m E x where f: "fround p n d e = (int m, E)" and x: "x = real n / real d * 2 powi (e - E)"
    and lo: "2 ^ (p - 1) \<le> x" and near: "\<bar>real m - x\<bar> \<le> 1 / 2"
    using fround_spec [OF assms(1-3)] by blast
  let ?v = "real n / real d * 2 powi e"
  have v: "?v = x * 2 powi E" unfolding x by (simp add: power_int_diff)
  have neg: "E < 0" if "?v < 2 ^ (p - 1)"
  proof (rule ccontr)
    assume "\<not> E < 0"
    then have "1 \<le> (2 powi E :: real)" by (simp add: power_int_def)
    then have "x * 1 \<le> x * 2 powi E" using lo by (intro mult_left_mono) (auto intro: order_trans [rotated])
    with lo that v show False by simp
  qed
  have scale: "real N = real (N * 2 ^ nat (- E)) * 2 powi E" if "E < 0"
    using that by (simp add: power_int_def field_simps)
  have fp: "fpv (fround p n d e) = real m * 2 powi E" unfolding f by (simp add: fpv_def)
  have pw: "0 < (2 powi E :: real)" by simp
  have N: "real N < 2 ^ (p - 1)" using assms(4)
    by (metis of_nat_less_iff of_nat_numeral of_nat_power)
  {
    assume le: "?v \<le> real N"
    then have "?v < 2 ^ (p - 1)" using N by (rule le_less_trans)
    then have E: "E < 0" by (rule neg)
    from le have "x \<le> real (N * 2 ^ nat (- E))"
      unfolding v scale [OF E] using pw by (simp only: mult_le_cancel_right)
    then have "real m < real (N * 2 ^ nat (- E)) + 1" using near unfolding abs_le_iff by linarith
    then have "m \<le> N * 2 ^ nat (- E)" by linarith
    then have "real m \<le> real (N * 2 ^ nat (- E))" by (simp only: of_nat_le_iff)
    then show "fpv (fround p n d e) \<le> real N"
      unfolding fp scale [OF E] using pw by (intro mult_right_mono) auto
  }
  {
    assume "?v < 2 ^ (p - 1)" and le: "real N \<le> ?v"
    then have E: "E < 0" by (intro neg)
    from le have "real (N * 2 ^ nat (- E)) \<le> x"
      unfolding v scale [OF E] using pw by (simp only: mult_le_cancel_right)
    then have "real (N * 2 ^ nat (- E)) < real m + 1" using near unfolding abs_le_iff by linarith
    then have "N * 2 ^ nat (- E) \<le> m" by linarith
    then have "real (N * 2 ^ nat (- E)) \<le> real m" by (simp only: of_nat_le_iff)
    then show "real N \<le> fpv (fround p n d e)"
      unfolding fp scale [OF E] using pw by (intro mult_right_mono) auto
  }
qed

lemma fround_exact:
  assumes "0 < d" and "0 < p" and "N < 2 ^ (p - 1)" and "real n / real d * 2 powi e = real N"
  shows "fpv (fround p n d e) = real N"
proof (cases "n = 0")
  case True
  with assms(4) show ?thesis by (simp add: fpv_def)
next
  case False
  have "real N < 2 ^ (p - 1)" using assms(3)
    by (metis of_nat_less_iff of_nat_numeral of_nat_power)
  with False show ?thesis
    using fround_integer [of n d p N e] assms by (simp add: order_antisym)
qed

text \<open>The relative rounding error is at most \<open>2 ^ (- p)\<close>.\<close>

lemma fround_lower:
  assumes "0 < n" and "0 < d" and "0 < p"
  shows "real n / real d * 2 powi e * (1 - 1 / 2 ^ p) \<le> fpv (fround p n d e)"
proof -
  obtain m E x where f: "fround p n d e = (int m, E)" and x: "x = real n / real d * 2 powi (e - E)"
    and lo: "2 ^ (p - 1) \<le> x" and near: "\<bar>real m - x\<bar> \<le> 1 / 2"
    using fround_spec [OF assms] by blast
  have v: "real n / real d * 2 powi e = x * 2 powi E" unfolding x by (simp add: power_int_diff)
  have "2 ^ p = 2 * (2 ^ (p - 1) :: real)" using assms(3) by (cases p) simp_all
  with lo have "1 / 2 \<le> x / 2 ^ p" by (simp add: field_simps)
  moreover have "x - real m \<le> 1 / 2" using near by (simp only: abs_le_iff) simp
  ultimately have "x - x / 2 ^ p \<le> real m" by linarith
  then have "x * (1 - 1 / 2 ^ p) \<le> real m" by (simp add: algebra_simps)
  then have "x * (1 - 1 / 2 ^ p) * 2 powi E \<le> real m * 2 powi E"
    by (intro mult_right_mono) auto
  then show ?thesis unfolding v f by (simp add: fpv_def ac_simps)
qed

section \<open>Exactness and signs of the operations\<close>

lemma powi2_pos: "(2::real) powi k < 0 \<longleftrightarrow> False" "(2::real) powi k \<le> 0 \<longleftrightarrow> False"
  using zero_less_power_int [of "2::real" k] by (simp_all add: not_less not_le)

lemma fpv_fst: "0 \<le> fpv x \<longleftrightarrow> 0 \<le> fst x" "fpv x < 0 \<longleftrightarrow> fst x < 0" "0 < fpv x \<longleftrightarrow> 0 < fst x"
  by (auto simp: fpv_def zero_le_mult_iff mult_less_0_iff zero_less_mult_iff powi2_pos)

lemma fst_fround_nonneg: "0 < d \<Longrightarrow> 0 < p \<Longrightarrow> 0 \<le> fst (fround p n d e)"
  by (cases "n = 0") (use fround_pos [of n d p e] in auto)

lemma fp_of_nat_exact: "0 < p \<Longrightarrow> n < 2 ^ (p - 1) \<Longrightarrow> fpv (fp_of_nat p n) = real n"
  unfolding fp_of_nat_def by (rule fround_exact) simp_all

lemma fround_int_nonneg: "0 \<le> m \<Longrightarrow> fround_int p m e = fround p (nat m) 1 e"
  by (cases "m = 0") (simp_all add: fround_int_def split: prod.splits)

lemma fround_int_sgn: "0 < p \<Longrightarrow> sgn (fst (fround_int p m e)) = sgn m"
proof (cases "m = 0")
  case False
  assume "0 < p"
  with False have "0 < fst (fround p (nat \<bar>m\<bar>) 1 e)" by (intro fround_pos) simp_all
  with False show ?thesis
    by (cases "fround p (nat \<bar>m\<bar>) 1 e") (simp add: fround_int_def sgn_mult)
qed (simp add: fround_int_def)

lemma fp_mul_exact:
  assumes "0 < p" and "0 \<le> fpv x" and "0 \<le> fpv y" and "fpv x * fpv y = real N" and "N < 2 ^ (p - 1)"
  shows "fpv (fp_mul p x y) = real N"
proof -
  obtain m1 e1 m2 e2 where x: "x = (m1, e1)" and y: "y = (m2, e2)" by fastforce
  have pos: "0 \<le> m1 * m2" using assms(2,3) unfolding x y fpv_fst by simp
  have "real (nat (m1 * m2)) / real 1 * 2 powi (e1 + e2) = real N"
    using assms(4) pos unfolding x y by (simp add: fpv_def power_int_add ac_simps)
  then show ?thesis
    unfolding x y using fround_exact [OF _ assms(1,5)] pos by (simp add: fround_int_nonneg)
qed

lemma fp_div_fround:
  assumes "0 \<le> fpv x" and "0 < fpv y"
  shows "fp_div p x y = fround p (nat (fst x)) (nat (fst y)) (snd x - snd y)"
    and "real (nat (fst x)) / real (nat (fst y)) * 2 powi (snd x - snd y) = fpv x / fpv y"
proof -
  obtain m1 e1 m2 e2 where x: "x = (m1, e1)" and y: "y = (m2, e2)" by fastforce
  have pos: "0 \<le> m1" "0 < m2" using assms unfolding x y fpv_fst by simp_all
  then show "fp_div p x y = fround p (nat (fst x)) (nat (fst y)) (snd x - snd y)"
    unfolding x y by (cases "m1 = 0") (simp_all split: prod.splits)
  show "real (nat (fst x)) / real (nat (fst y)) * 2 powi (snd x - snd y) = fpv x / fpv y"
    using pos unfolding x y by (simp add: fpv_def power_int_diff)
qed

lemma fp_div_le:
  assumes "0 < p" and "0 \<le> fpv x" and "0 < fpv y" and "fpv x / fpv y \<le> real N" and "N < 2 ^ (p - 1)"
  shows "fpv (fp_div p x y) \<le> real N"
proof (cases "fst x = 0")
  case True
  then show ?thesis using fp_div_fround [OF assms(2,3)] by (simp add: fpv_def)
next
  case False
  then have "0 < nat (fst x)" "0 < nat (fst y)" using assms(2,3) unfolding fpv_fst by auto
  from fround_integer(1) [OF this assms(1,5), of "snd x - snd y"] assms(4) show ?thesis
    unfolding fp_div_fround [OF assms(2,3)] by blast
qed

lemma fp_div_lower:
  assumes "0 < p" and "0 < fpv x" and "0 < fpv y"
  shows "fpv x / fpv y * (1 - 1 / 2 ^ p) \<le> fpv (fp_div p x y)"
proof -
  have "0 < nat (fst x)" "0 < nat (fst y)" using assms(2,3) unfolding fpv_fst by auto
  from fround_lower [OF this assms(1), of "snd x - snd y"] show ?thesis
    unfolding fp_div_fround [OF less_imp_le [OF assms(2)] assms(3)] .
qed

text \<open>Both operands brought to the smaller exponent.\<close>

lemma fpv_align:
  assumes "e \<le> e1"
  shows "real_of_int (m1 * 2 ^ nat (e1 - e)) = fpv (m1, e1) * 2 powi (- e)"
proof -
  have "(2::real) ^ nat (e1 - e) = 2 powi (e1 - e)" using assms by (simp add: power_int_def)
  also have "\<dots> = 2 powi e1 * 2 powi (- e)" by (simp add: power_int_diff power_int_minus field_simps)
  finally show ?thesis by (simp add: fpv_def)
qed

lemma fp_sub_sgn:
  assumes "0 < p"
  shows "fpv y \<le> fpv x \<Longrightarrow> 0 \<le> fst (fp_sub p x y)" and "fpv x < fpv y \<Longrightarrow> fst (fp_sub p x y) < 0"
proof -
  obtain m1 e1 m2 e2 where x: "x = (m1, e1)" and y: "y = (m2, e2)" by fastforce
  define e where "e = min e1 e2"
  define m where "m = m1 * 2 ^ nat (e1 - e) - m2 * 2 ^ nat (e2 - e)"
  have m: "real_of_int m = (fpv x - fpv y) * 2 powi (- e)"
    unfolding m_def x y of_int_diff by (subst fpv_align, simp add: e_def, subst fpv_align, simp_all add: e_def left_diff_distrib)
  have s: "sgn (fst (fp_sub p x y)) = sgn m"
    using fround_int_sgn [OF assms] unfolding x y m_def e_def by (simp add: Let_def)
  have p2: "(0::real) < 2 powi (- e)" by simp
  { assume "fpv y \<le> fpv x"
    then have "0 \<le> real_of_int m" unfolding m using p2 by (intro mult_nonneg_nonneg) simp_all
    with s show "0 \<le> fst (fp_sub p x y)" by (simp add: sgn_if split: if_splits) }
  { assume "fpv x < fpv y"
    then have "real_of_int m < 0" unfolding m using p2 by (intro mult_neg_pos) simp_all
    with s show "fst (fp_sub p x y) < 0" by (simp add: sgn_if split: if_splits) }
qed

lemma fp_le_fpv: "fp_le x y \<longleftrightarrow> fpv x \<le> fpv y"
proof -
  obtain m1 e1 m2 e2 where x: "x = (m1, e1)" and y: "y = (m2, e2)" by fastforce
  define e where "e = min e1 e2"
  have "fp_le x y \<longleftrightarrow> real_of_int (m1 * 2 ^ nat (e1 - e)) \<le> real_of_int (m2 * 2 ^ nat (e2 - e))"
    unfolding x y e_def of_int_le_iff by (simp add: Let_def)
  also have "\<dots> \<longleftrightarrow> fpv x \<le> fpv y"
    unfolding x y by (subst fpv_align, simp add: e_def, subst fpv_align, auto simp: e_def mult_le_cancel_right powi2_pos)
  finally show ?thesis .
qed

end
