(* ===== verification/Consensus_Reward.thy ===== *)
theory Consensus_Reward
  imports Rust_Float
begin

text \<open>
  The emission schedule of \<open>core/src/consensus.rs\<close>: block rewards per era, the foundation
  levy, the split of a block's reward between miner and foundation and the total overage a
  chain of a given height may have created. The chain type, a process-wide
  \<open>RwLock\<close> in \<open>core/src/global.rs\<close>, is an argument. A panic of the source is \<open>None\<close>.
\<close>

section \<open>Constants\<close>

datatype chain_types = AutomatedTesting | UserTesting | Floonet | Mainnet

definition EPIC_BASE :: u64 where "EPIC_BASE = 100000000"
definition BLOCK_TIME_SEC :: u64 where "BLOCK_TIME_SEC = 60"
definition HOUR_HEIGHT :: u64 where "HOUR_HEIGHT = 3600 div BLOCK_TIME_SEC"
definition DAY_HEIGHT :: u64 where "DAY_HEIGHT = 24 * HOUR_HEIGHT"
definition WEEK_HEIGHT :: u64 where "WEEK_HEIGHT = 7 * DAY_HEIGHT"
definition YEAR_HEIGHT :: u64 where "YEAR_HEIGHT = 52 * WEEK_HEIGHT"
definition BLOCK_ERA_1 :: u64 where "BLOCK_ERA_1 = DAY_HEIGHT * 334"
definition BLOCK_ERA_2 :: u64 where "BLOCK_ERA_2 = BLOCK_ERA_1 + DAY_HEIGHT * 470"
definition BLOCK_ERA_3 :: u64 where "BLOCK_ERA_3 = BLOCK_ERA_2 + DAY_HEIGHT * 601"
definition BLOCK_ERA_4 :: u64 where "BLOCK_ERA_4 = BLOCK_ERA_3 + DAY_HEIGHT * 800"
definition BLOCK_ERA_5 :: u64 where "BLOCK_ERA_5 = BLOCK_ERA_4 + DAY_HEIGHT * 1019"
definition BLOCK_ERA_6_ONWARDS :: u64 where "BLOCK_ERA_6_ONWARDS = DAY_HEIGHT * 1460"
definition BASE_REWARD_ERA_6_ONWARDS :: u64 where
  "BASE_REWARD_ERA_6_ONWARDS =
     fp_as_u64 (fp_mul 53 (fp_of_ratio 53 15625 100000) (fp_of_nat 53 EPIC_BASE))"
definition MAINNET_FOUNDATION_HEIGHT :: u64 where "MAINNET_FOUNDATION_HEIGHT = DAY_HEIGHT"
definition AUTOMATEDTEST_FOUNDATION_HEIGHT :: u64 where "AUTOMATEDTEST_FOUNDATION_HEIGHT = 5"
definition FLOONET_FOUNDATION_HEIGHT :: u64 where "FLOONET_FOUNDATION_HEIGHT = DAY_HEIGHT"
definition FOUNDATION_LEVY_ERA_1 :: u64 where "FOUNDATION_LEVY_ERA_1 = DAY_HEIGHT * 120"
definition FOUNDATION_LEVY_ERA_2_ONWARDS :: u64 where
  "FOUNDATION_LEVY_ERA_2_ONWARDS = DAY_HEIGHT * 365"

text \<open>The literals \<open>0.0888\<close>, \<open>0.0777\<close>, \dots are the \<open>f64\<close> values nearest to these fractions.\<close>

definition FOUNDATION_LEVY :: "fp list" where
  "FOUNDATION_LEVY = map (\<lambda>n. fp_of_ratio 53 n 10000) [888, 777, 666, 555, 444, 333, 222, 111, 111]"

lemma height_values [simp]:
  "EPIC_BASE = 100000000" "BLOCK_TIME_SEC = 60" "HOUR_HEIGHT = 60" "DAY_HEIGHT = 1440"
  "WEEK_HEIGHT = 10080" "YEAR_HEIGHT = 524160"
  "BLOCK_ERA_1 = 480960" "BLOCK_ERA_2 = 1157760" "BLOCK_ERA_3 = 2023200"
  "BLOCK_ERA_4 = 3175200" "BLOCK_ERA_5 = 4642560" "BLOCK_ERA_6_ONWARDS = 2102400"
  "MAINNET_FOUNDATION_HEIGHT = 1440" "AUTOMATEDTEST_FOUNDATION_HEIGHT = 5"
  "FLOONET_FOUNDATION_HEIGHT = 1440" "FOUNDATION_LEVY_ERA_1 = 172800"
  "FOUNDATION_LEVY_ERA_2_ONWARDS = 525600"
  by (simp_all add: EPIC_BASE_def BLOCK_TIME_SEC_def HOUR_HEIGHT_def DAY_HEIGHT_def
    WEEK_HEIGHT_def YEAR_HEIGHT_def BLOCK_ERA_1_def BLOCK_ERA_2_def BLOCK_ERA_3_def
    BLOCK_ERA_4_def BLOCK_ERA_5_def BLOCK_ERA_6_ONWARDS_def MAINNET_FOUNDATION_HEIGHT_def
    AUTOMATEDTEST_FOUNDATION_HEIGHT_def FLOONET_FOUNDATION_HEIGHT_def FOUNDATION_LEVY_ERA_1_def
    FOUNDATION_LEVY_ERA_2_ONWARDS_def)

section \<open>Operations\<close>

definition block_total_reward_at_height :: "u64 \<Rightarrow> u64" where
  "block_total_reward_at_height height =
     (if height \<le> BLOCK_ERA_1 then 16 * EPIC_BASE
      else if height \<le> BLOCK_ERA_2 then 8 * EPIC_BASE
      else if height \<le> BLOCK_ERA_3 then 4 * EPIC_BASE
      else if height \<le> BLOCK_ERA_4 then 2 * EPIC_BASE
      else if height \<le> BLOCK_ERA_5 then 1 * EPIC_BASE
      else let height_with_offset = height - BLOCK_ERA_5 - 1;
               e = height_with_offset div BLOCK_ERA_6_ONWARDS
           in BASE_REWARD_ERA_6_ONWARDS div u64_shl 1 e)"

definition foundation_height :: "chain_types \<Rightarrow> u64" where
  "foundation_height ct = (case ct of
     AutomatedTesting \<Rightarrow> AUTOMATEDTEST_FOUNDATION_HEIGHT
   | UserTesting \<Rightarrow> FLOONET_FOUNDATION_HEIGHT
   | Floonet \<Rightarrow> FLOONET_FOUNDATION_HEIGHT
   | Mainnet \<Rightarrow> MAINNET_FOUNDATION_HEIGHT)"

definition levy_part :: "u64 \<Rightarrow> fp \<Rightarrow> u64" where
  "levy_part amount levy = fp_as_u64 (fp_mul 53 (fp_of_nat 53 amount) levy)"

definition reward_foundation_at_height :: "u64 \<Rightarrow> u64 option" where
  "reward_foundation_at_height height =
     (if height \<le> 0 then Some 0
      else if height \<le> FOUNDATION_LEVY_ERA_1
      then Some (levy_part (block_total_reward_at_height height) (FOUNDATION_LEVY ! 0))
      else let height_with_offset = height - FOUNDATION_LEVY_ERA_1 - 1;
               index = height_with_offset div FOUNDATION_LEVY_ERA_2_ONWARDS + 1
           in if \<not> index < u32_max then None
              else if index < length FOUNDATION_LEVY
              then Some (levy_part (block_total_reward_at_height height) (FOUNDATION_LEVY ! index))
              else Some 0)"

definition is_foundation_height :: "chain_types \<Rightarrow> u64 \<Rightarrow> bool option" where
  "is_foundation_height ct height =
     (if height > 0 \<and> height mod foundation_height ct = 0
      then map_option (\<lambda>r. r \<noteq> 0) (reward_foundation_at_height height)
      else Some False)"

definition foundation_index :: "chain_types \<Rightarrow> u64 \<Rightarrow> u64 option" where
  "foundation_index ct height =
     (if height > 0 then Some (u64_sub (height div foundation_height ct) 1) else None)"

text \<open>The loop \<open>for iter_height in n..=height\<close> with its accumulator.\<close>

fun sum_foundation :: "u64 list \<Rightarrow> u64 \<Rightarrow> u64 option" where
  "sum_foundation [] s = Some s"
| "sum_foundation (h # hs) s = do {
     r \<leftarrow> reward_foundation_at_height h;
     sum_foundation hs (u64_add s r) }"

definition cumulative_reward_foundation :: "chain_types \<Rightarrow> u64 \<Rightarrow> u64 option" where
  "cumulative_reward_foundation ct height = do {
     ok \<leftarrow> is_foundation_height ct height;
     (if ok then sum_foundation [u64_add (u64_sub height (foundation_height ct)) 1..<height + 1] 0
      else None) }"

definition add_reward_foundation :: "chain_types \<Rightarrow> u64 \<Rightarrow> u64 option" where
  "add_reward_foundation ct height = do {
     ok \<leftarrow> is_foundation_height ct height;
     (if ok then cumulative_reward_foundation ct height else Some 0) }"

definition reward_at_height :: "u64 \<Rightarrow> u64 option" where
  "reward_at_height height =
     map_option (\<lambda>f. u64_sub (block_total_reward_at_height height) f)
       (reward_foundation_at_height height)"

definition reward :: "u64 \<Rightarrow> u64 \<Rightarrow> u64 option" where
  "reward fee height = map_option (\<lambda>r. u64_sat_add r fee) (reward_at_height height)"

definition reward_foundation :: "chain_types \<Rightarrow> u64 \<Rightarrow> u64 \<Rightarrow> u64 option" where
  "reward_foundation ct fees height = do {
     r \<leftarrow> reward fees height;
     f \<leftarrow> add_reward_foundation ct height;
     Some (u64_add r f) }"

fun overage_loop :: "chain_types \<Rightarrow> u64 list \<Rightarrow> i64 \<Rightarrow> i64 option" where
  "overage_loop ct [] s = Some s"
| "overage_loop ct (i # is) s = do {
     r \<leftarrow> reward_at_height i;
     f \<leftarrow> add_reward_foundation ct i;
     overage_loop ct is (i64_wrap (s + i64_wrap (i64_of_u64 r + i64_of_u64 f))) }"

definition total_overage_at_height :: "chain_types \<Rightarrow> u64 \<Rightarrow> bool \<Rightarrow> i64 option" where
  "total_overage_at_height ct height genesis_had_reward = do {
     s0 \<leftarrow> (if genesis_had_reward then map_option i64_of_u64 (reward_at_height 0) else Some 0);
     overage_loop ct [1..<height + 1] s0 }"

section \<open>Evaluation of the schedule\<close>

lemma base_reward_value [simp]: "BASE_REWARD_ERA_6_ONWARDS = 15625000"
  by (simp add: BASE_REWARD_ERA_6_ONWARDS_def fp_eval)

lemma foundation_levy_value:
  "FOUNDATION_LEVY =
     [(6398714350568001, - 56),
      (5598875056747001, - 56),
      (4799035762926001, - 56),
      (7998392938210001, - 57),
      (6398714350568001, - 57),
      (4799035762926001, - 57),
      (6398714350568001, - 58),
      (6398714350568001, - 59),
      (6398714350568001, - 59)]"
  by (simp add: FOUNDATION_LEVY_def fp_eval)

text \<open>The levy of every era, in units of a hundredth of a percent.\<close>

definition levy_rate :: "nat list" where
  "levy_rate = [888, 777, 666, 555, 444, 333, 222, 111, 111]"

lemma reward_as_f64:
  "fp_of_nat 53 1600000000 = (6710886400000000, - 22)"
  "fp_of_nat 53 800000000 = (6710886400000000, - 23)"
  "fp_of_nat 53 400000000 = (6710886400000000, - 24)"
  "fp_of_nat 53 200000000 = (6710886400000000, - 25)"
  "fp_of_nat 53 100000000 = (6710886400000000, - 26)"
  by (simp_all add: fp_eval)

lemma levy_part_exact:
  assumes "units \<in> {16, 8, 4, 2, 1}" and "i < 9"
  shows "levy_part (units * 100000000) (FOUNDATION_LEVY ! i) = units * 10000 * levy_rate ! i"
proof -
  from \<open>i < 9\<close> have "i \<in> {0, 1, 2, 3, 4, 5, 6, 7, 8}" by auto
  with assms(1) show ?thesis
    by (elim insertE emptyE; hypsubst)
      (simp_all add: levy_part_def foundation_levy_value levy_rate_def reward_as_f64
        fround_int_def fround_def scaled_def rne_def Let_def)
qed

section \<open>Block rewards and the supply\<close>

lemma u64_shl_1 [simp]: "u64_shl (Suc 0) e = 2 ^ (e mod 64)"
proof -
  have "e mod 64 < 64" by simp
  then have "(2::nat) ^ (e mod 64) < 2 ^ 64" by (intro power_strict_increasing) auto
  then show ?thesis by (simp add: u64_shl_def)
qed

lemma reward_early:
  "h \<le> 480960 \<Longrightarrow> block_total_reward_at_height h = 1600000000"
  "480960 < h \<Longrightarrow> h \<le> 1157760 \<Longrightarrow> block_total_reward_at_height h = 800000000"
  "1157760 < h \<Longrightarrow> h \<le> 2023200 \<Longrightarrow> block_total_reward_at_height h = 400000000"
  "2023200 < h \<Longrightarrow> h \<le> 3175200 \<Longrightarrow> block_total_reward_at_height h = 200000000"
  "3175200 < h \<Longrightarrow> h \<le> 4642560 \<Longrightarrow> block_total_reward_at_height h = 100000000"
  by (simp_all add: block_total_reward_at_height_def)

lemma reward_late:
  "4642560 < h \<Longrightarrow>
     block_total_reward_at_height h = 15625000 div 2 ^ ((h - 4642561) div 2102400 mod 64)"
  by (simp add: block_total_reward_at_height_def Let_def)

lemma reward_bound: "block_total_reward_at_height h \<le> 1600000000"
proof (cases "4642560 < h")
  case True
  have "15625000 div (2::nat) ^ k \<le> 15625000" for k by (rule div_le_dividend)
  then have "block_total_reward_at_height h \<le> 15625000" unfolding reward_late [OF True] .
  then show ?thesis by simp
next
  case False
  then show ?thesis by (simp add: block_total_reward_at_height_def)
qed

lemma sum_const_interval:
  assumes "\<And>i. a < i \<Longrightarrow> i \<le> b \<Longrightarrow> f i = (c::nat)" and "a \<le> b"
  shows "(\<Sum>i\<in>{a<..b}. f i) = (b - a) * c"
  using assms by simp

lemma sum_split:
  fixes f :: "nat \<Rightarrow> nat"
  assumes "a \<le> b" and "b \<le> c"
  shows "(\<Sum>i\<in>{a<..c}. f i) = (\<Sum>i\<in>{a<..b}. f i) + (\<Sum>i\<in>{b<..c}. f i)"
proof -
  have "{a<..c} = {a<..b} \<union> {b<..c}" using assms by auto
  then show ?thesis by (simp add: sum.union_disjoint)
qed

lemma sum_eras:
  assumes "\<And>j i. j < n \<Longrightarrow> a + j * l < i \<Longrightarrow> i \<le> a + Suc j * l \<Longrightarrow> f i = (g j :: nat)"
  shows "(\<Sum>i\<in>{a<..a + n * l}. f i) = (\<Sum>j<n. l * g j)"
  using assms
proof (induction n)
  case 0
  then show ?case by simp
next
  case (Suc n)
  have "(\<Sum>i\<in>{a + n * l<..a + Suc n * l}. f i) = (a + Suc n * l - (a + n * l)) * g n"
    by (rule sum_const_interval) (auto intro: Suc.prems)
  moreover have "(\<Sum>i\<in>{a<..a + n * l}. f i) = (\<Sum>j<n. l * g j)"
    by (rule Suc.IH) (auto intro: Suc.prems)
  ultimately show ?case
    using sum_split [of a "a + n * l" "a + Suc n * l" f] by simp
qed

lemma late_era_index:
  assumes "j < 64" and "4642560 + j * 2102400 < i" and "i \<le> 4642560 + Suc j * 2102400"
  shows "block_total_reward_at_height i = 15625000 div 2 ^ j"
proof -
  have "(i - 4642561) div 2102400 = j"
    using assms by (intro div_nat_eqI) auto
  then show ?thesis using assms by (subst reward_late) auto
qed

text \<open>The first height at which the shift amount of the last era has left the word.\<close>

definition reward_horizon :: u64 where
  "reward_horizon = BLOCK_ERA_5 + 64 * BLOCK_ERA_6_ONWARDS"

lemma reward_horizon_value [simp]: "reward_horizon = 139196160"
  by (simp add: reward_horizon_def)

lemma early_supply:
  "(\<Sum>i\<in>{0<..4642560}. block_total_reward_at_height i) = 2034288000000000"
proof -
  let ?f = block_total_reward_at_height
  have "(\<Sum>i\<in>{0<..4642560}. ?f i) =
      (\<Sum>i\<in>{0<..480960}. ?f i) + (\<Sum>i\<in>{480960<..1157760}. ?f i) +
      (\<Sum>i\<in>{1157760<..2023200}. ?f i) + (\<Sum>i\<in>{2023200<..3175200}. ?f i) +
      (\<Sum>i\<in>{3175200<..4642560}. ?f i)"
    by (simp only: sum_split [of 0 480960 4642560] sum_split [of 480960 1157760 4642560]
      sum_split [of 1157760 2023200 4642560] sum_split [of 2023200 3175200 4642560]
      add.assoc zero_le numeral_le_iff semiring_norm)
  also have "\<dots> = (480960 - 0) * 1600000000 + (1157760 - 480960) * 800000000 +
      (2023200 - 1157760) * 400000000 + (3175200 - 2023200) * 200000000 +
      (4642560 - 3175200) * 100000000"
    by (intro arg_cong2 [where f = "(+)"] sum_const_interval reward_early) simp_all
  also have "\<dots> = 2034288000000000" by simp
  finally show ?thesis .
qed

lemma geometric_bound: "(\<Sum>j<Suc n. a div 2 ^ j) + a div 2 ^ n \<le> 2 * (a::nat)"
proof (induction n)
  case 0
  then show ?case by simp
next
  case (Suc n)
  have "a div 2 ^ Suc n = a div 2 ^ n div 2"
    by (simp only: power_Suc2 div_mult2_eq)
  then have "2 * (a div 2 ^ Suc n) \<le> a div 2 ^ n" by simp
  with Suc.IH show ?case by simp
qed

lemma late_supply:
  "(\<Sum>i\<in>{4642560<..139196160}. block_total_reward_at_height i) \<le> 65700000000000"
proof -
  have "(\<Sum>i\<in>{4642560<..4642560 + 64 * 2102400}. block_total_reward_at_height i) =
      (\<Sum>j<64. 2102400 * (15625000 div 2 ^ j))"
    by (rule sum_eras) (use late_era_index in auto)
  also have "\<dots> = 2102400 * (\<Sum>j<Suc 63. 15625000 div 2 ^ j)"
    by (simp only: sum_distrib_left) simp
  also have "\<dots> \<le> 65700000000000"
    using geometric_bound [of 15625000 63] by simp
  finally show ?thesis by simp
qed

lemma supply_sum:
  assumes "h \<le> 139196160"
  shows "(\<Sum>i\<in>{0<..h}. block_total_reward_at_height i) \<le> 2100000000000000"
proof -
  have "(\<Sum>i\<in>{0<..h}. block_total_reward_at_height i) \<le>
      (\<Sum>i\<in>{0<..139196160}. block_total_reward_at_height i)"
    by (rule sum_mono2) (use assms in auto)
  also have "\<dots> = (\<Sum>i\<in>{0<..4642560}. block_total_reward_at_height i) +
      (\<Sum>i\<in>{4642560<..139196160}. block_total_reward_at_height i)"
    by (rule sum_split) auto
  also have "\<dots> \<le> 2100000000000000"
    using early_supply late_supply by simp
  finally show ?thesis .
qed

section \<open>The foundation levy\<close>

definition levy_index :: "u64 \<Rightarrow> nat" where
  "levy_index h = (if h \<le> 172800 then 0 else (h - 172801) div 525600 + 1)"

definition foundation_rate :: "u64 \<Rightarrow> nat" where
  "foundation_rate h = (if h = 0 \<or> 9 \<le> levy_index h then 0 else levy_rate ! levy_index h)"

definition foundation_part :: "u64 \<Rightarrow> nat" where
  "foundation_part h = block_total_reward_at_height h * foundation_rate h div 10000"

lemma length_levy [simp]: "length FOUNDATION_LEVY = 9"
  by (simp add: FOUNDATION_LEVY_def)

lemma levy_index_height: "levy_index h < 9 \<Longrightarrow> h \<le> 4377600"
proof (cases "h \<le> 172800")
  case False
  assume "levy_index h < 9"
  with False have "(h - 172801) div 525600 < 8" by (simp add: levy_index_def)
  then show ?thesis using False by (simp add: div_less_iff_less_mult)
qed simp

lemma height_levy_index: "h \<le> 4377600 \<Longrightarrow> levy_index h < 9"
  by (auto simp: levy_index_def div_less_iff_less_mult)

lemma reward_units: "h \<le> 4642560 \<Longrightarrow> \<exists>u \<in> {16, 8, 4, 2, 1}. block_total_reward_at_height h = u * 100000000"
  by (simp add: block_total_reward_at_height_def)

lemma levy_rate_bounds: "i < 9 \<Longrightarrow> 111 \<le> levy_rate ! i \<and> levy_rate ! i \<le> 888"
proof -
  assume "i < 9"
  then have "i \<in> {0, 1, 2, 3, 4, 5, 6, 7, 8}" by auto
  then show ?thesis by (auto simp: levy_rate_def)
qed

lemma foundation_rate_bound: "foundation_rate h \<le> 888"
  using levy_rate_bounds [of "levy_index h"] by (simp add: foundation_rate_def)

lemma levy_part_rate:
  assumes "levy_index h < 9" and "0 < h"
  shows "levy_part (block_total_reward_at_height h) (FOUNDATION_LEVY ! levy_index h) = foundation_part h"
proof -
  from levy_index_height [OF assms(1)] have "h \<le> 4642560" by simp
  then obtain u where u: "u \<in> {16, 8, 4, 2, 1}"
    and eq: "block_total_reward_at_height h = u * 100000000"
    using reward_units by blast
  show ?thesis
    unfolding eq levy_part_exact [OF u assms(1)]
    using assms by (simp add: foundation_part_def foundation_rate_def eq)
qed

lemma reward_foundation_closed:
  assumes "levy_index h < u32_max"
  shows "reward_foundation_at_height h = Some (foundation_part h)"
proof (cases "h \<le> 172800")
  case True
  then have "levy_index h = 0" by (simp add: levy_index_def)
  with True levy_part_rate [of h] show ?thesis
    by (auto simp: reward_foundation_at_height_def foundation_part_def foundation_rate_def)
next
  case False
  then have i: "(h - 172800 - 1) div 525600 + 1 = levy_index h"
    by (simp add: levy_index_def)
  show ?thesis
    using False assms levy_part_rate [of h]
    unfolding reward_foundation_at_height_def Let_def height_values i length_levy
    by (auto simp: foundation_part_def foundation_rate_def)
qed

lemma reward_foundation_panics:
  assumes "u32_max \<le> levy_index h"
  shows "reward_foundation_at_height h = None"
proof -
  from assms have "\<not> h \<le> 172800" by (auto simp: levy_index_def)
  moreover from this have i: "(h - 172800 - 1) div 525600 + 1 = levy_index h"
    by (simp add: levy_index_def)
  ultimately show ?thesis
    using assms unfolding reward_foundation_at_height_def Let_def height_values i by auto
qed

lemma foundation_part_le: "foundation_part h \<le> block_total_reward_at_height h"
proof -
  have "block_total_reward_at_height h * foundation_rate h \<le> block_total_reward_at_height h * 10000"
    using foundation_rate_bound [of h] by (intro mult_le_mono2) simp
  then show ?thesis
    unfolding foundation_part_def by (metis div_le_mono nonzero_mult_div_cancel_right zero_neq_numeral)
qed

lemma foundation_part_zero: "4377600 < h \<Longrightarrow> foundation_part h = 0"
  using levy_index_height [of h] by (auto simp: foundation_part_def foundation_rate_def)

lemma foundation_part_pos:
  assumes "0 < h" and "h \<le> 4377600"
  shows "0 < foundation_part h"
proof -
  from assms have i: "levy_index h < 9" by (simp add: height_levy_index)
  from assms have "h \<le> 4642560" by simp
  then obtain u where "u \<in> {16, 8, 4, 2, 1}" "block_total_reward_at_height h = u * 100000000"
    using reward_units by blast
  then show ?thesis
    using levy_rate_bounds [OF i] assms i by (auto simp: foundation_part_def foundation_rate_def)
qed

lemma levy_index_small: "h \<le> 139196160 \<Longrightarrow> levy_index h < u32_max"
  by (auto simp: levy_index_def div_less_iff_less_mult)

lemma reward_at_height_closed:
  "levy_index h < u32_max \<Longrightarrow>
     reward_at_height h = Some (block_total_reward_at_height h - foundation_part h)"
  by (simp add: reward_at_height_def reward_foundation_closed u64_sub_exact foundation_part_le)

section \<open>The total overage\<close>

lemma is_foundation_height_closed:
  assumes "levy_index h < u32_max"
  shows "is_foundation_height Mainnet h = Some (0 < h \<and> h mod 1440 = 0 \<and> h \<le> 4377600)"
  using foundation_part_pos [of h] foundation_part_zero [of h] reward_foundation_closed [OF assms]
  by (cases "h \<le> 4377600") (auto simp: is_foundation_height_def foundation_height_def)

lemma sum_foundation_closed:
  assumes "\<And>h. h \<in> set hs \<Longrightarrow> levy_index h < u32_max"
    and "s + sum_list (map foundation_part hs) < u64_size"
  shows "sum_foundation hs s = Some (s + sum_list (map foundation_part hs))"
  using assms
  by (induction hs arbitrary: s) (auto simp: reward_foundation_closed u64_add_exact add.assoc)

lemma sum_foundation_window:
  assumes "h \<le> 139196160" and "h mod 1440 = 0" and "0 < h"
  shows "sum_foundation [u64_add (u64_sub h 1440) 1..<h + 1] 0 = Some (\<Sum>i\<in>{h - 1440<..h}. foundation_part i)"
proof -
  have ge: "1440 \<le> h" using assms(2,3) by auto
  have n: "u64_add (u64_sub h 1440) 1 = Suc (h - 1440)"
    using assms ge by (simp add: u64_sub_exact u64_add_exact)
  have eq: "sum_list (map foundation_part [Suc (h - 1440)..<h + 1]) = (\<Sum>i\<in>{h - 1440<..h}. foundation_part i)"
    by (rule sum_list_upt)
  have "foundation_part i \<le> 1600000000" for i
    using foundation_part_le [of i] reward_bound [of i] by simp
  then have "sum_list (map foundation_part [Suc (h - 1440)..<h + 1]) \<le>
      length [Suc (h - 1440)..<h + 1] * 1600000000"
    by (intro sum_list_le_mult)
  then have "sum_list (map foundation_part [Suc (h - 1440)..<h + 1]) < u64_size"
    using ge by (simp del: upt_Suc)
  then show ?thesis
    unfolding n eq [symmetric] using assms(1)
    by (subst sum_foundation_closed) (auto intro: levy_index_small)
qed

lemma add_reward_foundation_closed:
  assumes "h \<le> 139196160"
  shows "add_reward_foundation Mainnet h =
    Some (if 0 < h \<and> h mod 1440 = 0 then \<Sum>i\<in>{h - 1440<..h}. foundation_part i else 0)"
proof -
  note closed = is_foundation_height_closed [OF levy_index_small [OF assms]]
  show ?thesis
  proof (cases "0 < h \<and> h mod 1440 = 0 \<and> h \<le> 4377600")
    case True
    then have w: "sum_foundation [u64_add (u64_sub h 1440) 1..<h + 1] 0 =
        Some (\<Sum>i\<in>{h - 1440<..h}. foundation_part i)"
      using assms by (intro sum_foundation_window) simp_all
    have fh: "foundation_height Mainnet = 1440" by (simp add: foundation_height_def)
    from closed True have ok: "is_foundation_height Mainnet h = Some True" by simp
    show ?thesis
      unfolding add_reward_foundation_def cumulative_reward_foundation_def ok fh w
      using True by simp
  next
    case False
    have "(\<Sum>i\<in>{h - 1440<..h}. foundation_part i) = 0" if "h mod 1440 = 0" "\<not> h \<le> 4377600"
    proof -
      from that(1) obtain k where k: "h = 1440 * k" by (auto elim: dvdE)
      with that(2) have "3041 \<le> k" by simp
      with k have "4377600 \<le> h - 1440" by simp
      then show ?thesis by (auto simp: foundation_part_zero)
    qed
    with False closed show ?thesis
      by (auto simp: add_reward_foundation_def)
  qed
qed

definition emitted :: "u64 \<Rightarrow> nat" where
  "emitted h = (\<Sum>i\<in>{0<..h}. block_total_reward_at_height i)"

text \<open>The levy of the blocks mined since the last foundation height.\<close>

definition pending_levy :: "u64 \<Rightarrow> nat" where
  "pending_levy h = (\<Sum>i\<in>{h - h mod 1440<..h}. foundation_part i)"

lemma emitted_Suc [simp]: "emitted (Suc h) = emitted h + block_total_reward_at_height (Suc h)"
proof -
  have "{0<..Suc h} = insert (Suc h) {0<..h}" by auto
  then show ?thesis by (simp add: emitted_def)
qed

lemma pending_levy_Suc:
  "pending_levy (Suc h) + (if Suc h mod 1440 = 0 then \<Sum>i\<in>{Suc h - 1440<..Suc h}. foundation_part i else 0)
    = pending_levy h + foundation_part (Suc h)"
proof -
  have ins: "a \<le> h \<Longrightarrow> {a<..Suc h} = insert (Suc h) {a<..h}" for a by auto
  show ?thesis
  proof (cases "Suc h mod 1440 = 0")
    case True
    then have "h mod 1440 = 1439" by (simp add: mod_Suc split: if_splits)
    then have m: "h - h mod 1440 = Suc h - 1440" by simp
    have "pending_levy (Suc h) = 0" using True by (simp add: pending_levy_def)
    with True m show ?thesis
      by (simp add: pending_levy_def ins)
  next
    case False
    then have "Suc h mod 1440 = Suc (h mod 1440)" by (simp add: mod_Suc split: if_splits)
    with False show ?thesis
      by (simp add: pending_levy_def ins)
  qed
qed

lemma pending_levy_le: "pending_levy h \<le> emitted h"
proof -
  have "pending_levy h \<le> (\<Sum>i\<in>{h - h mod 1440<..h}. block_total_reward_at_height i)"
    unfolding pending_levy_def by (intro sum_mono foundation_part_le)
  also have "\<dots> \<le> emitted h"
    unfolding emitted_def by (rule sum_mono2) auto
  finally show ?thesis .
qed

lemma overage_loop_snoc:
  "overage_loop ct (is @ [i]) s = do {
     s' \<leftarrow> overage_loop ct is s;
     r \<leftarrow> reward_at_height i;
     f \<leftarrow> add_reward_foundation ct i;
     Some (i64_wrap (s' + i64_wrap (i64_of_u64 r + i64_of_u64 f))) }"
proof (induction "is" arbitrary: s)
  case Nil
  show ?case by (cases "reward_at_height i"; cases "add_reward_foundation ct i") auto
next
  case (Cons a as)
  then show ?case
    by (cases "reward_at_height a"; cases "add_reward_foundation ct a") auto
qed

lemma emitted_bound: "h \<le> 139196160 \<Longrightarrow> emitted h \<le> 2100000000000000"
  unfolding emitted_def by (rule supply_sum)

lemma overage_loop_closed:
  assumes "0 \<le> s" and "s \<le> 1600000000"
  shows "h \<le> 139196160 \<Longrightarrow>
    overage_loop Mainnet [1..<h + 1] s = Some (s + int (emitted h - pending_levy h))"
proof (induction h)
  case 0
  then show ?case by (simp add: emitted_def pending_levy_def)
next
  case (Suc h)
  let ?f = "if Suc h mod 1440 = 0 then \<Sum>i\<in>{Suc h - 1440<..Suc h}. foundation_part i else 0"
  let ?r = "block_total_reward_at_height (Suc h) - foundation_part (Suc h)"
  have upt: "[1..<Suc h + 1] = [1..<h + 1] @ [Suc h]" by simp
  have r: "reward_at_height (Suc h) = Some ?r"
    using Suc.prems by (intro reward_at_height_closed levy_index_small)
  have f: "add_reward_foundation Mainnet (Suc h) = Some ?f"
    using add_reward_foundation_closed [OF Suc.prems] by simp
  have step: "emitted h - pending_levy h + (?r + ?f) = emitted (Suc h) - pending_levy (Suc h)"
    using pending_levy_Suc [of h] pending_levy_le [of h] pending_levy_le [of "Suc h"]
      foundation_part_le [of "Suc h"] by simp
  have "emitted (Suc h) \<le> 2100000000000000" using Suc.prems by (rule emitted_bound)
  then have "emitted h - pending_levy h + (?r + ?f) \<le> 2100000000000000" unfolding step by simp
  then have "i64_wrap (s + int (emitted h - pending_levy h) + i64_wrap (i64_of_u64 ?r + i64_of_u64 ?f)) =
      s + int (emitted h - pending_levy h + (?r + ?f))"
    using assms by (simp add: width)
  then show ?case
    using Suc.IH Suc.prems unfolding upt overage_loop_snoc r f step [symmetric] by simp
qed

section \<open>Properties\<close>

text \<open>C11: until the reward shift leaves its 64 bits (more than 256 years of blocks), all block
  rewards together never exceed 21 million epic, the supply of Bitcoin the project aims for.\<close>

theorem supply_cap:
  assumes "h \<le> reward_horizon"
  shows "(\<Sum>i\<in>{0<..h}. block_total_reward_at_height i) \<le> 21000000 * EPIC_BASE"
  using supply_sum [of h] assms by simp

theorem supply_cap_witness:
  "(4::nat) \<le> reward_horizon \<and> (\<Sum>i\<in>{0<..4}. block_total_reward_at_height i) \<le> 21000000 * EPIC_BASE"
proof -
  have h: "(4::nat) \<le> reward_horizon" by simp
  show ?thesis using h supply_cap [OF h] by blast
qed

text \<open>C13: the total overage of a main chain of height \<open>h\<close> is the sum of all block rewards so
  far, less the levy of the blocks since the last foundation height, which the next foundation
  block pays out; neither the \<open>i64\<close> accumulator nor the conversions wrap.\<close>

theorem overage_conservation:
  assumes "h \<le> reward_horizon"
  shows "total_overage_at_height Mainnet h genesis_had_reward =
    Some ((if genesis_had_reward then 16 * int EPIC_BASE else 0) +
      int (\<Sum>i\<in>{0<..h}. block_total_reward_at_height i) -
      int (\<Sum>i\<in>{h - h mod 1440<..h}. foundation_part i))"
proof -
  have r0: "reward_at_height 0 = Some 1600000000"
    by (subst reward_at_height_closed)
      (simp_all add: levy_index_def reward_early foundation_part_def foundation_rate_def)
  have "overage_loop Mainnet [1..<h + 1] s = Some (s + int (emitted h - pending_levy h))"
    if "s \<in> {0, 1600000000}" for s
    using that assms by (intro overage_loop_closed) auto
  then show ?thesis
    using pending_levy_le [of h]
    unfolding total_overage_at_height_def emitted_def [symmetric] pending_levy_def [symmetric] r0
    by (simp add: i64_of_u64_exact del: upt_Suc)
qed

theorem overage_conservation_witness:
  "(2::nat) \<le> reward_horizon \<and>
   total_overage_at_height Mainnet 2 True =
    Some ((if True then 16 * int EPIC_BASE else 0) +
      int (\<Sum>i\<in>{0<..2}. block_total_reward_at_height i) -
      int (\<Sum>i\<in>{2 - 2 mod 1440<..2}. foundation_part i))"
proof -
  have h: "(2::nat) \<le> reward_horizon" by simp
  show ?thesis using h overage_conservation [OF h, of True] by blast
qed

text \<open>C14: miner and foundation share a block's reward without remainder, and the \<open>f64\<close>
  product that computes the foundation's part is exact: it is the scheduled rate (in hundredths
  of a percent) of the block reward, with no rounding error, at every height.\<close>

theorem reward_split_exact:
  assumes "h \<le> reward_horizon"
  shows "\<exists>f m. reward_foundation_at_height h = Some f \<and> reward_at_height h = Some m \<and>
    m + f = block_total_reward_at_height h \<and>
    10000 * f = block_total_reward_at_height h * foundation_rate h"
proof -
  have i: "levy_index h < u32_max" using assms by (simp add: levy_index_small)
  have "10000 dvd block_total_reward_at_height h * foundation_rate h"
  proof (cases "h \<le> 4642560")
    case True
    then obtain u where "block_total_reward_at_height h = u * 100000000" using reward_units by blast
    then show ?thesis by simp
  next
    case False
    then show ?thesis using levy_index_height [of h] by (auto simp: foundation_rate_def)
  qed
  then have "10000 * foundation_part h = block_total_reward_at_height h * foundation_rate h"
    by (simp add: foundation_part_def)
  then show ?thesis
    using foundation_part_le [of h] reward_foundation_closed [OF i] reward_at_height_closed [OF i]
    by auto
qed

theorem reward_split_exact_witness:
  "(700000::nat) \<le> reward_horizon \<and>
   (\<exists>f m. reward_foundation_at_height 700000 = Some f \<and> reward_at_height 700000 = Some m \<and>
    m + f = block_total_reward_at_height 700000 \<and>
    10000 * f = block_total_reward_at_height 700000 * foundation_rate 700000)"
proof -
  have h: "(700000::nat) \<le> reward_horizon" by simp
  show ?thesis using h reward_split_exact [OF h] by blast
qed


end
