(* ===== verification/Ser.thy ===== *)
theory Ser
  imports Prelude
begin

text \<open>
  Binary serialization, \<open>core/src/ser.rs\<close>, with \<open>read_exact\<close> of \<open>util/src/read_write.rs\<close>. Writing
  yields a list of bytes. Reading is a function on the reader that returns a result, with the
  reader as it is left behind, or panics and is \<open>None\<close>. Both readers are modelled: \<open>BinReader\<close>
  over a slice and \<open>StreamingReader\<close> over a stream that ends. The locale \<open>codec\<close> is the contract
  between the two implementations of a type.
\<close>

section \<open>Errors\<close>

datatype io_error_kind = NotFound | PermissionDenied | ConnectionRefused | ConnectionReset | ConnectionAborted
  | NotConnected | AddrInUse | AddrNotAvailable | BrokenPipe | AlreadyExists | WouldBlock | InvalidInput
  | InvalidData | TimedOut | WriteZero | Interrupted | Other | UnexpectedEof

datatype ser_error =
    IOErr string io_error_kind
  | UnexpectedData (expected: "u8 list") (received: "u8 list")
  | CorruptedData
  | CountError
  | TooLargeReadErr
  | HexError string
  | SortError
  | DuplicateError
  | InvalidBlockVersion

text \<open>The serde form of an error kind: the index and the name of the variant. The deserializer
  identifies a field by its index, by its name or by the bytes of its name.\<close>

fun serialize_error_kind :: "io_error_kind \<Rightarrow> u32 \<times> string" where
  "serialize_error_kind NotFound = (0, ''NotFound'')"
| "serialize_error_kind PermissionDenied = (1, ''PermissionDenied'')"
| "serialize_error_kind ConnectionRefused = (2, ''ConnectionRefused'')"
| "serialize_error_kind ConnectionReset = (3, ''ConnectionReset'')"
| "serialize_error_kind ConnectionAborted = (4, ''ConnectionAborted'')"
| "serialize_error_kind NotConnected = (5, ''NotConnected'')"
| "serialize_error_kind AddrInUse = (6, ''AddrInUse'')"
| "serialize_error_kind AddrNotAvailable = (7, ''AddrNotAvailable'')"
| "serialize_error_kind BrokenPipe = (8, ''BrokenPipe'')"
| "serialize_error_kind AlreadyExists = (9, ''AlreadyExists'')"
| "serialize_error_kind WouldBlock = (10, ''WouldBlock'')"
| "serialize_error_kind InvalidInput = (11, ''InvalidInput'')"
| "serialize_error_kind InvalidData = (12, ''InvalidData'')"
| "serialize_error_kind TimedOut = (13, ''TimedOut'')"
| "serialize_error_kind WriteZero = (14, ''WriteZero'')"
| "serialize_error_kind Interrupted = (15, ''Interrupted'')"
| "serialize_error_kind Other = (16, ''Other'')"
| "serialize_error_kind UnexpectedEof = (17, ''UnexpectedEof'')"

definition error_kind_visit_u64 :: "u64 \<Rightarrow> nat option" where
  "error_kind_visit_u64 value = (if value < 18 then Some value else None)"

definition error_kind_visit_str :: "string \<Rightarrow> nat option" where
  "error_kind_visit_str = map_of
     [(''NotFound'', 0), (''PermissionDenied'', 1), (''ConnectionRefused'', 2), (''ConnectionReset'', 3),
      (''ConnectionAborted'', 4), (''NotConnected'', 5), (''AddrInUse'', 6), (''AddrNotAvailable'', 7),
      (''BrokenPipe'', 8), (''AlreadyExists'', 9), (''WouldBlock'', 10), (''InvalidInput'', 11),
      (''InvalidData'', 12), (''TimedOut'', 13), (''WriteZero'', 14), (''Interrupted'', 15),
      (''Other'', 16), (''UnexpectedEof'', 17)]"

definition error_kind_visit_enum :: "nat \<Rightarrow> io_error_kind option" where
  "error_kind_visit_enum = map_of
     [(0, NotFound), (1, PermissionDenied), (2, ConnectionRefused), (3, ConnectionReset),
      (4, ConnectionAborted), (5, NotConnected), (6, AddrInUse), (7, AddrNotAvailable),
      (8, BrokenPipe), (9, AlreadyExists), (10, WouldBlock), (11, InvalidInput),
      (12, InvalidData), (13, TimedOut), (14, WriteZero), (15, Interrupted),
      (16, Other), (17, UnexpectedEof)]"

section \<open>Writing\<close>

datatype serialization_mode = Full | Hash

primrec be_bytes :: "nat \<Rightarrow> nat \<Rightarrow> u8 list" where
  "be_bytes 0 n = []"
| "be_bytes (Suc k) n = be_bytes k (n div 256) @ [n mod 256]"

definition be_nat :: "u8 list \<Rightarrow> nat" where
  "be_nat bs = foldl (\<lambda>a b. a * 256 + b) 0 bs"

definition write_u8 :: "u8 \<Rightarrow> u8 list" where "write_u8 n = [n]"
definition write_u16 :: "nat \<Rightarrow> u8 list" where "write_u16 n = be_bytes 2 n"
definition write_u32 :: "u32 \<Rightarrow> u8 list" where "write_u32 n = be_bytes 4 n"
definition write_u64 :: "u64 \<Rightarrow> u8 list" where "write_u64 n = be_bytes 8 n"
definition write_i32 :: "int \<Rightarrow> u8 list" where "write_i32 n = be_bytes 4 (nat (n mod 4294967296))"
definition write_i64 :: "i64 \<Rightarrow> u8 list" where "write_i64 n = be_bytes 8 (u64_of_i64 n)"

definition write_bytes :: "u8 list \<Rightarrow> u8 list" where
  "write_bytes bs = write_u64 (length bs) @ bs"

definition write_vec :: "('a \<Rightarrow> u8 list) \<Rightarrow> 'a list \<Rightarrow> u8 list" where
  "write_vec put xs = concat (map put xs)"

definition write_pair :: "('a \<Rightarrow> u8 list) \<Rightarrow> ('b \<Rightarrow> u8 list) \<Rightarrow> 'a \<times> 'b \<Rightarrow> u8 list" where
  "write_pair put1 put2 x = put1 (fst x) @ put2 (snd x)"

section \<open>Readers\<close>

datatype reader =
    BinReader (source: "u8 list")
  | StreamingReader (total_bytes_read: u64) (source: "u8 list")

type_synonym 'a read = "reader \<Rightarrow> ((ser_error + 'a) \<times> reader) option"

definition read_ok :: "'a \<Rightarrow> 'a read" where
  "read_ok x r = Some (Inr x, r)"

definition read_err :: "ser_error \<Rightarrow> 'a read" where
  "read_err e r = Some (Inl e, r)"

definition read_panic :: "'a read" where
  "read_panic r = None"

text \<open>Reading on after \<open>?\<close>.\<close>

definition read_bind :: "'a read \<Rightarrow> ('a \<Rightarrow> 'b read) \<Rightarrow> 'b read" where
  "read_bind m f r = (case m r of None \<Rightarrow> None
     | Some (Inl e, r') \<Rightarrow> Some (Inl e, r')
     | Some (Inr x, r') \<Rightarrow> f x r')"

text \<open>\<open>unwrap\<close> of what was read.\<close>

definition read_unwrap :: "'a read \<Rightarrow> 'a read" where
  "read_unwrap m r = (case m r of Some (Inr x, r') \<Rightarrow> Some (Inr x, r') | _ \<Rightarrow> None)"

definition eof_error :: ser_error where
  "eof_error = IOErr ''failed to fill whole buffer'' UnexpectedEof"

text \<open>\<open>util::read_write::read_exact\<close> on a stream that delivers what it has and then ends. Asking for
  no bytes at all is answered like the end of the stream.\<close>

definition read_exact :: "u8 list \<Rightarrow> nat \<Rightarrow> (ser_error + u8 list) \<times> u8 list" where
  "read_exact stream len =
     (if 0 < len \<and> len \<le> length stream then (Inr (take len stream), drop len stream)
      else (Inl (IOErr ''read_exact'' ConnectionAborted), if len = 0 then stream else []))"

definition MAX_FIXED_READ :: usize where "MAX_FIXED_READ = 100000"

text \<open>A vector of more than \<open>isize::MAX\<close> bytes cannot be allocated: capacity overflow.\<close>

fun read_fixed_bytes :: "usize \<Rightarrow> u8 list read" where
  "read_fixed_bytes len (BinReader bs) =
     (if len > MAX_FIXED_READ then Some (Inl TooLargeReadErr, BinReader bs)
      else if len \<le> length bs then Some (Inr (take len bs), BinReader (drop len bs))
      else Some (Inl eof_error, BinReader bs))"
| "read_fixed_bytes len (StreamingReader n bs) =
     (if len \<ge> 9223372036854775808 then None
      else case read_exact bs len of
        (Inl e, bs') \<Rightarrow> Some (Inl e, StreamingReader n bs')
      | (Inr buf, bs') \<Rightarrow> Some (Inr buf, StreamingReader (u64_add n len) bs'))"

definition read_u8 :: "u8 read" where
  "read_u8 = read_bind (read_fixed_bytes 1) (\<lambda>buf. read_ok (be_nat buf))"

definition read_u16 :: "nat read" where
  "read_u16 = read_bind (read_fixed_bytes 2) (\<lambda>buf. read_ok (be_nat buf))"

definition read_u32 :: "u32 read" where
  "read_u32 = read_bind (read_fixed_bytes 4) (\<lambda>buf. read_ok (be_nat buf))"

definition read_u64 :: "u64 read" where
  "read_u64 = read_bind (read_fixed_bytes 8) (\<lambda>buf. read_ok (be_nat buf))"

definition i32_of_u32 :: "u32 \<Rightarrow> int" where
  "i32_of_u32 a = (if a < 2147483648 then int a else int a - 4294967296)"

definition read_i32 :: "int read" where
  "read_i32 = read_bind (read_fixed_bytes 4) (\<lambda>buf. read_ok (i32_of_u32 (be_nat buf)))"

definition read_i64 :: "i64 read" where
  "read_i64 = read_bind (read_fixed_bytes 8) (\<lambda>buf. read_ok (i64_of_u64 (be_nat buf)))"

text \<open>The streaming reader counts the eight bytes of the length once more.\<close>

fun count_prefix :: "unit read" where
  "count_prefix (BinReader bs) = Some (Inr (), BinReader bs)"
| "count_prefix (StreamingReader n bs) = Some (Inr (), StreamingReader (u64_add n 8) bs)"

definition read_bytes_len_prefix :: "u8 list read" where
  "read_bytes_len_prefix = read_bind read_u64 (\<lambda>len. read_bind count_prefix (\<lambda>_. read_fixed_bytes len))"

definition expect_u8 :: "u8 \<Rightarrow> u8 read" where
  "expect_u8 val = read_bind read_u8 (\<lambda>b. if b = val then read_ok b else read_err (UnexpectedData [val] [b]))"

definition read_pair :: "'a read \<Rightarrow> 'b read \<Rightarrow> ('a \<times> 'b) read" where
  "read_pair get1 get2 = read_bind get1 (\<lambda>a. read_bind get2 (\<lambda>b. read_ok (a, b)))"

text \<open>The items an \<open>IteratingReader\<close> yields: an item that cannot be read ends the iteration.\<close>

fun iterating_reader :: "'a read \<Rightarrow> nat \<Rightarrow> reader \<Rightarrow> ('a list \<times> reader) option" where
  "iterating_reader get 0 r = Some ([], r)"
| "iterating_reader get (Suc count) r =
     (case get r of None \<Rightarrow> None
      | Some (Inl e, r') \<Rightarrow> Some ([], r')
      | Some (Inr x, r') \<Rightarrow> map_option (\<lambda>(xs, r''). (x # xs, r'')) (iterating_reader get count r'))"

definition read_multi :: "'a read \<Rightarrow> u64 \<Rightarrow> 'a list read" where
  "read_multi get count r =
     (if count > 1000000 then Some (Inl TooLargeReadErr, r)
      else case iterating_reader get count r of None \<Rightarrow> None
        | Some (res, r') \<Rightarrow> Some (if length res \<noteq> count then Inl CountError else Inr res, r'))"

text \<open>\<open>Vec::read\<close> reads until the source ends. \<open>None\<close> if it does not return.\<close>

partial_function (option) read_vec :: "'a read \<Rightarrow> 'a list read" where
  "read_vec get r =
     (case get r of None \<Rightarrow> None
      | Some (Inr e, r') \<Rightarrow>
          Option.bind (read_vec get r') (\<lambda>(res, r''). Some (bind_res res (\<lambda>es. Inr (e # es)), r''))
      | Some (Inl err, r') \<Rightarrow>
          (case err of IOErr _ kind \<Rightarrow> if kind = UnexpectedEof then Some (Inr [], r') else Some (Inl err, r')
           | _ \<Rightarrow> Some (Inl err, r')))"

definition deserialize :: "'a read \<Rightarrow> u8 list \<Rightarrow> (ser_error + 'a) option" where
  "deserialize get bs = map_option fst (get (BinReader bs))"

text \<open>\<open>str::from_utf8\<close>: the well-formed sequences of up to four bytes.\<close>

definition utf8_continues :: "u8 \<Rightarrow> bool" where
  "utf8_continues b \<longleftrightarrow> 128 \<le> b \<and> b \<le> 191"

fun utf8_valid :: "u8 list \<Rightarrow> bool" where
  "utf8_valid [] = True"
| "utf8_valid (b # bs) =
     (if b \<le> 127 then utf8_valid bs
      else if 194 \<le> b \<and> b \<le> 223 then
        (case bs of c # rest \<Rightarrow> utf8_continues c \<and> utf8_valid rest | _ \<Rightarrow> False)
      else if 224 \<le> b \<and> b \<le> 239 then
        (case bs of c # d # rest \<Rightarrow>
           utf8_continues c \<and> (b = 224 \<longrightarrow> 160 \<le> c) \<and> (b = 237 \<longrightarrow> c \<le> 159) \<and> utf8_continues d \<and> utf8_valid rest
         | _ \<Rightarrow> False)
      else if 240 \<le> b \<and> b \<le> 244 then
        (case bs of c # d # e # rest \<Rightarrow>
           utf8_continues c \<and> (b = 240 \<longrightarrow> 144 \<le> c) \<and> (b = 244 \<longrightarrow> c \<le> 143) \<and>
           utf8_continues d \<and> utf8_continues e \<and> utf8_valid rest
         | _ \<Rightarrow> False)
      else False)"

section \<open>Sorted collections\<close>

text \<open>\<open>verify_sorted_and_unique\<close> on the hashes of the items.\<close>

fun verify_sorted_and_unique :: "'h::linorder list \<Rightarrow> ser_error + unit" where
  "verify_sorted_and_unique (h1 # h2 # hs) =
     (if h1 > h2 then Inl SortError
      else if h1 = h2 then Inl DuplicateError
      else verify_sorted_and_unique (h2 # hs))"
| "verify_sorted_and_unique hs = Inr ()"

section \<open>Bytes\<close>

lemma length_be_bytes [simp]: "length (be_bytes k n) = k"
  by (induction k arbitrary: n) simp_all

lemma be_bytes_numeral: "be_bytes (numeral k) n = be_bytes (pred_numeral k) (n div 256) @ [n mod 256]"
  by (simp only: numeral_eq_Suc [of k] be_bytes.simps)

lemma be_nat_snoc [simp]: "be_nat (bs @ [b]) = be_nat bs * 256 + b"
  by (simp add: be_nat_def)

lemma be_nat_be_bytes: "be_nat (be_bytes k n) = n mod 256 ^ k"
proof (induction k arbitrary: n)
  case (Suc k)
  then show ?case by (simp add: mod_mult2_eq mult.commute)
qed (simp add: be_nat_def)

lemma be_bytes_be_nat: "\<forall>b \<in> set bs. b < 256 \<Longrightarrow> be_bytes (length bs) (be_nat bs) = bs"
  by (induction bs rule: rev_induct) simp_all

lemma be_nat_less: "\<forall>b \<in> set bs. b < 256 \<Longrightarrow> be_nat bs < 256 ^ length bs"
proof (induction bs rule: rev_induct)
  case (snoc b bs)
  then have "be_nat bs * 256 + b < Suc (be_nat bs) * 256" by simp
  also have "\<dots> \<le> 256 ^ length bs * 256" using snoc by (intro mult_right_mono) (simp_all add: Suc_le_eq)
  finally show ?case by simp
qed (simp add: be_nat_def)

lemma be_bytes_less: "b \<in> set (be_bytes k n) \<Longrightarrow> b < 256"
  by (induction k arbitrary: n) auto

lemma be_nat_single [simp]: "be_nat [b] = b"
  by (simp add: be_nat_def)

lemma length_write [simp]:
  "length (write_u8 n) = 1" "length (write_u16 n) = 2" "length (write_u32 n) = 4" "length (write_u64 n) = 8"
  "length (write_i32 m) = 4" "length (write_i64 m) = 8" "length (write_bytes bs) = 8 + length bs"
  by (simp_all add: write_u8_def write_u16_def write_u32_def write_u64_def write_i32_def write_i64_def write_bytes_def)

section \<open>What a reader accepts\<close>

text \<open>\<open>reads get bs x\<close>: in front of the bytes \<open>bs\<close>, whatever follows them, \<open>get\<close> consumes exactly
  them and returns \<open>x\<close>, on either reader.\<close>

definition reads :: "'a read \<Rightarrow> u8 list \<Rightarrow> 'a \<Rightarrow> bool" where
  "reads get bs x \<longleftrightarrow> (\<forall>r rest. source r = bs @ rest \<longrightarrow>
     (\<exists>r'. get r = Some (Inr x, r') \<and> source r' = rest \<and> is_BinReader r' = is_BinReader r))"

named_theorems reads_intros \<open>readers of the bytes that a writer produces\<close>

lemma reads_ok [reads_intros]: "reads (read_ok x) [] x"
  by (simp add: reads_def read_ok_def)

lemma reads_ok_eq: "x = y \<Longrightarrow> reads (read_ok x) [] y"
  by (simp add: reads_ok)

lemma reads_bind: "reads get bs x \<Longrightarrow> reads (f x) cs y \<Longrightarrow> reads (read_bind get f) (bs @ cs) y"
  unfolding reads_def read_bind_def by fastforce

lemma reads_last: "reads get bs x \<Longrightarrow> reads (f x) [] y \<Longrightarrow> reads (read_bind get f) bs y"
  using reads_bind [of get bs x f "[]" y] by simp

lemma reads_skip: "reads get [] x \<Longrightarrow> reads (f x) bs y \<Longrightarrow> reads (read_bind get f) bs y"
  using reads_bind [of get "[]" x f bs y] by simp

lemma reads_fixed_bytes [reads_intros]:
  assumes "length bs = n" and "0 < n" and "n \<le> MAX_FIXED_READ"
  shows "reads (read_fixed_bytes n) bs bs"
  unfolding reads_def
proof (intro allI impI)
  fix r rest assume "source r = bs @ rest"
  then show "\<exists>r'. read_fixed_bytes n r = Some (Inr bs, r') \<and> source r' = rest \<and> is_BinReader r' = is_BinReader r"
    using assms by (cases r) (auto simp: read_exact_def MAX_FIXED_READ_def)
qed

lemma reads_uint:
  assumes "n < 256 ^ k" and "0 < k" and "k \<le> MAX_FIXED_READ"
  shows "reads (read_bind (read_fixed_bytes k) (\<lambda>buf. read_ok (f (be_nat buf)))) (be_bytes k n) (f n)"
  using assms reads_ok [of "f n"] be_nat_be_bytes [of k n]
  by (intro reads_last [OF reads_fixed_bytes]) simp_all

lemma reads_ints [reads_intros]:
  "n < 256 \<Longrightarrow> reads read_u8 (write_u8 n) n"
  "n < 65536 \<Longrightarrow> reads read_u16 (write_u16 n) n"
  "n < u32_size \<Longrightarrow> reads read_u32 (write_u32 n) n"
  "n < u64_size \<Longrightarrow> reads read_u64 (write_u64 n) n"
  using reads_uint [of n 1 id] reads_uint [of n 2 id] reads_uint [of n 4 id] reads_uint [of n 8 id]
  by (simp_all add: read_u8_def read_u16_def read_u32_def read_u64_def write_u8_def write_u16_def write_u32_def
      write_u64_def MAX_FIXED_READ_def)

lemma i64_of_u64_of_i64:
  assumes "- 9223372036854775808 \<le> n" and "n < 9223372036854775808"
  shows "i64_of_u64 (u64_of_i64 n) = n"
proof -
  have "i64_of_u64 (u64_of_i64 n) = i64_wrap n"
    by (simp add: i64_of_u64_def u64_of_i64_def i64_wrap_def mod_simps)
  with assms show ?thesis by (simp add: width)
qed

lemma reads_i64 [reads_intros]:
  assumes "- 9223372036854775808 \<le> n" and "n < 9223372036854775808"
  shows "reads read_i64 (write_i64 n) n"
proof -
  have "u64_of_i64 n < 256 ^ 8" by (simp add: u64_of_i64_def nat_less_iff)
  from reads_uint [OF this, of i64_of_u64] show ?thesis
    by (simp add: i64_of_u64_of_i64 [OF assms] read_i64_def write_i64_def MAX_FIXED_READ_def)
qed

lemma reads_i32 [reads_intros]:
  assumes "- 2147483648 \<le> n" and "n < 2147483648"
  shows "reads read_i32 (write_i32 n) n"
proof -
  have "n mod 4294967296 = (if 0 \<le> n then n else n + 4294967296)"
    using assms mod_pos_pos_trivial [of "n + 4294967296" 4294967296] by auto
  then have "i32_of_u32 (nat (n mod 4294967296)) = n" "nat (n mod 4294967296) < 256 ^ 4"
    using assms by (simp_all add: i32_of_u32_def nat_less_iff)
  then show ?thesis using reads_uint [of "nat (n mod 4294967296)" 4 i32_of_u32]
    by (simp add: read_i32_def write_i32_def MAX_FIXED_READ_def)
qed

lemma reads_count_prefix: "reads count_prefix [] ()"
  unfolding reads_def
proof (intro allI impI)
  fix r rest assume "source r = [] @ rest"
  then show "\<exists>r'. count_prefix r = Some (Inr (), r') \<and> source r' = rest \<and> is_BinReader r' = is_BinReader r"
    by (cases r) simp_all
qed

lemma reads_bytes [reads_intros]:
  assumes "0 < length bs" and "length bs \<le> MAX_FIXED_READ"
  shows "reads read_bytes_len_prefix (write_bytes bs) bs"
  unfolding read_bytes_len_prefix_def write_bytes_def using assms
  by (intro reads_bind [OF reads_ints(4)] reads_skip [OF reads_count_prefix] reads_fixed_bytes)
    (simp_all add: MAX_FIXED_READ_def)

section \<open>The contract of a type that is written and read\<close>

locale codec =
  fixes put :: "'a \<Rightarrow> u8 list" and get :: "'a read" and ok :: "'a \<Rightarrow> bool"
  assumes reads_put: "ok x \<Longrightarrow> reads get (put x) x"
begin

lemma deserialize_put: "ok x \<Longrightarrow> deserialize get (put x @ rest) = Some (Inr x)"
  using reads_put [of x] unfolding reads_def deserialize_def
  by (metis fst_conv option.simps(9) reader.sel(1))

lemma put_prefix_free:
  assumes "ok x" and "ok y" and "put x @ rest = put y @ rest'"
  shows "x = y \<and> rest = rest'"
proof -
  obtain r where "get (BinReader (put x @ rest)) = Some (Inr x, r)" "source r = rest"
    using reads_put [OF assms(1)] unfolding reads_def by (metis reader.sel(1))
  moreover obtain r' where "get (BinReader (put y @ rest')) = Some (Inr y, r')" "source r' = rest'"
    using reads_put [OF assms(2)] unfolding reads_def by (metis reader.sel(1))
  ultimately show ?thesis using assms(3) by simp
qed

lemma put_inj: "ok x \<Longrightarrow> ok y \<Longrightarrow> put x = put y \<Longrightarrow> x = y"
  using put_prefix_free [of x y "[]" "[]"] by simp

lemma iterating_reader_put:
  assumes "list_all ok xs" and "source r = write_vec put xs @ rest"
  shows "\<exists>r'. iterating_reader get (length xs) r = Some (xs, r') \<and> source r' = rest \<and> is_BinReader r' = is_BinReader r"
  using assms
proof (induction xs arbitrary: r)
  case (Cons x xs)
  then have "source r = put x @ (write_vec put xs @ rest)" by (simp add: write_vec_def)
  then obtain r1 where r1: "get r = Some (Inr x, r1)" "source r1 = write_vec put xs @ rest" "is_BinReader r1 = is_BinReader r"
    using reads_put [of x] Cons.prems(1) unfolding reads_def by auto
  with Cons.IH [of r1] Cons.prems(1) show ?case by auto
qed (simp add: write_vec_def)

lemma reads_multi: "list_all ok xs \<Longrightarrow> length xs \<le> 1000000 \<Longrightarrow> reads (read_multi get (length xs)) (write_vec put xs) xs"
  unfolding reads_def read_multi_def using iterating_reader_put by fastforce

end

text \<open>A type whose reader reports the end of the source can be read until there is nothing left.\<close>

locale codec_eof = codec +
  assumes get_eof: "get (BinReader []) = Some (Inl eof_error, BinReader [])"
begin

lemma read_vec_put:
  "list_all ok xs \<Longrightarrow> read_vec get (BinReader (write_vec put xs)) = Some (Inr xs, BinReader [])"
proof (induction xs)
  case Nil
  then show ?case using get_eof by (subst read_vec.simps) (simp add: write_vec_def eof_error_def)
next
  case (Cons x xs)
  then obtain r where "get (BinReader (put x @ write_vec put xs)) = Some (Inr x, r)"
      "source r = write_vec put xs" "is_BinReader r"
    using reads_put [of x] unfolding reads_def by (auto dest!: spec [of _ "BinReader (put x @ write_vec put xs)"])
  then have "get (BinReader (write_vec put (x # xs))) = Some (Inr x, BinReader (write_vec put xs))"
    by (cases r) (simp_all add: write_vec_def)
  with Cons show ?case by (subst read_vec.simps) simp
qed

end

lemma ints_eof:
  "read_u8 (BinReader []) = Some (Inl eof_error, BinReader [])"
  "read_u16 (BinReader []) = Some (Inl eof_error, BinReader [])"
  "read_u32 (BinReader []) = Some (Inl eof_error, BinReader [])"
  "read_u64 (BinReader []) = Some (Inl eof_error, BinReader [])"
  "read_i64 (BinReader []) = Some (Inl eof_error, BinReader [])"
  by (simp_all add: read_u8_def read_u16_def read_u32_def read_u64_def read_i64_def read_bind_def MAX_FIXED_READ_def)

interpretation u8_codec: codec_eof write_u8 read_u8 "\<lambda>n. n < 256"
  by unfold_locales (simp_all add: reads_intros ints_eof)

interpretation u16_codec: codec_eof write_u16 read_u16 "\<lambda>n. n < 65536"
  by unfold_locales (simp_all add: reads_intros ints_eof)

interpretation u32_codec: codec_eof write_u32 read_u32 "\<lambda>n. n < u32_size"
  by unfold_locales (simp_all add: reads_intros ints_eof)

interpretation u64_codec: codec_eof write_u64 read_u64 "\<lambda>n. n < u64_size"
  by unfold_locales (simp_all add: reads_intros ints_eof)

interpretation i64_codec: codec_eof write_i64 read_i64 "\<lambda>n. - 9223372036854775808 \<le> n \<and> n < 9223372036854775808"
  by unfold_locales (simp_all add: reads_intros ints_eof)

section \<open>Successful reads\<close>

lemma read_bind_ok:
  "read_bind m f r = Some (Inr y, r') \<longleftrightarrow> (\<exists>x r1. m r = Some (Inr x, r1) \<and> f x r1 = Some (Inr y, r'))"
  by (auto simp: read_bind_def split: option.splits sum.splits prod.splits)

lemma read_fixed_bytes_ok:
  "read_fixed_bytes n (BinReader bs) = Some (Inr x, r') \<longleftrightarrow>
     n \<le> MAX_FIXED_READ \<and> n \<le> length bs \<and> x = take n bs \<and> r' = BinReader (drop n bs)"
  by auto

declare read_fixed_bytes.simps [simp del]

lemma read_u8_ok:
  "read_u8 (BinReader bs) = Some (Inr x, r') \<longleftrightarrow> (\<exists>rest. bs = x # rest \<and> r' = BinReader rest)"
  by (cases bs) (auto simp: read_u8_def read_bind_ok read_fixed_bytes_ok read_ok_def MAX_FIXED_READ_def)

lemma read_bind_u8: "read_bind read_u8 f (BinReader (b # bs)) = f b (BinReader bs)"
  using read_u8_ok [of "b # bs" b "BinReader bs"] by (simp add: read_bind_def)

lemma read_u64_ok:
  "read_u64 (BinReader bs) = Some (Inr x, r') \<longleftrightarrow> 8 \<le> length bs \<and> x = be_nat (take 8 bs) \<and> r' = BinReader (drop 8 bs)"
  by (auto simp: read_u64_def read_bind_ok read_fixed_bytes_ok read_ok_def MAX_FIXED_READ_def)

lemmas read_ok_iffs = read_bind_ok read_fixed_bytes_ok read_u8_ok read_u64_ok read_ok_def read_err_def read_panic_def

lemma read_unwrap_ok: "read_unwrap m r = Some (Inr x, r') \<longleftrightarrow> m r = Some (Inr x, r')"
  by (auto simp: read_unwrap_def split: option.splits sum.splits prod.splits)

lemma read_bytes_canonical:
  assumes "read_bytes_len_prefix (BinReader bs) = Some (Inr x, r')" and "\<forall>b \<in> set bs. b < 256"
  shows "\<exists>rest. r' = BinReader rest \<and> bs = write_bytes x @ rest"
proof -
  have b: "8 \<le> length bs" "x = take (be_nat (take 8 bs)) (drop 8 bs)" "be_nat (take 8 bs) \<le> length (drop 8 bs)"
    "r' = BinReader (drop (be_nat (take 8 bs)) (drop 8 bs))"
    using assms(1) by (auto simp: read_bytes_len_prefix_def read_ok_iffs)
  have "write_u64 (be_nat (take 8 bs)) = take 8 bs"
    using be_bytes_be_nat [of "take 8 bs"] b(1) assms(2) by (auto simp: write_u64_def dest: in_set_takeD)
  moreover have "length x = be_nat (take 8 bs)" using b by simp
  ultimately show ?thesis
    using b by (metis append_take_drop_id write_bytes_def append.assoc)
qed

section \<open>Properties\<close>

lemma verify_sorted_iff: "verify_sorted_and_unique hs = Inr () \<longleftrightarrow> sorted_wrt (<) hs"
  by (induction hs rule: verify_sorted_and_unique.induct) (auto simp: sorted_wrt2 dest: order.strict_trans)

text \<open>C31: a collection passes the check exactly if its hashes ascend strictly; otherwise the first pair
  of neighbours out of order decides between the two errors.\<close>

theorem verify_sorted_and_unique_spec:
  "verify_sorted_and_unique hs =
     (case find (\<lambda>i. hs ! i \<ge> hs ! Suc i) [0..<length hs - 1] of
        None \<Rightarrow> Inr ()
      | Some i \<Rightarrow> Inl (if hs ! i = hs ! Suc i then DuplicateError else SortError)) \<and>
   (verify_sorted_and_unique hs = Inr () \<longleftrightarrow> sorted_wrt (<) hs)"
proof -
  have find_Suc: "find P (map Suc xs) = map_option Suc (find (P \<circ> Suc) xs)" for P xs
    by (induction xs) simp_all
  have "verify_sorted_and_unique hs =
     (case find (\<lambda>i. hs ! i \<ge> hs ! Suc i) [0..<length hs - 1] of
        None \<Rightarrow> Inr ()
      | Some i \<Rightarrow> Inl (if hs ! i = hs ! Suc i then DuplicateError else SortError))"
  proof (induction hs rule: verify_sorted_and_unique.induct)
    case (1 h1 h2 hs)
    have "[0..<length (h1 # h2 # hs) - 1] = 0 # map Suc [0..<length (h2 # hs) - 1]"
      by (simp add: upt_conv_Cons map_Suc_upt del: upt_Suc)
    then show ?case using 1 by (auto simp: find_Suc comp_def split: option.splits simp del: upt_Suc)
  qed simp_all
  then show ?thesis using verify_sorted_iff by blast
qed


text \<open>C33: bytes with a length in front that a streaming reader returns are counted with eight bytes
  too many: the length is counted when it is read as a number and once more.\<close>

theorem len_prefix_counted_twice:
  assumes "0 < length bs" and "length bs < 9223372036854775808" and "count + length bs + 16 < u64_size"
  shows "read_bytes_len_prefix (StreamingReader count (write_bytes bs @ rest)) =
    Some (Inr bs, StreamingReader (count + length (write_bytes bs) + 8) rest)"
proof -
  have "be_nat (write_u64 (length bs)) = length bs"
    using assms be_nat_be_bytes [of 8 "length bs"] by (simp add: write_u64_def)
  then show ?thesis
    using assms by (simp add: read_bytes_len_prefix_def write_bytes_def read_bind_def read_u64_def read_exact_def
        read_ok_def read_fixed_bytes.simps width)
qed

theorem len_prefix_counted_twice_witness:
  "read_bytes_len_prefix (StreamingReader 0 [0, 0, 0, 0, 0, 0, 0, 2, 77, 87, 9]) = Some (Inr [77, 87], StreamingReader 18 [9])"
  using len_prefix_counted_twice [of "[77, 87]" 0 "[9]"]
  by (simp add: write_bytes_def write_u64_def be_bytes_numeral numeral_2_eq_2)

end
