(* ===== verification/Pow_Types.thy ===== *)
theory Pow_Types
  imports Consensus_Reward Ser
begin

text \<open>
  Proof-of-work types and the per-algorithm difficulty of \<open>core/src/pow/types.rs\<close>, with the
  parameters of \<open>core/src/global.rs\<close> that they read and \<open>graph_weight\<close> of
  \<open>core/src/consensus.rs\<close>. A difficulty is a dictionary from algorithm to number, as in the
  source; reading a missing algorithm and dividing by zero are explicit.
\<close>

section \<open>Algorithms\<close>

datatype pow_type = Cuckaroo | Cuckatoo | RandomX | ProgPow

definition pow_types :: "pow_type list" where
  "pow_types = [Cuckaroo, Cuckatoo, RandomX, ProgPow]"

fun pow_to_u8 :: "pow_type \<Rightarrow> u8" where
  "pow_to_u8 Cuckaroo = 0"
| "pow_to_u8 Cuckatoo = 1"
| "pow_to_u8 RandomX = 2"
| "pow_to_u8 ProgPow = 3"

fun pow_try_from :: "u8 \<Rightarrow> ser_error + pow_type" where
  "pow_try_from v =
     (if v = 0 then Inr Cuckaroo else if v = 1 then Inr Cuckatoo
      else if v = 2 then Inr RandomX else if v = 3 then Inr ProgPow
      else Inl CorruptedData)"

text \<open>The derived \<open>Ord\<close> follows the order of the constructors.\<close>

instantiation pow_type :: linorder
begin

definition less_eq_pow_type :: "pow_type \<Rightarrow> pow_type \<Rightarrow> bool" where
  "less_eq_pow_type a b \<longleftrightarrow> pow_to_u8 a \<le> pow_to_u8 b"

definition less_pow_type :: "pow_type \<Rightarrow> pow_type \<Rightarrow> bool" where
  "less_pow_type a b \<longleftrightarrow> pow_to_u8 a < pow_to_u8 b"

instance
proof
  fix x y z :: pow_type
  show "x < y \<longleftrightarrow> x \<le> y \<and> \<not> y \<le> x" by (auto simp: less_eq_pow_type_def less_pow_type_def)
  show "x \<le> x" by (simp add: less_eq_pow_type_def)
  show "x \<le> y \<Longrightarrow> y \<le> z \<Longrightarrow> x \<le> z" by (simp add: less_eq_pow_type_def)
  show "x \<le> y \<Longrightarrow> y \<le> x \<Longrightarrow> x = y" by (cases x; cases y) (simp_all add: less_eq_pow_type_def)
  show "x \<le> y \<or> y \<le> x" by (auto simp: less_eq_pow_type_def)
qed

end

lemma pow_types_all [simp]: "a \<in> set pow_types"
  by (cases a) (simp_all add: pow_types_def)

lemma pow_types_order: "sorted pow_types \<and> distinct pow_types"
  by (simp add: pow_types_def less_eq_pow_type_def)

section \<open>Global parameters\<close>

definition AUTOMATED_TESTING_MIN_EDGE_BITS :: u8 where "AUTOMATED_TESTING_MIN_EDGE_BITS = 9"
definition USER_TESTING_MIN_EDGE_BITS :: u8 where "USER_TESTING_MIN_EDGE_BITS = 15"
definition DEFAULT_MIN_EDGE_BITS :: u8 where "DEFAULT_MIN_EDGE_BITS = 19"
definition BASE_EDGE_BITS :: u8 where "BASE_EDGE_BITS = 24"
definition SECOND_POW_EDGE_BITS :: u8 where "SECOND_POW_EDGE_BITS = 31"

lemmas edge_bits_values = AUTOMATED_TESTING_MIN_EDGE_BITS_def USER_TESTING_MIN_EDGE_BITS_def
  DEFAULT_MIN_EDGE_BITS_def BASE_EDGE_BITS_def SECOND_POW_EDGE_BITS_def

definition min_edge_bits :: "chain_types \<Rightarrow> u8" where
  "min_edge_bits ct = (case ct of
     AutomatedTesting \<Rightarrow> AUTOMATED_TESTING_MIN_EDGE_BITS
   | UserTesting \<Rightarrow> USER_TESTING_MIN_EDGE_BITS
   | _ \<Rightarrow> DEFAULT_MIN_EDGE_BITS)"

definition base_edge_bits :: "chain_types \<Rightarrow> u8" where
  "base_edge_bits ct = (case ct of
     AutomatedTesting \<Rightarrow> AUTOMATED_TESTING_MIN_EDGE_BITS
   | UserTesting \<Rightarrow> USER_TESTING_MIN_EDGE_BITS
   | _ \<Rightarrow> BASE_EDGE_BITS)"

definition proofsize :: "chain_types \<Rightarrow> usize" where
  "proofsize ct = (case ct of AutomatedTesting \<Rightarrow> 4 | UserTesting \<Rightarrow> 42 | _ \<Rightarrow> 42)"

definition coinbase_maturity :: "chain_types \<Rightarrow> u64" where
  "coinbase_maturity ct = (case ct of
     AutomatedTesting \<Rightarrow> 3 | UserTesting \<Rightarrow> 3 | Floonet \<Rightarrow> 30 | Mainnet \<Rightarrow> DAY_HEIGHT)"

definition max_block_weight :: "chain_types \<Rightarrow> usize" where
  "max_block_weight ct = (case ct of
     AutomatedTesting \<Rightarrow> 150 | UserTesting \<Rightarrow> 150 | Floonet \<Rightarrow> 40000 | Mainnet \<Rightarrow> 40000)"

definition cut_through_horizon :: "chain_types \<Rightarrow> u32" where
  "cut_through_horizon ct = (case ct of
     AutomatedTesting \<Rightarrow> 70 | UserTesting \<Rightarrow> 70 | _ \<Rightarrow> as_u32 WEEK_HEIGHT)"

definition state_sync_threshold :: "chain_types \<Rightarrow> u32" where
  "state_sync_threshold ct = (case ct of
     AutomatedTesting \<Rightarrow> 20 | UserTesting \<Rightarrow> 20 | _ \<Rightarrow> 2 * as_u32 DAY_HEIGHT)"

definition graph_weight :: "chain_types \<Rightarrow> u64 \<Rightarrow> u8 \<Rightarrow> u64" where
  "graph_weight ct height edge_bits =
     (let min_bits = (if min_edge_bits ct = 19 then min_edge_bits ct + 12 else min_edge_bits ct);
          bits_over_min = edge_bits - min_bits;
          expiry_height = (if height > 880000
            then u64_mul (u64_shl 1 bits_over_min) (YEAR_HEIGHT * 100)
            else u64_mul (u64_shl 1 bits_over_min) YEAR_HEIGHT);
          xpr_edge_bits = (if height \<ge> expiry_height
            then u64_sat_sub edge_bits (1 + (height - expiry_height) div WEEK_HEIGHT)
            else edge_bits);
          d = (if edge_bits > base_edge_bits ct then edge_bits - base_edge_bits ct
               else base_edge_bits ct - edge_bits)
      in u64_mul (u64_shl 2 d) xpr_edge_bits)"

definition initial_graph_weight :: "chain_types \<Rightarrow> u32" where
  "initial_graph_weight ct = (case ct of
     AutomatedTesting \<Rightarrow> 1 | UserTesting \<Rightarrow> 1
   | _ \<Rightarrow> as_u32 (graph_weight ct 0 SECOND_POW_EDGE_BITS))"

definition UNIT_DIFFICULTY :: u64 where
  "UNIT_DIFFICULTY = u64_shl 2 (SECOND_POW_EDGE_BITS - BASE_EDGE_BITS) * SECOND_POW_EDGE_BITS"

definition initial_block_difficulty :: "chain_types \<Rightarrow> u64" where
  "initial_block_difficulty ct = (case ct of
     AutomatedTesting \<Rightarrow> 1 | UserTesting \<Rightarrow> 1 | _ \<Rightarrow> 1000000 * UNIT_DIFFICULTY)"

section \<open>Difficulty\<close>

definition MIN_DIFFICULTY :: u64 where "MIN_DIFFICULTY = 3"

type_synonym difficulty_number = "pow_type \<rightharpoonup> u64"

record difficulty =
  num :: difficulty_number

definition number :: "u64 \<Rightarrow> difficulty_number" where
  "number v = [Cuckaroo \<mapsto> v, Cuckatoo \<mapsto> v, RandomX \<mapsto> v, ProgPow \<mapsto> v]"

definition difficulty_zero :: difficulty where "difficulty_zero = \<lparr>num = number 0\<rparr>"
definition difficulty_min :: difficulty where "difficulty_min = \<lparr>num = number MIN_DIFFICULTY\<rparr>"
definition difficulty_unit :: "chain_types \<Rightarrow> difficulty" where
  "difficulty_unit ct = \<lparr>num = number (initial_graph_weight ct)\<rparr>"
definition difficulty_from_num :: "u64 \<Rightarrow> difficulty" where
  "difficulty_from_num n = \<lparr>num = number (max n 1)\<rparr>"

definition to_num :: "difficulty \<Rightarrow> pow_type \<Rightarrow> u64" where
  "to_num d pow = (case num d pow of None \<Rightarrow> 0 | Some v \<Rightarrow> v)"

text \<open>The \<open>u128\<close> sum of all entries, by which difficulties are ordered.\<close>

definition difficulty_sum :: "difficulty \<Rightarrow> nat" where
  "difficulty_sum d = sum_list (List.map_filter (num d) pow_types)"

definition difficulty_less :: "difficulty \<Rightarrow> difficulty \<Rightarrow> bool" where
  "difficulty_less a b \<longleftrightarrow> difficulty_sum a < difficulty_sum b"

fun insert_all :: "(pow_type \<Rightarrow> u64 \<Rightarrow> u64) \<Rightarrow> difficulty_number \<Rightarrow> pow_type list \<Rightarrow> difficulty_number \<Rightarrow> difficulty_number" where
  "insert_all f m [] d = d"
| "insert_all f m (a # as) d =
     insert_all f m as (case m a of None \<Rightarrow> d | Some v \<Rightarrow> d(a \<mapsto> f a v))"

definition difficulty_add :: "difficulty \<Rightarrow> difficulty \<Rightarrow> difficulty" where
  "difficulty_add a b = \<lparr>num = insert_all (\<lambda>p v. u64_add v (to_num b p)) (num a) pow_types (number 0)\<rparr>"

definition difficulty_sub :: "difficulty \<Rightarrow> difficulty \<Rightarrow> difficulty" where
  "difficulty_sub a b = \<lparr>num = insert_all (\<lambda>p v. u64_sub v (to_num b p)) (num a) pow_types (number 0)\<rparr>"

definition difficulty_mul :: "difficulty \<Rightarrow> difficulty \<Rightarrow> difficulty" where
  "difficulty_mul a b =
     \<lparr>num = insert_all (\<lambda>p v. u64_mul v (case num b p of None \<Rightarrow> 1 | Some w \<Rightarrow> w)) (num a) pow_types (number 0)\<rparr>"

definition difficulty_div :: "difficulty \<Rightarrow> difficulty \<Rightarrow> difficulty option" where
  "difficulty_div a b =
     (if \<exists>p \<in> set pow_types. num a p \<noteq> None \<and> num b p = Some 0 then None
      else Some \<lparr>num = insert_all (\<lambda>p v. v div (case num b p of None \<Rightarrow> 1 | Some w \<Rightarrow> w)) (num a) pow_types (number 0)\<rparr>)"

text \<open>Well-formed difficulties carry all four algorithms, each a \<open>u64\<close>.\<close>

definition wf_difficulty :: "difficulty \<Rightarrow> bool" where
  "wf_difficulty d \<longleftrightarrow> (\<forall>p \<in> set pow_types. \<exists>v. num d p = Some v \<and> v < u64_size)"

section \<open>Lemmas\<close>

lemma number_apply [simp]: "number v p = Some v"
  by (cases p) (simp_all add: number_def)

lemma to_num_number [simp]: "to_num \<lparr>num = number v\<rparr> p = v"
  by (simp add: to_num_def)

lemma insert_all_apply:
  "distinct as \<Longrightarrow> insert_all f m as d p =
     (if p \<in> set as then (case m p of None \<Rightarrow> d p | Some v \<Rightarrow> Some (f p v)) else d p)"
  by (induction as arbitrary: d) (auto split: option.splits)

lemma distinct_pow_types [simp]: "distinct pow_types"
  using pow_types_order by simp

lemma wf_difficulty_to_num: "wf_difficulty d \<Longrightarrow> num d p = Some (to_num d p) \<and> to_num d p < u64_size"
  unfolding wf_difficulty_def to_num_def by (metis option.simps(5) pow_types_all)

lemma to_num_add:
  "wf_difficulty a \<Longrightarrow> to_num (difficulty_add a b) p = u64_add (to_num a p) (to_num b p)"
  using wf_difficulty_to_num [of a p]
  by (auto simp: difficulty_add_def to_num_def insert_all_apply split: option.splits)

lemma to_num_sub:
  "wf_difficulty a \<Longrightarrow> to_num (difficulty_sub a b) p = u64_sub (to_num a p) (to_num b p)"
  using wf_difficulty_to_num [of a p]
  by (auto simp: difficulty_sub_def to_num_def insert_all_apply split: option.splits)

lemma wf_difficulty_number [simp]: "v < u64_size \<Longrightarrow> wf_difficulty \<lparr>num = number v\<rparr>"
  by (simp add: wf_difficulty_def)

lemma wf_difficulty_add: "wf_difficulty a \<Longrightarrow> wf_difficulty (difficulty_add a b)"
  by (auto simp: wf_difficulty_def difficulty_add_def insert_all_apply split: option.splits)

lemma wf_difficulty_sub: "wf_difficulty a \<Longrightarrow> wf_difficulty (difficulty_sub a b)"
  unfolding wf_difficulty_def difficulty_sub_def
  by (auto simp: insert_all_apply intro!: u64_sub_less split: option.splits)

lemma difficulty_sum_closed:
  "wf_difficulty d \<Longrightarrow>
     difficulty_sum d = to_num d Cuckaroo + to_num d Cuckatoo + to_num d RandomX + to_num d ProgPow"
  using wf_difficulty_to_num [of d Cuckaroo] wf_difficulty_to_num [of d Cuckatoo]
    wf_difficulty_to_num [of d RandomX] wf_difficulty_to_num [of d ProgPow]
  by (simp add: difficulty_sum_def pow_types_def List.map_filter_def)

lemma u64_sub_add_cancel: "a < u64_size \<Longrightarrow> b < u64_size \<Longrightarrow> u64_sub (u64_add a b) b = a"
  by (auto simp: u64_sub_def u64_add_def mod_if)

lemma difficulty_eqI: "wf_difficulty a \<Longrightarrow> wf_difficulty b \<Longrightarrow> (\<And>p. to_num a p = to_num b p) \<Longrightarrow> a = b"
  using wf_difficulty_to_num [of a] wf_difficulty_to_num [of b]
  by (intro difficulty.equality ext) simp_all

end
