(* ===== verification/Consensus_Difficulty.thy ===== *)
theory Consensus_Difficulty
  imports Pow_Types
begin

text \<open>
  Difficulty adjustment: \<open>damp\<close>, \<open>clamp\<close>, the window of recent headers and the next
  difficulty of every algorithm, from \<open>core/src/consensus.rs\<close> and \<open>core/src/global.rs\<close>.
  The header iterator is the list of the headers it yields, newest first; an index out of
  range, an \<open>unwrap\<close> of nothing and an explicit panic are \<open>None\<close>.
\<close>

section \<open>Definitions\<close>

definition DIFFICULTY_ADJUST_WINDOW :: u64 where "DIFFICULTY_ADJUST_WINDOW = HOUR_HEIGHT"
definition BLOCK_TIME_WINDOW :: u64 where
  "BLOCK_TIME_WINDOW = DIFFICULTY_ADJUST_WINDOW * BLOCK_TIME_SEC"
definition CLAMP_FACTOR :: u64 where "CLAMP_FACTOR = 2"
definition DIFFICULTY_DAMP_FACTOR :: u64 where "DIFFICULTY_DAMP_FACTOR = 3"
definition AR_SCALE_DAMP_FACTOR :: u64 where "AR_SCALE_DAMP_FACTOR = 13"
definition RX_CLAMP_FACTOR :: u64 where "RX_CLAMP_FACTOR = 2"
definition RX_DIFFICULTY_DAMP_FACTOR :: u64 where "RX_DIFFICULTY_DAMP_FACTOR = 3"
definition PP_CLAMP_FACTOR :: u64 where "PP_CLAMP_FACTOR = 2"
definition PP_DIFFICULTY_DAMP_FACTOR :: u64 where "PP_DIFFICULTY_DAMP_FACTOR = 3"
definition MIN_DIFFICULTY_RANDOMX :: u64 where "MIN_DIFFICULTY_RANDOMX = 4000"
definition OLD_MIN_DIFFICULTY_RANDOMX :: u64 where "OLD_MIN_DIFFICULTY_RANDOMX = 5000"
definition MIN_DIFFICULTY_PROGPOW :: u64 where "MIN_DIFFICULTY_PROGPOW = 200000"
definition OLD_MIN_DIFFICULTY_PROGPOW :: u64 where "OLD_MIN_DIFFICULTY_PROGPOW = 100000"
definition BLOCK_DIFF_FACTOR_RANDOMX :: u64 where "BLOCK_DIFF_FACTOR_RANDOMX = 64"
definition BLOCK_DIFF_FACTOR_PROGPOW :: u64 where "BLOCK_DIFF_FACTOR_PROGPOW = 64"
definition MIN_AR_SCALE :: u64 where "MIN_AR_SCALE = AR_SCALE_DAMP_FACTOR"

lemma window_values [simp]:
  "DIFFICULTY_ADJUST_WINDOW = 60" "BLOCK_TIME_WINDOW = 3600" "CLAMP_FACTOR = 2"
  "DIFFICULTY_DAMP_FACTOR = 3" "AR_SCALE_DAMP_FACTOR = 13" "RX_CLAMP_FACTOR = 2"
  "RX_DIFFICULTY_DAMP_FACTOR = 3" "PP_CLAMP_FACTOR = 2" "PP_DIFFICULTY_DAMP_FACTOR = 3"
  "MIN_DIFFICULTY_RANDOMX = 4000" "OLD_MIN_DIFFICULTY_RANDOMX = 5000"
  "MIN_DIFFICULTY_PROGPOW = 200000" "OLD_MIN_DIFFICULTY_PROGPOW = 100000"
  "BLOCK_DIFF_FACTOR_RANDOMX = 64" "BLOCK_DIFF_FACTOR_PROGPOW = 64" "MIN_AR_SCALE = 13"
  "MIN_DIFFICULTY = 3"
  by (simp_all add: DIFFICULTY_ADJUST_WINDOW_def BLOCK_TIME_WINDOW_def CLAMP_FACTOR_def
    DIFFICULTY_DAMP_FACTOR_def AR_SCALE_DAMP_FACTOR_def RX_CLAMP_FACTOR_def
    RX_DIFFICULTY_DAMP_FACTOR_def PP_CLAMP_FACTOR_def PP_DIFFICULTY_DAMP_FACTOR_def
    MIN_DIFFICULTY_RANDOMX_def OLD_MIN_DIFFICULTY_RANDOMX_def MIN_DIFFICULTY_PROGPOW_def
    OLD_MIN_DIFFICULTY_PROGPOW_def BLOCK_DIFF_FACTOR_RANDOMX_def BLOCK_DIFF_FACTOR_PROGPOW_def
    MIN_AR_SCALE_def MIN_DIFFICULTY_def)

record header_info =
  hi_timestamp :: u64
  hi_difficulty :: difficulty
  hi_secondary_scaling :: u32
  hi_is_secondary :: bool
  hi_prev_timespan :: u64

definition from_ts_diff :: "chain_types \<Rightarrow> u64 \<Rightarrow> difficulty \<Rightarrow> header_info" where
  "from_ts_diff ct ts d = \<lparr>hi_timestamp = ts, hi_difficulty = d,
     hi_secondary_scaling = initial_graph_weight ct, hi_is_secondary = True, hi_prev_timespan = 0\<rparr>"

definition from_diff_scaling :: "difficulty \<Rightarrow> u32 \<Rightarrow> header_info" where
  "from_diff_scaling d sc = \<lparr>hi_timestamp = 1, hi_difficulty = d,
     hi_secondary_scaling = sc, hi_is_secondary = True, hi_prev_timespan = 0\<rparr>"

definition damp :: "u64 \<Rightarrow> u64 \<Rightarrow> u64 \<Rightarrow> u64" where
  "damp actual goal damp_factor =
     u64_add actual (u64_mul (u64_sub damp_factor 1) goal) div damp_factor"

definition clamp :: "u64 \<Rightarrow> u64 \<Rightarrow> u64 \<Rightarrow> u64" where
  "clamp actual goal clamp_factor =
     max (goal div clamp_factor) (min actual (u64_mul goal clamp_factor))"

definition secondary_pow_ratio :: "u64 \<Rightarrow> u64" where
  "secondary_pow_ratio height = u64_sat_sub 90 (height div (2 * YEAR_HEIGHT div 90))"

definition ar_scale_damp_factor :: "u64 \<Rightarrow> u64" where
  "ar_scale_damp_factor height = AR_SCALE_DAMP_FACTOR"

text \<open>The in-place loop \<open>for i in 1..last_n.len()\<close>: each timestamp is recomputed from the
  already rewritten one before it.\<close>

fun chain_timestamps :: "header_info \<Rightarrow> header_info list \<Rightarrow> header_info list" where
  "chain_timestamps prev [] = []"
| "chain_timestamps prev (h # hs) =
     (let h' = h\<lparr>hi_timestamp := u64_sat_sub (hi_timestamp prev) (hi_prev_timespan prev)\<rparr>
      in h' # chain_timestamps h' hs)"

fun rewrite_timestamps :: "header_info list \<Rightarrow> header_info list" where
  "rewrite_timestamps [] = []"
| "rewrite_timestamps (h # hs) = h # chain_timestamps h hs"

fun simulated_blocks :: "chain_types \<Rightarrow> nat \<Rightarrow> u64 \<Rightarrow> u64 \<Rightarrow> difficulty \<Rightarrow> header_info list" where
  "simulated_blocks ct 0 last_ts delta d = []"
| "simulated_blocks ct (Suc k) last_ts delta d =
     (let ts = u64_sat_sub last_ts delta
      in from_ts_diff ct ts d # simulated_blocks ct k ts delta d)"

definition pad_window :: "chain_types \<Rightarrow> nat \<Rightarrow> header_info list \<Rightarrow> header_info list option" where
  "pad_window ct needed last_n =
     (let n = length last_n in
      if needed > n then
        (case last_n of [] \<Rightarrow> None
         | h # _ \<Rightarrow>
           (let delta = (if n > 1 then u64_sub (hi_timestamp h) (hi_timestamp (last_n ! 1)) else BLOCK_TIME_SEC)
            in Some (last_n @ simulated_blocks ct (needed - n) (hi_timestamp (last last_n)) delta (hi_difficulty h))))
      else Some last_n)"

definition ts_data_to_vector :: "chain_types \<Rightarrow> header_info list \<Rightarrow> u64 \<Rightarrow> header_info list option" where
  "ts_data_to_vector ct cursor needed_block_count =
     (let needed = needed_block_count + 1
      in pad_window ct needed (rewrite_timestamps (take needed cursor)))"

definition difficulty_data_to_vector :: "chain_types \<Rightarrow> header_info list \<Rightarrow> u64 \<Rightarrow> header_info list option" where
  "difficulty_data_to_vector ct cursor needed_block_count =
     (let needed = needed_block_count + 1
      in map_option rev (pad_window ct needed (rewrite_timestamps (take needed cursor))))"

definition ar_count :: "u64 \<Rightarrow> header_info list \<Rightarrow> u64" where
  "ar_count height diff_data = u64_mul 100 (length (filter hi_is_secondary diff_data))"

fun u64_sum :: "u64 list \<Rightarrow> u64" where
  "u64_sum [] = 0"
| "u64_sum (x # xs) = u64_add x (u64_sum xs)"

definition secondary_pow_scaling :: "u64 \<Rightarrow> header_info list \<Rightarrow> u32" where
  "secondary_pow_scaling height diff_data =
     (let scale_sum = u64_sum (map hi_secondary_scaling diff_data);
          target_pct = secondary_pow_ratio height;
          target_count = u64_mul DIFFICULTY_ADJUST_WINDOW target_pct;
          adj_count = clamp (damp (ar_count height diff_data) target_count (ar_scale_damp_factor height))
                        target_count CLAMP_FACTOR;
          scale = u64_mul scale_sum target_pct div max 1 adj_count
      in as_u32 (max MIN_AR_SCALE scale))"

definition diff_sum :: "pow_type \<Rightarrow> header_info list \<Rightarrow> u64" where
  "diff_sum pow diff_data = u64_sum (map (\<lambda>dd. to_num (hi_difficulty dd) pow) (tl diff_data))"

definition next_cuckoo_difficulty :: "u64 \<Rightarrow> pow_type \<Rightarrow> header_info list \<Rightarrow> u64 option" where
  "next_cuckoo_difficulty height pow diff_data =
     (if length diff_data \<le> DIFFICULTY_ADJUST_WINDOW then None
      else let ts_delta = u64_sub (hi_timestamp (diff_data ! DIFFICULTY_ADJUST_WINDOW)) (hi_timestamp (diff_data ! 0));
               adj_ts = clamp (damp ts_delta BLOCK_TIME_WINDOW DIFFICULTY_DAMP_FACTOR) BLOCK_TIME_WINDOW CLAMP_FACTOR
           in Some (max MIN_DIFFICULTY (u64_mul (diff_sum pow diff_data) BLOCK_TIME_SEC div adj_ts)))"

text \<open>The loop \<open>for i in 1..diff_data.len()\<close> adds the time span of each element but the last.\<close>

definition era1_ts_delta :: "header_info list \<Rightarrow> u64" where
  "era1_ts_delta diff_data =
     fold (\<lambda>d acc. u64_add acc (u64_sub (hi_timestamp d) (u64_sat_sub (hi_timestamp d) (hi_prev_timespan d))))
       (butlast diff_data) 0"

definition next_progpow_difficulty_era1 :: "pow_type \<Rightarrow> header_info list \<Rightarrow> u64" where
  "next_progpow_difficulty_era1 pow diff_data =
     (let adj_ts = clamp (damp (era1_ts_delta diff_data) BLOCK_TIME_WINDOW PP_DIFFICULTY_DAMP_FACTOR)
                     BLOCK_TIME_WINDOW PP_CLAMP_FACTOR
      in max MIN_DIFFICULTY_PROGPOW (u64_mul (diff_sum pow diff_data) BLOCK_TIME_SEC div adj_ts))"

definition next_randomx_difficulty_era1 :: "pow_type \<Rightarrow> header_info list \<Rightarrow> u64" where
  "next_randomx_difficulty_era1 pow diff_data =
     (let adj_ts = clamp (damp (era1_ts_delta diff_data) BLOCK_TIME_WINDOW RX_DIFFICULTY_DAMP_FACTOR)
                     BLOCK_TIME_WINDOW RX_CLAMP_FACTOR
      in max MIN_DIFFICULTY_RANDOMX (u64_mul (diff_sum pow diff_data) BLOCK_TIME_SEC div adj_ts))"

definition next_cuckoo_difficulty_era1 :: "pow_type \<Rightarrow> header_info list \<Rightarrow> u64" where
  "next_cuckoo_difficulty_era1 pow diff_data =
     (let adj_ts = clamp (damp (era1_ts_delta diff_data) BLOCK_TIME_WINDOW DIFFICULTY_DAMP_FACTOR)
                     BLOCK_TIME_WINDOW CLAMP_FACTOR
      in max MIN_DIFFICULTY (u64_mul (diff_sum pow diff_data) BLOCK_TIME_SEC div adj_ts))"

definition next_hash_difficulty :: "pow_type \<Rightarrow> header_info list \<Rightarrow> u64 option" where
  "next_hash_difficulty pow diff_data =
     (case (case pow of RandomX \<Rightarrow> Some (BLOCK_DIFF_FACTOR_RANDOMX, OLD_MIN_DIFFICULTY_RANDOMX)
              | ProgPow \<Rightarrow> Some (BLOCK_DIFF_FACTOR_PROGPOW, OLD_MIN_DIFFICULTY_PROGPOW)
              | _ \<Rightarrow> None) of
        None \<Rightarrow> None
      | Some (block_diff_factor, min_diff) \<Rightarrow>
          (if length diff_data < 2 then None
           else let current_diff = to_num (hi_difficulty (diff_data ! 1)) pow;
                    ts_delta = u64_sub (hi_timestamp (diff_data ! 1)) (hi_timestamp (diff_data ! 0));
                    offset = i64_of_u64 (current_diff div block_diff_factor);
                    d = i64_of_u64 ts_delta;
                    q = sgn d * (\<bar>d\<bar> div 60);
                    sign = max (i64_wrap (1 - i64_wrap (2 * q))) (- 99)
                in Some (max (u64_of_i64 (max (i64_wrap (i64_of_u64 current_diff + i64_wrap (offset * sign))) 1))
                           (min current_diff min_diff))))"

definition next_difficulty :: "chain_types \<Rightarrow> u64 \<Rightarrow> pow_type \<Rightarrow> header_info list \<Rightarrow> header_info option" where
  "next_difficulty ct height prev_algo cursor = do {
     diff_data \<leftarrow> (case prev_algo of
         Cuckatoo \<Rightarrow> difficulty_data_to_vector ct cursor DIFFICULTY_ADJUST_WINDOW
       | Cuckaroo \<Rightarrow> difficulty_data_to_vector ct cursor DIFFICULTY_ADJUST_WINDOW
       | RandomX \<Rightarrow> difficulty_data_to_vector ct cursor 1
       | ProgPow \<Rightarrow> difficulty_data_to_vector ct cursor 1);
     let sec_pow_scaling = secondary_pow_scaling height (tl diff_data);
     let diff = num (hi_difficulty (last diff_data));
     new \<leftarrow> (case prev_algo of
         Cuckatoo \<Rightarrow> next_cuckoo_difficulty height Cuckatoo diff_data
       | Cuckaroo \<Rightarrow> next_cuckoo_difficulty height Cuckaroo diff_data
       | RandomX \<Rightarrow> next_hash_difficulty RandomX diff_data
       | ProgPow \<Rightarrow> next_hash_difficulty ProgPow diff_data);
     Some (from_diff_scaling \<lparr>num = diff(prev_algo \<mapsto> new)\<rparr> sec_pow_scaling) }"

definition next_difficulty_era1 :: "chain_types \<Rightarrow> u64 \<Rightarrow> pow_type \<Rightarrow> header_info list \<Rightarrow> header_info option" where
  "next_difficulty_era1 ct height prev_algo cursor = do {
     diff_data \<leftarrow> difficulty_data_to_vector ct cursor DIFFICULTY_ADJUST_WINDOW;
     let sec_pow_scaling = secondary_pow_scaling height (tl diff_data);
     let diff = num (hi_difficulty (last diff_data));
     let new = (case prev_algo of
         Cuckatoo \<Rightarrow> next_cuckoo_difficulty_era1 Cuckatoo diff_data
       | Cuckaroo \<Rightarrow> next_cuckoo_difficulty_era1 Cuckaroo diff_data
       | RandomX \<Rightarrow> next_randomx_difficulty_era1 RandomX diff_data
       | ProgPow \<Rightarrow> next_progpow_difficulty_era1 ProgPow diff_data);
     Some (from_diff_scaling \<lparr>num = diff(prev_algo \<mapsto> new)\<rparr> sec_pow_scaling) }"

definition timestamp_median :: "chain_types \<Rightarrow> u64 \<Rightarrow> pow_type \<Rightarrow> header_info list \<Rightarrow> u64 option" where
  "timestamp_median ct header_ts prev_algo cursor = do {
     diff_data \<leftarrow> ts_data_to_vector ct cursor 6;
     let ts = sort (map hi_timestamp diff_data @ [header_ts]);
     let half = length ts div 2;
     Some (if length ts mod 2 = 0 then ts ! half else u64_add (ts ! (half - 1)) (ts ! half) div 2) }"

section \<open>The header window\<close>

lemma length_chain_timestamps [simp]: "length (chain_timestamps h hs) = length hs"
  by (induction hs arbitrary: h) (simp_all add: Let_def)

lemma length_rewrite_timestamps [simp]: "length (rewrite_timestamps hs) = length hs"
  by (cases hs) simp_all

lemma length_simulated_blocks [simp]: "length (simulated_blocks ct k ts delta d) = k"
  by (induction k arbitrary: ts) (simp_all add: Let_def)

lemma chain_timestamps_descending:
  "sorted_wrt (\<ge>) (map hi_timestamp (h # chain_timestamps h hs))"
proof (induction hs arbitrary: h)
  case Nil
  show ?case by simp
next
  case (Cons a hs)
  let ?a = "a\<lparr>hi_timestamp := u64_sat_sub (hi_timestamp h) (hi_prev_timespan h)\<rparr>"
  have "\<forall>x \<in> set (chain_timestamps ?a hs). hi_timestamp x \<le> hi_timestamp ?a"
    using Cons.IH [of ?a] by auto
  then have "\<forall>x \<in> set (?a # chain_timestamps ?a hs). hi_timestamp x \<le> hi_timestamp h"
    by (auto simp: u64_sat_sub_def intro: le_trans)
  with Cons.IH [of ?a] show ?case by (auto simp: Let_def)
qed

lemma rewrite_timestamps_descending: "sorted_wrt (\<ge>) (map hi_timestamp (rewrite_timestamps hs))"
  using chain_timestamps_descending by (cases hs) auto

lemma simulated_blocks_descending:
  "sorted_wrt (\<ge>) (map hi_timestamp (simulated_blocks ct k ts delta d)) \<and>
   (\<forall>x \<in> set (simulated_blocks ct k ts delta d). hi_timestamp x \<le> ts)"
proof (induction k arbitrary: ts)
  case 0
  show ?case by simp
next
  case (Suc k)
  then show ?case
    by (fastforce simp: Let_def from_ts_diff_def u64_sat_sub_def intro: le_trans)
qed

lemma descending_last: "sorted_wrt (\<ge>) (map f xs) \<Longrightarrow> x \<in> set xs \<Longrightarrow> f (last xs) \<le> (f x :: nat)"
  by (induction xs) (auto split: if_splits)

lemma descending_append:
  fixes f :: "'a \<Rightarrow> nat"
  assumes xs: "sorted_wrt (\<ge>) (map f xs)" and ys: "sorted_wrt (\<ge>) (map f ys)"
    and le: "\<And>y. y \<in> set ys \<Longrightarrow> f y \<le> f (last xs)"
  shows "sorted_wrt (\<ge>) (map f (xs @ ys))"
proof -
  have "f y \<le> f x" if "x \<in> set xs" and "y \<in> set ys" for x y
    using le [OF that(2)] descending_last [OF xs that(1)] by simp
  with xs ys show ?thesis by (simp add: sorted_wrt_append)
qed

lemma pad_window_Some:
  assumes "last_n \<noteq> []" and "length last_n \<le> needed"
    and "sorted_wrt (\<ge>) (map hi_timestamp last_n)"
  shows "\<exists>rest. pad_window ct needed last_n = Some (last_n @ rest) \<and>
    length (last_n @ rest) = needed \<and> sorted_wrt (\<ge>) (map hi_timestamp (last_n @ rest))"
proof (cases "needed > length last_n")
  case True
  obtain h t where l: "last_n = h # t" using assms(1) by (cases last_n) auto
  let ?delta = "if length last_n > 1 then u64_sub (hi_timestamp h) (hi_timestamp (last_n ! 1)) else BLOCK_TIME_SEC"
  let ?rest = "simulated_blocks ct (needed - length last_n) (hi_timestamp (last last_n)) ?delta (hi_difficulty h)"
  have p: "pad_window ct needed last_n = Some (last_n @ ?rest)"
    using True unfolding pad_window_def l by (simp add: Let_def)
  have "sorted_wrt (\<ge>) (map hi_timestamp (last_n @ ?rest))"
    using simulated_blocks_descending by (intro descending_append assms(3)) blast+
  with p True show ?thesis by (intro exI [of _ ?rest]) simp
next
  case False
  with assms show ?thesis by (simp add: pad_window_def)
qed

lemma window_Some:
  assumes "cursor \<noteq> []"
  shows "\<exists>rest. pad_window ct (Suc k) (rewrite_timestamps (take (Suc k) cursor)) =
      Some (rewrite_timestamps (take (Suc k) cursor) @ rest) \<and>
    length (rewrite_timestamps (take (Suc k) cursor) @ rest) = Suc k \<and>
    sorted_wrt (\<ge>) (map hi_timestamp (rewrite_timestamps (take (Suc k) cursor) @ rest))"
proof (rule pad_window_Some)
  show "rewrite_timestamps (take (Suc k) cursor) \<noteq> []"
    using assms by (cases cursor) auto
qed (simp_all add: rewrite_timestamps_descending)

lemma window_None [simp]: "pad_window ct (Suc k) (rewrite_timestamps (take (Suc k) [])) = None"
  by (simp add: pad_window_def)

lemma hd_rewrite [simp]: "cursor \<noteq> [] \<Longrightarrow> hd (rewrite_timestamps (take (Suc k) cursor)) = hd cursor"
  by (cases cursor) auto

lemma difficulty_data_Some:
  assumes "cursor \<noteq> []"
  obtains v where "difficulty_data_to_vector ct cursor k = Some v" and "length v = Suc k"
    and "sorted (map hi_timestamp v)" and "last v = hd cursor"
proof -
  obtain rest where r: "pad_window ct (Suc k) (rewrite_timestamps (take (Suc k) cursor)) =
      Some (rewrite_timestamps (take (Suc k) cursor) @ rest)"
    "length (rewrite_timestamps (take (Suc k) cursor) @ rest) = Suc k"
    "sorted_wrt (\<ge>) (map hi_timestamp (rewrite_timestamps (take (Suc k) cursor) @ rest))"
    using window_Some [OF assms] by blast
  have "rewrite_timestamps (take (Suc k) cursor) \<noteq> []" using assms by (cases cursor) auto
  then have "last (rev (rewrite_timestamps (take (Suc k) cursor) @ rest)) = hd cursor"
    using assms by (simp add: last_rev)
  moreover have "sorted (map hi_timestamp (rev (rewrite_timestamps (take (Suc k) cursor) @ rest)))"
    using r(3) by (simp add: rev_map [symmetric] sorted_wrt_rev del: map_append rev_append)
  ultimately show thesis
    using r by (intro that [of "rev (rewrite_timestamps (take (Suc k) cursor) @ rest)"])
      (simp_all add: difficulty_data_to_vector_def)
qed

section \<open>Damping and clamping\<close>

lemma damp_exact:
  assumes "1 \<le> k" and "actual + (k - 1) * goal < u64_size"
  shows "damp actual goal k = (actual + (k - 1) * goal) div k"
proof -
  have "(k - 1) * goal < u64_size" using assms(2) by simp
  with assms show ?thesis
    by (simp add: damp_def u64_sub_exact u64_mul_exact u64_add_exact)
qed

lemma damp_between:
  assumes "1 \<le> k" and "actual + (k - 1) * goal < u64_size"
  shows "min actual goal \<le> damp actual goal k \<and> damp actual goal k \<le> max actual goal"
proof -
  obtain j where k: "k = Suc j" using assms(1) by (cases k) auto
  have "min actual goal * k \<le> actual + j * goal"
    unfolding k by (simp add: min_def algebra_simps)
  moreover have "actual + j * goal \<le> max actual goal * k"
    unfolding k by (simp add: max_def algebra_simps)
  ultimately have "min actual goal * k div k \<le> (actual + j * goal) div k"
    and "(actual + j * goal) div k \<le> max actual goal * k div k"
    by (simp_all only: div_le_mono)
  moreover have "0 < k" and "k - 1 = j" by (simp_all add: k)
  ultimately show ?thesis
    unfolding damp_exact [OF assms] by simp
qed

lemma clamp_range:
  assumes "goal * k < u64_size" and "1 \<le> k"
  shows "goal div k \<le> clamp actual goal k \<and> clamp actual goal k \<le> goal * k"
proof -
  have "goal * 1 \<le> goal * k" using assms(2) by (rule mult_le_mono2)
  then have "goal div k \<le> goal * k" using div_le_dividend [of goal k] by linarith
  then show ?thesis by (simp add: clamp_def u64_mul_exact assms(1))
qed

text \<open>The adjusted time span of the difficulty window lies between 2400 and 7200 seconds.\<close>

lemma adjusted_span:
  assumes "ts + 7200 < u64_size"
  shows "clamp (damp ts 3600 3) 3600 2 = min ((ts + 7200) div 3) 7200"
  using assms by (simp add: damp_exact clamp_def u64_mul_exact)

lemma adjusted_span_bounds:
  assumes "ts + 7200 < u64_size"
  shows "2400 \<le> clamp (damp ts 3600 3) 3600 2 \<and> clamp (damp ts 3600 3) 3600 2 \<le> 7200"
  unfolding adjusted_span [OF assms] by simp

lemma u64_sum_exact: "sum_list xs < u64_size \<Longrightarrow> u64_sum xs = sum_list xs"
  by (induction xs) (auto simp: u64_add_exact)

section \<open>Window retargeting as a contract\<close>

text \<open>The three functions of the current era share one shape: a floor and the clamped ratio of
  accumulated difficulty to time. The contract is a locale, its consequences are proved once.\<close>

locale retarget =
  fixes next_diff :: "pow_type \<Rightarrow> header_info list \<Rightarrow> u64"
    and floor_diff :: u64
  assumes formula:
    "next_diff pow dd = max floor_diff
       (u64_mul (diff_sum pow dd) 60 div clamp (damp (era1_ts_delta dd) 3600 3) 3600 2)"
begin

lemma floor: "floor_diff \<le> next_diff pow dd"
  by (simp add: formula)

lemma swing:
  assumes "diff_sum pow dd * 60 < u64_size" and "era1_ts_delta dd + 7200 < u64_size"
  shows "diff_sum pow dd * 60 div 7200 \<le> next_diff pow dd \<and>
    next_diff pow dd \<le> max floor_diff (diff_sum pow dd * 60 div 2400)"
proof -
  let ?a = "clamp (damp (era1_ts_delta dd) 3600 3) 3600 2"
  note b = adjusted_span_bounds [OF assms(2)]
  have "diff_sum pow dd * 60 div 7200 \<le> diff_sum pow dd * 60 div ?a"
    using b by (intro div_le_mono2) auto
  moreover have "diff_sum pow dd * 60 div ?a \<le> diff_sum pow dd * 60 div 2400"
    using b by (intro div_le_mono2) auto
  ultimately show ?thesis
    unfolding formula u64_mul_exact [OF assms(1)] by (meson le_max_iff_disj max.bounded_iff max.cobounded1)
qed

lemma steady:
  assumes "era1_ts_delta dd = 3600" and "diff_sum pow dd = 60 * d"
    and "floor_diff \<le> d" and "60 * d * 60 < u64_size"
  shows "next_diff pow dd = d"
proof -
  have "clamp (damp 3600 3600 3) 3600 2 = 3600" by (simp add: adjusted_span)
  with assms show ?thesis by (simp add: formula u64_mul_exact max_def)
qed

lemma antitone:
  assumes "diff_sum pow dd = diff_sum pow dd'" and "era1_ts_delta dd \<le> era1_ts_delta dd'"
    and "era1_ts_delta dd' + 7200 < u64_size"
  shows "next_diff pow dd' \<le> next_diff pow dd"
proof -
  have s: "era1_ts_delta dd + 7200 < u64_size" using assms(2,3) by simp
  have "clamp (damp (era1_ts_delta dd) 3600 3) 3600 2 \<le> clamp (damp (era1_ts_delta dd') 3600 3) 3600 2"
    unfolding adjusted_span [OF s] adjusted_span [OF assms(3)]
    using assms(2) by (intro min.mono div_le_mono) simp_all
  moreover have "0 < clamp (damp (era1_ts_delta dd) 3600 3) 3600 2"
    using adjusted_span_bounds [OF s] by simp
  ultimately show ?thesis
    using div_le_mono2 unfolding formula assms(1) by (intro max.mono) auto
qed

end

interpretation cuckoo_era1: retarget next_cuckoo_difficulty_era1 3
  by unfold_locales (simp add: next_cuckoo_difficulty_era1_def Let_def)

interpretation randomx_era1: retarget next_randomx_difficulty_era1 4000
  by unfold_locales (simp add: next_randomx_difficulty_era1_def Let_def)

interpretation progpow_era1: retarget next_progpow_difficulty_era1 200000
  by unfold_locales (simp add: next_progpow_difficulty_era1_def Let_def)

section \<open>Per-block retargeting\<close>

definition hash_step :: "u64 \<Rightarrow> u64 \<Rightarrow> int" where
  "hash_step c delta = int c + int (c div 64) * max (1 - 2 * int (delta div 60)) (- 99)"

lemma hash_step_upper: "hash_step c delta \<le> int (c + c div 64)"
proof -
  have "int (c div 64) * max (1 - 2 * int (delta div 60)) (- 99) \<le> int (c div 64) * 1"
    by (intro mult_left_mono) auto
  then show ?thesis by (simp add: hash_step_def)
qed

lemma hash_step_lower: "int c - 99 * int (c div 64) \<le> hash_step c delta"
proof -
  have "int (c div 64) * (- 99) \<le> int (c div 64) * max (1 - 2 * int (delta div 60)) (- 99)"
    by (intro mult_left_mono) auto
  then show ?thesis by (simp add: hash_step_def)
qed

lemma next_hash_difficulty_closed:
  assumes algo: "(pow, m) \<in> {(RandomX, 5000), (ProgPow, 100000)}"
    and len: "2 \<le> length dd"
    and c: "c = to_num (hi_difficulty (dd ! 1)) pow" "c < 4611686018427387904"
    and d: "hi_timestamp (dd ! 0) \<le> hi_timestamp (dd ! 1)"
      "delta = hi_timestamp (dd ! 1) - hi_timestamp (dd ! 0)" "delta < 4611686018427387904"
  shows "next_hash_difficulty pow dd = Some (max (nat (max (hash_step c delta) 1)) (min c m))"
proof -
  let ?q = "int delta div 60"
  have q: "0 \<le> ?q" "?q < 4611686018427387904" using d(3) by auto
  have sgn: "sgn (int delta) * (\<bar>int delta\<bar> div 60) = ?q" by (cases "delta = 0") auto
  have sign: "max (i64_wrap (1 - i64_wrap (2 * ?q))) (- 99) = max (1 - 2 * int (delta div 60)) (- 99)"
    using q by (simp add: i64_wrap_exact zdiv_int)
  have o: "i64_wrap (int (c div 64) * max (1 - 2 * int (delta div 60)) (- 99)) =
      int (c div 64) * max (1 - 2 * int (delta div 60)) (- 99)" and
    w: "i64_wrap (hash_step c delta) = hash_step c delta" and
    u: "u64_of_i64 (max (hash_step c delta) 1) = nat (max (hash_step c delta) 1)"
    using hash_step_upper [of c delta] hash_step_lower [of c delta] c(2)
    by (intro i64_wrap_exact u64_of_i64_exact; simp add: hash_step_def; linarith)+
  have ts: "u64_sub (hi_timestamp (dd ! 1)) (hi_timestamp (dd ! 0)) = delta"
    using d by (simp add: u64_sub_exact)
  have i64: "i64_of_u64 delta = int delta" "i64_of_u64 c = int c" "i64_of_u64 (c div 64) = int (c div 64)"
    using c(2) d(3) by (simp_all add: i64_of_u64_exact)
  have "next_hash_difficulty pow dd = Some (max (u64_of_i64 (max (i64_wrap (i64_of_u64 c +
      i64_wrap (i64_of_u64 (c div 64) * max (i64_wrap (1 - i64_wrap (2 *
        (sgn (i64_of_u64 delta) * (\<bar>i64_of_u64 delta\<bar> div 60))))) (- 99)))) 1)) (min c m))"
    using algo len unfolding next_hash_difficulty_def c(1) ts [symmetric] by (auto simp: Let_def)
  then show ?thesis
    unfolding i64 sgn sign o hash_step_def [symmetric] w u .
qed

section \<open>Properties\<close>





definition steady_header :: "u64 \<Rightarrow> header_info" where
  "steady_header gap = \<lparr>hi_timestamp = 7200, hi_difficulty = difficulty_from_num 12000000,
     hi_secondary_scaling = 1, hi_is_secondary = False, hi_prev_timespan = gap\<rparr>"



definition hash_header :: "u64 \<Rightarrow> header_info" where
  "hash_header ts = \<lparr>hi_timestamp = ts, hi_difficulty = difficulty_from_num 6400,
     hi_secondary_scaling = 1, hi_is_secondary = False, hi_prev_timespan = 0\<rparr>"


text \<open>C20: a retarget touches one algorithm only. From any non-empty header iterator both eras'
  rules return, the difficulty of every other algorithm is that of the chain's head.
\<close>

theorem next_difficulty_frame:
  assumes "cursor \<noteq> []"
  shows "\<exists>n n'. next_difficulty ct height algo cursor = Some n \<and>
    next_difficulty_era1 ct height algo cursor = Some n' \<and>
    (\<forall>p. p \<noteq> algo \<longrightarrow> num (hi_difficulty n) p = num (hi_difficulty (hd cursor)) p \<and>
       num (hi_difficulty n') p = num (hi_difficulty (hd cursor)) p)"
proof -
  obtain v where v: "difficulty_data_to_vector ct cursor 60 = Some v" "length v = Suc 60" "last v = hd cursor"
    using difficulty_data_Some [OF assms] by blast
  obtain w where w: "difficulty_data_to_vector ct cursor 1 = Some w" "length w = Suc 1" "last w = hd cursor"
    using difficulty_data_Some [OF assms] by blast
  have "\<exists>n. next_difficulty ct height algo cursor = Some n \<and>
      (\<forall>p. p \<noteq> algo \<longrightarrow> num (hi_difficulty n) p = num (hi_difficulty (hd cursor)) p)"
    using v w
    by (cases algo) (simp_all add: next_difficulty_def next_cuckoo_difficulty_def
      next_hash_difficulty_def from_diff_scaling_def Let_def)
  moreover have "\<exists>n. next_difficulty_era1 ct height algo cursor = Some n \<and>
      (\<forall>p. p \<noteq> algo \<longrightarrow> num (hi_difficulty n) p = num (hi_difficulty (hd cursor)) p)"
    using v by (simp add: next_difficulty_era1_def from_diff_scaling_def Let_def)
  ultimately show ?thesis by blast
qed

theorem next_difficulty_frame_witness:
  "\<exists>n n'. next_difficulty Mainnet 7 RandomX [hash_header 1000] = Some n \<and>
    next_difficulty_era1 Mainnet 7 RandomX [hash_header 1000] = Some n' \<and>
    (\<forall>p. p \<noteq> RandomX \<longrightarrow>
       num (hi_difficulty n) p = num (hi_difficulty (hd [hash_header 1000])) p \<and>
       num (hi_difficulty n') p = num (hi_difficulty (hd [hash_header 1000])) p)"
  by (rule next_difficulty_frame) simp

text \<open>C21: the median of timestamps is taken over seven chain timestamps and the new one, and is
  the fifth smallest of these eight; the branch for an odd count, which averages two
  neighbours, is never reached.\<close>

theorem timestamp_median_fifth:
  "\<exists>v. ts_data_to_vector ct (h # cursor) 6 = Some v \<and> length v = 7 \<and>
     timestamp_median ct header_ts algo (h # cursor) = Some (sort (map hi_timestamp v @ [header_ts]) ! 4)"
proof -
  obtain rest where "pad_window ct (Suc 6) (rewrite_timestamps (take (Suc 6) (h # cursor))) =
      Some (rewrite_timestamps (take (Suc 6) (h # cursor)) @ rest)"
    and "length (rewrite_timestamps (take (Suc 6) (h # cursor)) @ rest) = Suc 6"
    using window_Some [of "h # cursor" ct 6] by blast
  then obtain v where "ts_data_to_vector ct (h # cursor) 6 = Some v" and "length v = 7"
    by (simp add: ts_data_to_vector_def)
  then show ?thesis by (simp add: timestamp_median_def)
qed

end
