(* ===== verification/Feijoada.thy ===== *)
theory Feijoada
  imports Consensus_Difficulty
begin

unbundle bit_operations_syntax

text \<open>
  The choice of the mining algorithm of the next block, \<open>core/src/core/block/feijoada.rs\<close>: a
  policy gives every algorithm its share of a hundred blocks, the bottles count the blocks of
  the current hundred per algorithm, and the next block goes to the algorithm that is furthest
  behind its share, computed in \<open>f32\<close>. Panics of the source are \<open>None\<close>.
\<close>

section \<open>Definitions\<close>

record allow_policy =
  ap_height :: u64
  ap_value :: u64

type_synonym policy = "pow_type \<rightharpoonup> u32"

record policy_config =
  allowed_policies :: "allow_policy list"
  policies :: "policy list"

text \<open>\<open>Iterator::max_by\<close>: the last of several maximal elements.\<close>

fun max_by_from :: "('a \<Rightarrow> 'a \<Rightarrow> bool) \<Rightarrow> 'a \<Rightarrow> 'a list \<Rightarrow> 'a" where
  "max_by_from le x [] = x"
| "max_by_from le x (y # ys) = max_by_from le (if le x y then y else x) ys"

definition max_by :: "('a \<Rightarrow> 'a \<Rightarrow> bool) \<Rightarrow> 'a list \<Rightarrow> 'a option" where
  "max_by le xs = (case xs of [] \<Rightarrow> None | x # xs' \<Rightarrow> Some (max_by_from le x xs'))"

definition policy_search :: "allow_policy list \<Rightarrow> u64 \<Rightarrow> u64 option" where
  "policy_search ps height =
     (case max_by (\<lambda>x y. ap_height x \<le> ap_height y) (filter (\<lambda>p. ap_height p \<le> height) ps) of
        Some p \<Rightarrow> Some (ap_value p)
      | None \<Rightarrow> (if ps = [] then None else Some (ap_value (last ps))))"

definition is_allowed_policy :: "allow_policy list \<Rightarrow> u64 \<Rightarrow> u8 \<Rightarrow> bool option" where
  "is_allowed_policy ps height pol =
     map_option (\<lambda>allow. (allow AND u64_shl 1 pol) \<noteq> 0) (policy_search ps height)"

definition get_bottles_default :: policy where
  "get_bottles_default = [Cuckaroo \<mapsto> 0, Cuckatoo \<mapsto> 0, RandomX \<mapsto> 0, ProgPow \<mapsto> 0]"

definition policy_era :: "u32 \<Rightarrow> u32 \<Rightarrow> u32 \<Rightarrow> u32 \<Rightarrow> policy" where
  "policy_era rx pp ct cr = get_bottles_default
     (RandomX \<mapsto> rx, ProgPow \<mapsto> pp, Cuckatoo \<mapsto> ct, Cuckaroo \<mapsto> cr)"

definition policy_config_default :: policy_config where
  "policy_config_default =
     \<lparr>allowed_policies =
        [\<lparr>ap_height = 0, ap_value = 1\<rparr>,
         \<lparr>ap_height = BLOCK_ERA_1 + 1, ap_value = u64_shl 1 1\<rparr>,
         \<lparr>ap_height = BLOCK_ERA_2 + 1, ap_value = u64_shl 1 2\<rparr>,
         \<lparr>ap_height = BLOCK_ERA_3 + 1, ap_value = u64_shl 1 3\<rparr>,
         \<lparr>ap_height = BLOCK_ERA_4 + 1, ap_value = u64_shl 1 4\<rparr>,
         \<lparr>ap_height = BLOCK_ERA_5 + 1, ap_value = u64_shl 1 5\<rparr>],
      policies =
        [policy_era 60 38 2 0, policy_era 60 38 2 0, policy_era 48 48 4 0,
         policy_era 5 40 55 0, policy_era 5 20 75 0, policy_era 5 10 85 0]\<rparr>"

definition get_emitted_policy :: "u64 \<Rightarrow> u8" where
  "get_emitted_policy height =
     (if height \<le> BLOCK_ERA_1 then 0 else if height \<le> BLOCK_ERA_2 then 1
      else if height \<le> BLOCK_ERA_3 then 2 else if height \<le> BLOCK_ERA_4 then 3
      else if height \<le> BLOCK_ERA_5 then 4 else 5)"

definition get_policies :: "policy_config \<Rightarrow> u8 \<Rightarrow> policy option" where
  "get_policies cfg index = (if index < length (policies cfg) then Some (policies cfg ! index) else None)"

definition count_beans :: "policy \<Rightarrow> u32" where
  "count_beans bottles = max (fold u32_add (List.map_filter bottles pow_types) 0) 1"

definition next_should_reset :: "policy \<Rightarrow> bool" where
  "next_should_reset bottle \<longleftrightarrow> count_beans bottle = 100"

definition next_block_bottles :: "pow_type \<Rightarrow> policy \<Rightarrow> policy" where
  "next_block_bottles pow bottle =
     (let new_bottle = (if next_should_reset bottle then get_bottles_default else bottle);
          entry = (case new_bottle pow of None \<Rightarrow> 0 | Some n \<Rightarrow> n)
      in new_bottle(pow \<mapsto> u32_add entry 1))"

definition policy_vec :: "policy \<Rightarrow> (pow_type \<times> fp) list" where
  "policy_vec pol = List.map_filter
     (\<lambda>a. case pol a of None \<Rightarrow> None | Some n \<Rightarrow> if n > 0 then Some (a, fp_of_nat 24 n) else None) pow_types"

definition score :: "policy \<Rightarrow> pow_type \<Rightarrow> fp option" where
  "score bottles a = map_option (\<lambda>beans.
     fp_div 24 (fp_mul 24 (fp_of_nat 24 100) (fp_of_nat 24 beans)) (fp_of_nat 24 (count_beans bottles))) (bottles a)"

definition choose_algo :: "policy \<Rightarrow> policy \<Rightarrow> pow_type option" where
  "choose_algo pol bottles = do {
     ds \<leftarrow> those (map (\<lambda>(a, v). map_option (\<lambda>s. (a, fp_sub 24 v s)) (score bottles a)) (policy_vec pol));
     (a, d) \<leftarrow> max_by (\<lambda>x y. fp_le (snd x) (snd y)) ds;
     Some a }"

definition next_policy :: "policy_config \<Rightarrow> u8 \<Rightarrow> policy list \<Rightarrow> (pow_type \<times> policy) option" where
  "next_policy cfg pol cursor = do {
     let bottles = (case cursor of [] \<Rightarrow> get_bottles_default | b # _ \<Rightarrow> b);
     p \<leftarrow> get_policies cfg pol;
     pow \<leftarrow> choose_algo p bottles;
     Some (pow, next_block_bottles pow bottles) }"

text \<open>Mining \<open>n\<close> blocks in a row under policy \<open>pol\<close>, as \<open>next_policy\<close> is called for every block on
  the bottles of the header before it.\<close>

primrec mine_blocks :: "policy_config \<Rightarrow> u8 \<Rightarrow> nat \<Rightarrow> policy \<Rightarrow> policy option" where
  "mine_blocks cfg pol 0 b = Some b"
| "mine_blocks cfg pol (Suc n) b = do { (pow, b') \<leftarrow> next_policy cfg pol [b]; mine_blocks cfg pol n b' }"

text \<open>The full bottles of a map from algorithms to counts, and the number of blocks they count.\<close>

abbreviation full :: "(pow_type \<Rightarrow> nat) \<Rightarrow> policy" where
  "full B \<equiv> (\<lambda>a. Some (B a))"

definition beans :: "(pow_type \<Rightarrow> nat) \<Rightarrow> nat" where
  "beans B = sum_list (map B pow_types)"

section \<open>Selection of a maximal element\<close>

lemma max_by_from_mem: "max_by_from le x xs \<in> set (x # xs)"
proof (induction xs arbitrary: x)
  case (Cons y ys)
  then show ?case using Cons [of "if le x y then y else x"] by auto
qed simp

lemma max_by_from_nonneg:
  "0 \<le> fpv (snd x) \<or> (\<exists>y \<in> set xs. 0 \<le> fpv (snd y)) \<Longrightarrow>
   0 \<le> fpv (snd (max_by_from (\<lambda>x y. fp_le (snd x) (snd y)) x xs))"
proof (induction xs arbitrary: x)
  case (Cons y ys)
  show ?case unfolding max_by_from.simps
    by (rule Cons.IH) (use Cons.prems in \<open>auto simp: fp_le_fpv\<close>)
qed simp

section \<open>The bottles\<close>

lemma beans_simp: "beans B = B Cuckaroo + B Cuckatoo + B RandomX + B ProgPow"
  by (simp add: beans_def pow_types_def)

lemma get_bottles_default_full: "get_bottles_default = full (\<lambda>_. 0)"
proof (rule ext)
  fix a show "get_bottles_default a = Some 0" by (cases a) (simp_all add: get_bottles_default_def)
qed

lemma count_beans_full: "beans B < 2 ^ 32 \<Longrightarrow> count_beans (full B) = max (beans B) 1"
  by (simp add: count_beans_def beans_simp pow_types_def map_filter_def u32_add_def)

lemma next_block_bottles_full:
  assumes "beans B \<le> 100"
  shows "next_block_bottles a (full B) =
           full (if beans B = 100 then (\<lambda>_. 0)(a := 1) else B(a := B a + 1))"
proof -
  have "B a \<le> 100" using assms by (cases a) (simp_all add: beans_simp)
  then show ?thesis using assms
    by (auto simp: next_block_bottles_def next_should_reset_def count_beans_full
        get_bottles_default_full u32_add_def fun_eq_iff)
qed

section \<open>The scores\<close>

text \<open>The f32 value \<open>v - scores[a]\<close> of an algorithm with share \<open>p\<close> and \<open>b\<close> of \<open>t\<close> blocks.\<close>

definition deficit :: "nat \<Rightarrow> nat \<Rightarrow> nat \<Rightarrow> fp" where
  "deficit p b t = fp_sub 24 (fp_of_nat 24 p)
     (fp_div 24 (fp_mul 24 (fp_of_nat 24 100) (fp_of_nat 24 b)) (fp_of_nat 24 t))"

lemma fp_of_nat_24: "n < 8388608 \<Longrightarrow> fpv (fp_of_nat 24 n) = real n"
  using fp_of_nat_exact [of 24 n] by simp

lemma fp_percent: "b \<le> 100 \<Longrightarrow> fpv (fp_mul 24 (fp_of_nat 24 100) (fp_of_nat 24 b)) = real (100 * b)"
  by (rule fp_mul_exact) (simp_all add: fp_of_nat_24)

text \<open>An algorithm that is not ahead of its share has a deficit that is not negative, whatever the rounding.\<close>

lemma deficit_behind:
  assumes "p \<le> 100" and "b \<le> 100" and "0 < t" and "t \<le> 100" and "100 * b \<le> p * t"
  shows "0 \<le> fpv (deficit p b t)"
proof -
  have "real (100 * b) \<le> real p * real t" using assms(5) unfolding of_nat_mult [symmetric] of_nat_le_iff .
  then have "real (100 * b) / real t \<le> real p" using assms(3) by (simp add: pos_divide_le_eq)
  then have "fpv (fp_div 24 (fp_mul 24 (fp_of_nat 24 100) (fp_of_nat 24 b)) (fp_of_nat 24 t)) \<le> real p"
    using assms by (intro fp_div_le) (simp_all add: fp_percent fp_of_nat_24)
  then show ?thesis unfolding fpv_fst deficit_def
    using assms by (intro fp_sub_sgn) (simp_all add: fp_of_nat_24)
qed

text \<open>An algorithm whose share is used up has a negative deficit until the hundredth block.\<close>

lemma deficit_used_up:
  assumes "0 < p" and "p \<le> b" and "b \<le> 100" and "0 < t" and "t < 100"
  shows "fpv (deficit p b t) < 0"
proof -
  let ?q = "fp_div 24 (fp_mul 24 (fp_of_nat 24 100) (fp_of_nat 24 b)) (fp_of_nat 24 t)"
  have "real (100 * b) / real t * (1 - 1 / 2 ^ 24) \<le> fpv ?q"
    using fp_div_lower [of 24 "fp_mul 24 (fp_of_nat 24 100) (fp_of_nat 24 b)" "fp_of_nat 24 t"] assms
    by (simp add: fp_percent fp_of_nat_24)
  moreover have "real p < real (100 * b) / real t * (1 - 1 / 2 ^ 24)"
  proof -
    have "real p * real t \<le> real b * 99" using assms by (intro mult_mono) simp_all
    also have "\<dots> < real (100 * b) * (1 - 1 / 2 ^ 24)" using assms by simp
    finally show ?thesis using assms(4) by (simp add: pos_less_divide_eq mult.commute)
  qed
  ultimately have "real p < fpv ?q" by linarith
  then show ?thesis unfolding fpv_fst deficit_def
    using assms by (intro fp_sub_sgn) (simp_all add: fp_of_nat_24)
qed

text \<open>Some algorithm with a share is not ahead of it.\<close>

lemma someone_behind:
  assumes "beans P = 100" and "\<forall>a. B a \<le> P a"
  shows "\<exists>a. 0 < P a \<and> 100 * B a \<le> P a * beans B"
proof (rule ccontr)
  assume "\<not> ?thesis"
  then have lt: "0 < P a \<Longrightarrow> P a * beans B < 100 * B a" for a by (metis not_le)
  have le: "P a * beans B \<le> 100 * B a" for a
    using lt [of a] assms(2) by (cases "P a = 0") auto
  obtain c where c: "0 < P c" using assms(1) unfolding beans_simp by fastforce
  have "beans P * beans B < 100 * beans B"
    using le [of Cuckaroo] le [of Cuckatoo] le [of RandomX] le [of ProgPow] lt [OF c]
    unfolding beans_simp [of P] beans_simp [of B] by (cases c) (simp_all add: beans_simp [of B] algebra_simps)
  with assms(1) show False by simp
qed

section \<open>The choice\<close>

abbreviation deficits :: "(pow_type \<Rightarrow> nat) \<Rightarrow> (pow_type \<Rightarrow> nat) \<Rightarrow> (pow_type \<times> fp) list" where
  "deficits P B \<equiv> map (\<lambda>a. (a, deficit (P a) (B a) (max (beans B) 1))) (filter (\<lambda>a. 0 < P a) pow_types)"

lemma those_map_Some: "those (map (\<lambda>x. Some (f x)) xs) = Some (map f xs)"
  by (induction xs) simp_all

lemma policy_vec_full: "policy_vec (full P) = map (\<lambda>a. (a, fp_of_nat 24 (P a))) (filter (\<lambda>a. 0 < P a) pow_types)"
  by (simp add: policy_vec_def map_filter_def pow_types_def)

lemma choose_algo_full:
  assumes "beans B \<le> 100"
  shows "choose_algo (full P) (full B) =
           map_option fst (max_by (\<lambda>x y. fp_le (snd x) (snd y)) (deficits P B))"
proof -
  have "those (map (\<lambda>(a, v). map_option (\<lambda>s. (a, fp_sub 24 v s)) (score (full B) a)) (policy_vec (full P)))
          = Some (deficits P B)"
    using assms by (simp add: policy_vec_full score_def count_beans_full deficit_def comp_def those_map_Some)
  then show ?thesis
    by (cases "max_by (\<lambda>x y. fp_le (snd x) (snd y)) (deficits P B)") (simp_all add: choose_algo_def split_beta)
qed

lemma max_by_deficits:
  assumes "beans P = 100"
  obtains r where "max_by (\<lambda>x y. fp_le (snd x) (snd y)) (deficits P B) = Some r" and "r \<in> set (deficits P B)"
    and "\<forall>x \<in> set (deficits P B). 0 \<le> fpv (snd x) \<longrightarrow> 0 \<le> fpv (snd r)"
proof (cases "deficits P B")
  case Nil
  have "P a = 0" for a using Nil pow_types_all [of a] by (auto simp: filter_empty_conv)
  with assms show ?thesis by (simp add: beans_simp)
next
  case (Cons x xs)
  let ?r = "max_by_from (\<lambda>x y. fp_le (snd x) (snd y)) x xs"
  show ?thesis
  proof
    show "max_by (\<lambda>x y. fp_le (snd x) (snd y)) (deficits P B) = Some ?r" unfolding Cons by (simp add: max_by_def)
    show "?r \<in> set (deficits P B)" unfolding Cons by (rule max_by_from_mem)
    show "\<forall>x \<in> set (deficits P B). 0 \<le> fpv (snd x) \<longrightarrow> 0 \<le> fpv (snd ?r)"
      unfolding Cons using max_by_from_nonneg [of x xs] by auto
  qed
qed

text \<open>The algorithm chosen has a share, and until the hundredth block its share is not used up.\<close>

lemma choose_algo_room:
  assumes P: "beans P = 100" and B: "\<forall>a. B a \<le> P a"
  shows "\<exists>a. choose_algo (full P) (full B) = Some a \<and> 0 < P a \<and> (beans B < 100 \<longrightarrow> B a < P a)"
proof -
  have BP: "B a \<le> P a" "P a \<le> 100" for a using B P by (auto simp: beans_simp) (cases a; simp)
  then have le: "beans B \<le> 100" using P add_mono unfolding beans_simp by metis
  obtain r where r: "max_by (\<lambda>x y. fp_le (snd x) (snd y)) (deficits P B) = Some r" "r \<in> set (deficits P B)"
    "\<forall>x \<in> set (deficits P B). 0 \<le> fpv (snd x) \<longrightarrow> 0 \<le> fpv (snd r)"
    using max_by_deficits [OF P] .
  then obtain a where a: "r = (a, deficit (P a) (B a) (max (beans B) 1))" "0 < P a" by auto
  have "B a < P a" if lt: "beans B < 100"
  proof (cases "beans B = 0")
    case True
    then show ?thesis using a(2) by (cases a) (simp_all add: beans_simp)
  next
    case False
    then have m: "max (beans B) 1 = beans B" by simp
    obtain c where c: "0 < P c" "100 * B c \<le> P c * beans B" using someone_behind [OF P B] by blast
    then have "0 \<le> fpv (deficit (P c) (B c) (beans B))"
      using False lt BP [of c] by (intro deficit_behind) (simp_all add: order_trans [OF _ BP(2) [of c]])
    then have "0 \<le> fpv (deficit (P a) (B a) (beans B))"
      using r(3) c(1) unfolding a(1) m by auto
    then show ?thesis
      using deficit_used_up [of "P a" "B a" "beans B"] a(2) False lt BP [of a] by fastforce
  qed
  then show ?thesis using r(1) a choose_algo_full [OF le] by auto
qed

lemma next_policy_step:
  assumes "get_policies cfg i = Some (full P)" and "beans P = 100" and "\<forall>a. B a \<le> P a"
  shows "\<exists>pow B'. next_policy cfg i [full B] = Some (pow, full B') \<and> (\<forall>a. B' a \<le> P a) \<and>
           beans B' = beans B mod 100 + 1"
proof -
  have le: "beans B \<le> 100"
    using assms(2,3) add_mono [OF add_mono [OF add_mono]] unfolding beans_simp by metis
  obtain a where a: "choose_algo (full P) (full B) = Some a" "0 < P a" "beans B < 100 \<longrightarrow> B a < P a"
    using choose_algo_room [OF assms(2,3)] by blast
  let ?B = "if beans B = 100 then (\<lambda>_. 0)(a := 1) else B(a := B a + 1)"
  have "next_policy cfg i [full B] = Some (a, full ?B)"
    using a(1) assms(1) by (simp add: next_policy_def next_block_bottles_full [OF le])
  moreover have "\<forall>c. ?B c \<le> P c" using a le assms(3) by (auto simp: Suc_le_eq)
  moreover have "beans ?B = beans B mod 100 + 1"
    using le by (cases a; cases "beans B = 100") (simp_all add: beans_simp)
  ultimately show ?thesis by blast
qed

lemma mine_blocks_inv:
  assumes "get_policies cfg i = Some (full P)" and "beans P = 100" and "\<forall>a. B a \<le> P a"
  shows "\<exists>B'. mine_blocks cfg i n (full B) = Some (full B') \<and> (\<forall>a. B' a \<le> P a) \<and>
           beans B' = (if n = 0 then beans B else (beans B + n - 1) mod 100 + 1)"
  using assms(3)
proof (induction n arbitrary: B)
  case (Suc n)
  obtain pow B1 where B1: "next_policy cfg i [full B] = Some (pow, full B1)" "\<forall>a. B1 a \<le> P a"
    "beans B1 = beans B mod 100 + 1"
    using next_policy_step [OF assms(1,2) Suc.prems] by blast
  have "(beans B1 + n - 1) mod 100 = (beans B + Suc n - 1) mod 100" unfolding B1(3) by (simp add: mod_simps)
  with Suc.IH [OF B1(2)] B1(1,3) show ?case by (cases "n = 0") simp_all
qed (auto intro!: exI)

lemma full_share:
  assumes "\<forall>a. B a \<le> P a" and "beans B = beans P"
  shows "B = P"
proof (rule ext)
  fix a show "B a = P a"
    using assms(1) [THEN spec, of Cuckaroo] assms(1) [THEN spec, of Cuckatoo]
      assms(1) [THEN spec, of RandomX] assms(1) [THEN spec, of ProgPow] assms(2)
    unfolding beans_simp by (cases a) simp_all
qed

lemma shift_one: "u64_shl 1 p = 2 ^ (p mod 64)"
  by simp

lemma and_pow2: "((2::nat) ^ a AND 2 ^ b = 0) \<longleftrightarrow> a \<noteq> b"
  by (auto simp: and_exp_eq_0_iff_not_bit bit_exp_iff)

lemma is_allowed_bit:
  "policy_search ps h = Some (2 ^ k) \<Longrightarrow> is_allowed_policy ps h p = Some (p mod 64 = k)"
  by (auto simp: is_allowed_policy_def shift_one and_pow2 simp del: neq0_conv)

section \<open>Properties\<close>

text \<open>C10: under any policy whose shares add up to a hundred, block production never panics, no
  algorithm ever exceeds its share of the current hundred blocks, and every hundred blocks the
  numbers of blocks mined with each algorithm are exactly the shares of the policy, although the
  choice is computed in rounded single-precision arithmetic.\<close>

theorem policy_shares_exact:
  assumes "get_policies cfg i = Some (full P)" and "beans P = 100"
  shows "mine_blocks cfg i (100 * Suc k) get_bottles_default = Some (full P) \<and>
         (\<exists>B. mine_blocks cfg i n get_bottles_default = Some (full B) \<and> (\<forall>a. B a \<le> P a) \<and>
           beans B = (if n = 0 then 0 else (n - 1) mod 100 + 1))"
proof
  have zero: "beans (\<lambda>_. 0) = 0" by (simp add: beans_simp)
  have inv: "\<exists>B. mine_blocks cfg i n get_bottles_default = Some (full B) \<and> (\<forall>a. B a \<le> P a) \<and>
           beans B = (if n = 0 then 0 else (n - 1) mod 100 + 1)" for n
    using mine_blocks_inv [OF assms, of "\<lambda>_. 0" n] unfolding get_bottles_default_full zero add_0 by (simp del: mine_blocks.simps split del: if_split)
  then show "\<exists>B. mine_blocks cfg i n get_bottles_default = Some (full B) \<and> (\<forall>a. B a \<le> P a) \<and>
           beans B = (if n = 0 then 0 else (n - 1) mod 100 + 1)" .
  obtain B where B: "mine_blocks cfg i (100 * Suc k) get_bottles_default = Some (full B)" "\<forall>a. B a \<le> P a"
    "beans B = (100 * Suc k - 1) mod 100 + 1" using inv [of "100 * Suc k"] by auto
  have "100 * Suc k - 1 = 99 + 100 * k" by simp
  then have "beans B = beans P" using B(3) assms(2) by simp
  from full_share [OF B(2) this] B(1) show "mine_blocks cfg i (100 * Suc k) get_bottles_default = Some (full P)" by simp
qed

theorem policy_shares_exact_witness:
  "mine_blocks policy_config_default 3 500 get_bottles_default = Some (policies policy_config_default ! 3)"
proof -
  define P :: "pow_type \<Rightarrow> nat" where
    "P = (\<lambda>a. case a of Cuckaroo \<Rightarrow> 0 | Cuckatoo \<Rightarrow> 55 | RandomX \<Rightarrow> 5 | ProgPow \<Rightarrow> 40)"
  have "policies policy_config_default ! 3 = full P"
    by (auto simp: policy_config_default_def policy_era_def get_bottles_default_full P_def fun_eq_iff split: pow_type.splits)
  moreover have "get_policies policy_config_default 3 = Some (policies policy_config_default ! 3)"
    by (simp add: get_policies_def policy_config_default_def)
  ultimately show ?thesis
    using policy_shares_exact [of policy_config_default 3 P 4] by (simp add: beans_simp P_def)
qed


end
