(* ===== verification/Pmmr_Pos.thy ===== *)
theory Pmmr_Pos
  imports Prelude
begin

unbundle bit_operations_syntax

text \<open>
  The position arithmetic of the Merkle mountain range, the free functions of
  \<open>core/src/core/pmmr/pmmr.rs\<close>. Positions are 1-based postorder positions. A position indexes a
  32-byte hash in a file, so it is far below \<open>2 ^ 62\<close>, and sums and products of positions are
  taken on \<open>nat\<close>; the subtraction of 1 that the functions start with wraps at position 0. The
  value of a mutable \<open>peak\<close> that starts at \<open>1 << height\<close> and is shifted left by one in every
  round is written \<open>2 ^ h\<close> with the exponent as the loop variable.
\<close>

section \<open>Definitions\<close>

text \<open>\<open>ALL_ONES >> num.leading_zeros()\<close>, the size of the largest perfect tree the loops try.\<close>

definition top_peak_size :: "u64 \<Rightarrow> u64" where
  "top_peak_size num_nodes = 2 ^ bit_len num_nodes - 1"

text \<open>\<open>u64::count_ones\<close>\<close>

fun count_ones :: "nat \<Rightarrow> nat" where
  "count_ones n = (if n = 0 then 0 else n mod 2 + count_ones (n div 2))"

declare count_ones.simps [simp del]

function peaks_loop :: "u64 \<Rightarrow> u64 \<Rightarrow> u64 \<Rightarrow> u64 list \<Rightarrow> u64 list \<times> u64" where
  "peaks_loop peak_size num_left sum_prev_peaks ps =
     (if peak_size = 0 then (ps, num_left)
      else if num_left \<ge> peak_size
        then peaks_loop (peak_size div 2) (num_left - peak_size) (sum_prev_peaks + peak_size)
               (ps @ [sum_prev_peaks + peak_size])
        else peaks_loop (peak_size div 2) num_left sum_prev_peaks ps)"
  by pat_completeness auto
termination by (relation "measure fst") auto

declare peaks_loop.simps [simp del]

definition peaks :: "u64 \<Rightarrow> u64 list" where
  "peaks sz =
     (if sz = 0 then []
      else let (ps, num_left) = peaks_loop (top_peak_size sz) sz 0 []
           in if num_left > 0 then [] else ps)"

function sizes_loop :: "u64 \<Rightarrow> u64 \<Rightarrow> u64 list \<Rightarrow> u64 list \<times> u64" where
  "sizes_loop peak_size size_left sizes =
     (if peak_size = 0 then (sizes, size_left)
      else if size_left \<ge> peak_size
        then sizes_loop (peak_size div 2) (size_left - peak_size) (sizes @ [peak_size])
        else sizes_loop (peak_size div 2) size_left sizes)"
  by pat_completeness auto
termination by (relation "measure fst") auto

declare sizes_loop.simps [simp del]

definition peak_sizes_height :: "u64 \<Rightarrow> u64 list \<times> u64" where
  "peak_sizes_height sz = (if sz = 0 then ([], 0) else sizes_loop (top_peak_size sz) sz [])"

definition n_leaves :: "u64 \<Rightarrow> u64" where
  "n_leaves sz =
     (let (sizes, height) = peak_sizes_height sz;
          nleaves = sum_list (map (\<lambda>n. (n + 1) div 2) sizes)
      in if height = 0 then nleaves else nleaves + 1)"

definition insertion_to_pmmr_index :: "u64 \<Rightarrow> u64" where
  "insertion_to_pmmr_index sz =
     (if sz = 0 then 0 else 2 * (sz - 1) - count_ones (sz - 1) + 1)"

function map_loop :: "u64 \<Rightarrow> u64 \<Rightarrow> u64 \<Rightarrow> u64 \<times> u64" where
  "map_loop peak_size pos bitmap =
     (if peak_size = 0 then (bitmap, pos)
      else if pos \<ge> peak_size
        then map_loop (peak_size div 2) (pos - peak_size) (2 * bitmap + 1)
        else map_loop (peak_size div 2) pos (2 * bitmap))"
  by pat_completeness auto
termination by (relation "measure fst") auto

declare map_loop.simps [simp del]

definition peak_map_height :: "u64 \<Rightarrow> u64 \<times> u64" where
  "peak_map_height pos = (if pos = 0 then (0, 0) else map_loop (top_peak_size pos) pos 0)"

definition bintree_postorder_height :: "u64 \<Rightarrow> u64" where
  "bintree_postorder_height n = (if n = 0 then 0 else snd (peak_map_height (n - 1)))"

definition is_leaf :: "u64 \<Rightarrow> bool" where
  "is_leaf pos \<longleftrightarrow> bintree_postorder_height pos = 0"

definition family :: "u64 \<Rightarrow> u64 \<times> u64" where
  "family pos =
     (let (peak_map, height) = peak_map_height (u64_sub pos 1); peak = 2 ^ height
      in if (peak_map AND peak) \<noteq> 0 then (pos + 1, pos + 1 - 2 * peak)
         else (pos + 2 * peak, pos + 2 * peak - 1))"

definition is_left_sibling :: "u64 \<Rightarrow> bool" where
  "is_left_sibling pos =
     (let (peak_map, height) = peak_map_height (u64_sub pos 1); peak = 2 ^ height
      in (peak_map AND peak) = 0)"

function path_loop :: "u64 \<Rightarrow> nat \<Rightarrow> u64 \<Rightarrow> u64 \<Rightarrow> u64 list" where
  "path_loop peak_map h current last_pos =
     (if current \<le> last_pos
      then current # path_loop peak_map (h + 1)
             (current + (if (peak_map AND 2 ^ h) \<noteq> 0 then 1 else 2 * 2 ^ h)) last_pos
      else [])"
  by pat_completeness auto
termination by (relation "measure (\<lambda>(peak_map, h, current, last_pos). last_pos + 1 - current)")
    (auto intro!: diff_less_mono2)

declare path_loop.simps [simp del]

definition path :: "u64 \<Rightarrow> u64 \<Rightarrow> u64 list" where
  "path pos last_pos =
     (let (peak_map, height) = peak_map_height (u64_sub pos 1) in path_loop peak_map height pos last_pos)"

function branch_loop :: "u64 \<Rightarrow> nat \<Rightarrow> u64 \<Rightarrow> u64 \<Rightarrow> (u64 \<times> u64) list" where
  "branch_loop peak_map h current last_pos =
     (if current < last_pos
      then let (parent, sibling) = (if (peak_map AND 2 ^ h) \<noteq> 0
                 then (current + 1, current + 1 - 2 * 2 ^ h)
                 else (current + 2 * 2 ^ h, current + 2 * 2 ^ h - 1))
           in if parent > last_pos then []
              else (parent, sibling) # branch_loop peak_map (h + 1) parent last_pos
      else [])"
  by pat_completeness auto
termination by (relation "measure (\<lambda>(peak_map, h, current, last_pos). last_pos - current)")
    (auto split: if_splits intro!: diff_less_mono2)

declare branch_loop.simps [simp del]

definition family_branch :: "u64 \<Rightarrow> u64 \<Rightarrow> (u64 \<times> u64) list" where
  "family_branch pos last_pos =
     (let (peak_map, height) = peak_map_height (u64_sub pos 1) in branch_loop peak_map height pos last_pos)"

definition bintree_rightmost :: "u64 \<Rightarrow> u64" where
  "bintree_rightmost n = n - bintree_postorder_height n"

definition bintree_leftmost :: "u64 \<Rightarrow> u64" where
  "bintree_leftmost n = n + 2 - 2 * 2 ^ bintree_postorder_height n"

text \<open>Evaluation on concrete positions.\<close>

lemmas pos_eval = family_def is_left_sibling_def peak_map_height_def top_peak_size_def map_loop.simps
  bintree_postorder_height_def is_leaf_def u64_sub_def

section \<open>Counting ones\<close>

lemma count_ones_0 [simp]: "count_ones 0 = 0"
  by (simp add: count_ones.simps)

lemma count_ones_double [simp]: "count_ones (2 * n) = count_ones n"
  by (cases "n = 0") (simp_all add: count_ones.simps [of "2 * n"])

lemma count_ones_Suc_double [simp]: "count_ones (Suc (2 * n)) = Suc (count_ones n)"
  by (simp add: count_ones.simps [of "Suc (2 * n)"])

lemma even_odd_cases:
  fixes n :: nat
  obtains k where "n = 2 * k" | k where "n = Suc (2 * k)"
  by (metis evenE oddE Suc_eq_plus1)

lemma count_ones_le: "count_ones n \<le> n"
proof (induction n rule: less_induct)
  case (less n)
  show ?case
  proof (cases n rule: even_odd_cases)
    case (1 k)
    then show ?thesis using less [of k] by (cases "k = 0") simp_all
  next
    case (2 k)
    then show ?thesis using less [of k] by simp
  qed
qed

lemma count_ones_pos: "0 < n \<Longrightarrow> 0 < count_ones n"
proof (induction n rule: less_induct)
  case (less n)
  then show ?case by (cases n rule: even_odd_cases) simp_all
qed

lemma count_ones_set_bit: "\<not> bit n h \<Longrightarrow> count_ones (n + 2 ^ h) = Suc (count_ones n)"
proof (induction h arbitrary: n)
  case 0
  then show ?case by (cases n rule: even_odd_cases) (simp_all add: bit_0)
next
  case (Suc h)
  show ?case
  proof (cases n rule: even_odd_cases)
    case (1 k)
    then have "count_ones (k + 2 ^ h) = Suc (count_ones k)" using Suc by (simp add: bit_Suc)
    then show ?thesis using count_ones_double [of "k + 2 ^ h"] 1 by (simp add: distrib_left)
  next
    case (2 k)
    then have "count_ones (k + 2 ^ h) = Suc (count_ones k)" using Suc by (simp add: bit_Suc)
    then show ?thesis using count_ones_Suc_double [of "k + 2 ^ h"] 2 by (simp add: distrib_left)
  qed
qed

lemma count_ones_Suc_le: "count_ones (Suc m) \<le> Suc (count_ones m)"
proof (induction m rule: less_induct)
  case (less m)
  show ?case
  proof (cases m rule: even_odd_cases)
    case (2 k)
    then show ?thesis using less [of k] count_ones_double [of "Suc k"] by simp
  qed simp
qed

lemma pow2_dvd_Suc:
  assumes "2 ^ Suc h dvd Suc m"
  obtains k where "m = Suc (2 * k)" and "Suc m = 2 * Suc k" and "\<forall>j. 2 ^ Suc j dvd Suc m \<longleftrightarrow> 2 ^ j dvd Suc k"
proof -
  have "even (Suc m)" using assms dvd_mult_left [of 2 "2 ^ h" "Suc m"] by simp
  then obtain k where m: "m = Suc (2 * k)" by (cases m rule: even_odd_cases) simp_all
  then have k: "Suc m = 2 * Suc k" by simp
  have "\<forall>j. 2 ^ Suc j dvd Suc m \<longleftrightarrow> 2 ^ j dvd Suc k"
    by (simp only: k power_Suc nat_mult_dvd_cancel1 zero_less_numeral simp_thms)
  with m k show thesis by (rule that)
qed

lemma count_ones_carry: "2 ^ h dvd Suc m \<Longrightarrow> count_ones (Suc m) + h \<le> Suc (count_ones m)"
proof (induction h arbitrary: m)
  case 0
  show ?case using count_ones_Suc_le by simp
next
  case (Suc h)
  obtain k where m: "m = Suc (2 * k)" and k: "Suc m = 2 * Suc k"
    and dvd: "\<forall>j. 2 ^ Suc j dvd Suc m \<longleftrightarrow> 2 ^ j dvd Suc k" by (rule pow2_dvd_Suc [OF Suc.prems])
  have "2 ^ h dvd Suc k" using Suc.prems unfolding dvd [rule_format] .
  from Suc.IH [OF this] show ?case unfolding k count_ones_double unfolding m by simp
qed

lemma count_ones_carry_exact:
  "2 ^ h dvd Suc m \<Longrightarrow> \<not> 2 ^ Suc h dvd Suc m \<Longrightarrow> count_ones (Suc m) + h = Suc (count_ones m)"
proof (induction h arbitrary: m)
  case 0
  then show ?case by (cases m rule: even_odd_cases) simp_all
next
  case (Suc h)
  obtain k where m: "m = Suc (2 * k)" and k: "Suc m = 2 * Suc k"
    and dvd: "\<forall>j. 2 ^ Suc j dvd Suc m \<longleftrightarrow> 2 ^ j dvd Suc k" by (rule pow2_dvd_Suc [OF Suc.prems(1)])
  have "2 ^ h dvd Suc k" "\<not> 2 ^ Suc h dvd Suc k" using Suc.prems unfolding dvd [rule_format] .
  from Suc.IH [OF this] show ?case unfolding k count_ones_double unfolding m by simp
qed

section \<open>Sizes and nodes\<close>

text \<open>The number of nodes of a mountain range with \<open>n\<close> leaves.\<close>

definition mmr_size :: "nat \<Rightarrow> nat" where
  "mmr_size n = 2 * n - count_ones n"

text \<open>A node is named by the index \<open>m\<close> of the rightmost leaf below it and its height \<open>h\<close>; it
  exists in the infinite range iff \<open>2 ^ h\<close> divides \<open>m + 1\<close>.\<close>

definition node :: "nat \<Rightarrow> nat \<Rightarrow> bool" where
  "node m h \<longleftrightarrow> 2 ^ h dvd Suc m"

definition node_pos :: "nat \<Rightarrow> nat \<Rightarrow> nat" where
  "node_pos m h = mmr_size m + h + 1"

lemma node_pos_gt_0 [simp]: "0 < node_pos m h"
  by (simp add: node_pos_def)

lemma mmr_size_0 [simp]: "mmr_size 0 = 0"
  by (simp add: mmr_size_def)

lemma mmr_size_ge: "n \<le> mmr_size n"
  using count_ones_le [of n] by (simp add: mmr_size_def)

lemma mmr_size_lt: "0 < n \<Longrightarrow> mmr_size n < 2 * n"
  using count_ones_le [of n] count_ones_pos [of n] by (simp add: mmr_size_def)

lemma mmr_size_carry: "node m h \<Longrightarrow> mmr_size m + h < mmr_size (Suc m)"
  using count_ones_carry [of h m] count_ones_le [of m] by (simp add: node_def mmr_size_def)

lemma mmr_size_carry_exact: "node m h \<Longrightarrow> \<not> node m (Suc h) \<Longrightarrow> mmr_size (Suc m) = mmr_size m + h + 1"
  using count_ones_carry_exact [of h m] count_ones_le [of m] count_ones_le [of "Suc m"]
  by (simp add: node_def mmr_size_def)

lemma mmr_size_set_bit: "\<not> bit m h \<Longrightarrow> mmr_size (m + 2 ^ h) + 1 = mmr_size m + 2 * 2 ^ h"
proof -
  assume "\<not> bit m h"
  then have "count_ones (m + 2 ^ h) = Suc (count_ones m)" by (rule count_ones_set_bit)
  moreover have "count_ones m \<le> m" "1 \<le> (2::nat) ^ h" by (simp_all add: count_ones_le)
  moreover have "2 * (m + p) - Suc c + 1 = 2 * m - c + 2 * p" if "c \<le> m" "1 \<le> p" for c p
    using that by arith
  ultimately show ?thesis by (simp only: mmr_size_def)
qed

lemma mmr_size_mono: "strict_mono mmr_size"
  unfolding strict_mono_Suc_iff using mmr_size_carry [of _ 0] by (simp add: node_def)

lemmas mmr_size_less_iff = strict_mono_less [OF mmr_size_mono]
  and mmr_size_le_iff = strict_mono_less_eq [OF mmr_size_mono]

lemma node_0 [simp]: "node m 0"
  by (simp add: node_def)

text \<open>Every position is the position of exactly one node.\<close>

lemma node_cases:
  assumes "0 < pos"
  obtains m h where "node m h" and "pos = node_pos m h"
proof -
  have "\<exists>m h. node m h \<and> p = mmr_size m + h" for p
  proof (induction p)
    case 0
    show ?case by (intro exI [of _ 0]) simp
  next
    case (Suc p)
    then obtain m h where mh: "node m h" "p = mmr_size m + h" by blast
    show ?case
    proof (cases "node m (Suc h)")
      case True
      then show ?thesis using mh by (intro exI [of _ m] exI [of _ "Suc h"]) simp
    next
      case False
      then show ?thesis using mh mmr_size_carry_exact [OF mh(1) False]
        by (intro exI [of _ "Suc m"] exI [of _ 0]) simp
    qed
  qed
  then obtain m h where "node m h" "pos - 1 = mmr_size m + h" by blast
  with assms show ?thesis by (intro that [of m h]) (simp_all add: node_pos_def)
qed

lemma node_pos_le_size: "node m h \<Longrightarrow> node_pos m h \<le> mmr_size n \<longleftrightarrow> m < n"
proof
  assume "node m h" "m < n"
  then have "mmr_size m + h < mmr_size (Suc m)" "mmr_size (Suc m) \<le> mmr_size n"
    by (simp_all add: mmr_size_carry mmr_size_le_iff)
  then show "node_pos m h \<le> mmr_size n" by (simp add: node_pos_def)
next
  assume "node_pos m h \<le> mmr_size n"
  then show "m < n" using mmr_size_less_iff [of m n] by (simp add: node_pos_def)
qed

section \<open>The loops over the peak sizes\<close>

text \<open>All three loops run through the peak sizes \<open>2 ^ k - 1\<close> from the top.\<close>

lemma peak_size_Suc: "(2 ^ Suc k - 1) div 2 = (2 ^ k - 1 :: nat)" "(2 ^ Suc k - 1 :: nat) \<noteq> 0"
proof -
  have "(2::nat) ^ Suc k - 1 = 2 * (2 ^ k - 1) + 1" by (cases "(2::nat) ^ k") simp_all
  then show "(2 ^ Suc k - 1) div 2 = (2 ^ k - 1 :: nat)" "(2 ^ Suc k - 1 :: nat) \<noteq> 0" by simp_all
qed

lemma mod_pow_Suc: "(m::nat) mod 2 ^ Suc k = (if bit m k then 2 ^ k else 0) + m mod 2 ^ k"
proof -
  have "m mod (2 ^ k * 2) = 2 ^ k * (m div 2 ^ k mod 2) + m mod 2 ^ k" by (rule mod_mult2_eq)
  then show ?thesis by (simp add: bit_iff_odd mult.commute odd_iff_mod_2_eq_one)
qed

lemma node_mod_low:
  assumes "node m h" and "k \<le> h"
  shows "Suc (m mod 2 ^ k) = 2 ^ k"
proof -
  have "2 ^ k dvd Suc m" using assms dvd_trans [OF le_imp_power_dvd] by (auto simp: node_def)
  then have "Suc (m mod 2 ^ k) mod 2 ^ k = 0" by (simp add: mod_Suc_eq dvd_imp_mod_0)
  then show ?thesis by (metis mod_Suc mod_mod_trivial nat.distinct(1))
qed

lemma node_mod_high: "node m h \<Longrightarrow> h \<le> k \<Longrightarrow> node (m mod 2 ^ k) h"
  unfolding node_def by (metis dvd_mod_iff le_imp_power_dvd mod_Suc_eq)

lemma node_bit: "node m (Suc h) \<longleftrightarrow> node m h \<and> bit m h"
proof -
  have "m mod 2 ^ Suc h = (if bit m h then 2 ^ h else 0) + m mod 2 ^ h" by (rule mod_pow_Suc)
  moreover have "node m h \<longleftrightarrow> Suc (m mod 2 ^ h) = 2 ^ h" for h
    using node_mod_low [of m h h] unfolding node_def by (metis dvd_eq_mod_eq_0 mod_Suc order_refl)
  moreover have "Suc (m mod 2 ^ h) \<noteq> 2 ^ Suc h"
    using mod_less_divisor [of "2 ^ h" m] zero_less_power [of "2::nat" h] unfolding power_Suc by linarith
  ultimately show ?thesis by auto
qed

lemma node_mono: "node m h \<Longrightarrow> k \<le> h \<Longrightarrow> node m k"
  unfolding node_def using dvd_trans [OF le_imp_power_dvd] by auto

lemma mmr_size_pow2: "mmr_size (2 ^ k) + 1 = 2 * 2 ^ k"
  using mmr_size_set_bit [of 0 k] by simp

lemma peak_present:
  "bit m k \<Longrightarrow> mmr_size (m mod 2 ^ Suc k) + h = (2 ^ Suc k - 1) + (mmr_size (m mod 2 ^ k) + h)"
  using mmr_size_set_bit [of "m mod 2 ^ k" k] not_bit_small [of "m mod 2 ^ k" k]
  unfolding mod_pow_Suc [of m k] by (simp add: add.commute)

lemma peak_absent:
  assumes "node m h" and "\<not> bit m k"
  shows "mmr_size (m mod 2 ^ Suc k) + h < 2 ^ Suc k - 1"
proof -
  have "h \<le> k" using assms node_mono [of m h "Suc k"] by (metis node_bit not_less_eq_eq)
  then have "node (m mod 2 ^ k) h" using assms(1) by (intro node_mod_high)
  then have "mmr_size (m mod 2 ^ k) + h < mmr_size (Suc (m mod 2 ^ k))" by (rule mmr_size_carry)
  also have "\<dots> \<le> mmr_size (2 ^ k)" by (simp add: mmr_size_le_iff Suc_le_eq)
  finally show ?thesis unfolding mod_pow_Suc [of m k] using mmr_size_pow2 [of k] assms(2) by simp
qed

lemma map_loop_Suc:
  "map_loop (2 ^ Suc k - 1) pos bm =
     (if pos \<ge> 2 ^ Suc k - 1 then map_loop (2 ^ k - 1) (pos - (2 ^ Suc k - 1)) (2 * bm + 1)
      else map_loop (2 ^ k - 1) pos (2 * bm))"
  by (subst map_loop.simps) (simp only: peak_size_Suc if_False)

lemma mod_present: "bit m k \<Longrightarrow> m mod 2 ^ Suc k = 2 ^ k + m mod (2::nat) ^ k"
  and mod_absent: "\<not> bit m k \<Longrightarrow> m mod 2 ^ Suc k = m mod (2::nat) ^ k"
  by (simp_all only: mod_pow_Suc if_True if_False add_0)

lemma map_loop_node:
  "node m h \<Longrightarrow> map_loop (2 ^ k - 1) (mmr_size (m mod 2 ^ k) + h) bm = (bm * 2 ^ k + m mod 2 ^ k, h)"
proof (induction k arbitrary: bm)
  case 0
  show ?case by (simp add: map_loop.simps)
next
  case (Suc k)
  show ?case
  proof (cases "bit m k")
    case True
    then show ?thesis
      unfolding map_loop_Suc peak_present [OF True]
      by (simp only: le_add1 if_True add_diff_cancel_left' Suc.IH [OF Suc.prems] mod_present) simp
  next
    case False
    then show ?thesis
      unfolding map_loop_Suc using peak_absent [OF Suc.prems False] Suc.IH [OF Suc.prems, of "2 * bm"] mod_absent [OF False]
      by (simp add: not_le)
  qed
qed

text \<open>The set bits of \<open>m\<close> below \<open>k\<close>, from the top.\<close>

abbreviation bits_down :: "nat \<Rightarrow> nat \<Rightarrow> nat list" where
  "bits_down k m \<equiv> filter (bit m) (rev [0..<k])"

lemma sizes_loop_Suc:
  "sizes_loop (2 ^ Suc k - 1) pos ps =
     (if pos \<ge> 2 ^ Suc k - 1 then sizes_loop (2 ^ k - 1) (pos - (2 ^ Suc k - 1)) (ps @ [2 ^ Suc k - 1])
      else sizes_loop (2 ^ k - 1) pos ps)"
  by (subst sizes_loop.simps) (simp only: peak_size_Suc if_False)

lemma sizes_loop_node:
  "node m h \<Longrightarrow> sizes_loop (2 ^ k - 1) (mmr_size (m mod 2 ^ k) + h) ps =
     (ps @ map (\<lambda>i. 2 ^ Suc i - 1) (bits_down k m), h)"
proof (induction k arbitrary: ps)
  case 0
  show ?case by (simp add: sizes_loop.simps)
next
  case (Suc k)
  show ?case
  proof (cases "bit m k")
    case True
    then show ?thesis
      unfolding sizes_loop_Suc peak_present [OF True]
      by (simp only: le_add1 if_True add_diff_cancel_left' Suc.IH [OF Suc.prems]) simp
  next
    case False
    then show ?thesis
      unfolding sizes_loop_Suc using peak_absent [OF Suc.prems False] Suc.IH [OF Suc.prems, of ps] mod_absent [OF False]
      by (simp add: not_le)
  qed
qed

text \<open>The number of leaves below and to the left of the peak of height \<open>i\<close>.\<close>

definition leaves_upto :: "nat \<Rightarrow> nat \<Rightarrow> nat" where
  "leaves_upto n i = n - n mod 2 ^ i"

lemma leaves_upto_step: "leaves_upto n i = leaves_upto n (Suc i) + (if bit n i then 2 ^ i else 0)"
proof -
  have "n mod 2 ^ Suc i \<le> n" by (rule mod_less_eq_dividend)
  then show ?thesis using mod_present [of n i] mod_absent [of n i]
    unfolding leaves_upto_def by (cases "bit n i") (simp_all only: if_True if_False, simp)
qed

lemma leaves_upto_not_bit: "\<not> bit (leaves_upto n (Suc i)) i"
proof -
  have "leaves_upto n (Suc i) = n div 2 ^ Suc i * 2 ^ Suc i" by (simp only: leaves_upto_def minus_mod_eq_div_mult)
  also have "\<dots> div 2 ^ i = 2 * (n div 2 ^ Suc i)" by (simp add: mult.assoc [symmetric])
  finally show ?thesis by (simp add: bit_iff_odd)
qed

lemma peaks_loop_Suc:
  "peaks_loop (2 ^ Suc k - 1) pos s ps =
     (if pos \<ge> 2 ^ Suc k - 1
      then peaks_loop (2 ^ k - 1) (pos - (2 ^ Suc k - 1)) (s + (2 ^ Suc k - 1)) (ps @ [s + (2 ^ Suc k - 1)])
      else peaks_loop (2 ^ k - 1) pos s ps)"
  by (subst peaks_loop.simps) (simp only: peak_size_Suc if_False)

lemma peaks_loop_node:
  "node m h \<Longrightarrow> s = mmr_size (leaves_upto m k) \<Longrightarrow>
   peaks_loop (2 ^ k - 1) (mmr_size (m mod 2 ^ k) + h) s ps =
     (ps @ map (\<lambda>i. mmr_size (leaves_upto m i)) (bits_down k m), h)"
proof (induction k arbitrary: ps s)
  case 0
  show ?case by (simp add: peaks_loop.simps)
next
  case (Suc k)
  show ?case
  proof (cases "bit m k")
    case True
    have s: "s + (2 ^ Suc k - 1) = mmr_size (leaves_upto m k)"
      using mmr_size_set_bit [OF leaves_upto_not_bit, of m k] leaves_upto_step [of m k] True Suc.prems(2) by simp
    show ?thesis
      unfolding peaks_loop_Suc peak_present [OF True]
      by (simp only: le_add1 if_True add_diff_cancel_left' s Suc.IH [OF Suc.prems(1) refl]) (simp add: True)
  next
    case False
    have "s = mmr_size (leaves_upto m k)" using leaves_upto_step [of m k] False Suc.prems(2) by simp
    from Suc.IH [OF Suc.prems(1) this] False show ?thesis
      unfolding peaks_loop_Suc using peak_absent [OF Suc.prems(1) False] mod_absent [OF False] by (simp add: not_le)
  qed
qed

section \<open>Closed forms\<close>

lemma node_small:
  assumes "node m h"
  shows "m < 2 ^ bit_len (mmr_size m + h)"
  using mmr_size_ge [of m] bit_len_less [of "mmr_size m + h"] by linarith

lemma peak_map_height_node: "node m h \<Longrightarrow> peak_map_height (mmr_size m + h) = (m, h)"
proof (cases "mmr_size m + h = 0")
  case True
  then show ?thesis using mmr_size_ge [of m] by (simp add: peak_map_height_def)
next
  case False
  assume n: "node m h"
  then show ?thesis
    using map_loop_node [OF n, of "bit_len (mmr_size m + h)" 0] node_small [OF n]
    unfolding peak_map_height_def top_peak_size_def if_not_P [OF False] by simp
qed

lemma postorder_height_node: "node m h \<Longrightarrow> bintree_postorder_height (node_pos m h) = h"
  by (simp add: bintree_postorder_height_def node_pos_def peak_map_height_node)

lemma is_leaf_node: "node m h \<Longrightarrow> is_leaf (node_pos m h) \<longleftrightarrow> h = 0"
  by (simp add: is_leaf_def postorder_height_node)

text \<open>Sibling and parent of a node.\<close>

definition sib :: "nat \<Rightarrow> nat \<Rightarrow> nat" where
  "sib m h = (if bit m h then m - 2 ^ h else m + 2 ^ h)"

definition par :: "nat \<Rightarrow> nat \<Rightarrow> nat" where
  "par m h = (if bit m h then m else m + 2 ^ h)"

lemma div_add_pow: "((d::nat) + 2 ^ h) div 2 ^ h = Suc (d div 2 ^ h)"
  unfolding Suc_eq_plus1 by (rule div_add_self2) simp

lemma bit_sib [simp]: "bit (sib m h) h \<longleftrightarrow> \<not> bit m h"
proof (cases "bit m h")
  case True
  then obtain d where "m = d + 2 ^ h" using bit_ge le_Suc_ex add.commute by metis
  then have "sib m h = d" "bit m h \<longleftrightarrow> \<not> bit d h" using True by (simp_all add: sib_def bit_iff_odd div_add_pow)
  with True show ?thesis by simp
qed (simp add: sib_def bit_iff_odd div_add_pow)

lemma node_sib: "node m h \<Longrightarrow> node (sib m h) h"
proof (cases "bit m h")
  case True
  assume n: "node m h"
  have e: "Suc m = Suc (m - 2 ^ h) + 2 ^ h" using bit_ge [OF True] by simp
  have "2 ^ h dvd Suc (m - 2 ^ h)" using n unfolding node_def e by (simp only: dvd_add_left_iff dvd_refl)
  then show ?thesis using True by (simp add: sib_def node_def)
next
  case False
  assume "node m h"
  then have "2 ^ h dvd Suc m + 2 ^ h" by (simp only: node_def dvd_add_left_iff dvd_refl)
  then show ?thesis using False by (simp add: sib_def node_def)
qed

lemma sib_sib [simp]: "sib (sib m h) h = m"
  using bit_sib [of m h] bit_ge [of m h] unfolding sib_def [of "sib m h"] by (auto simp: sib_def)

lemma par_sib [simp]: "par (sib m h) h = par m h"
  using bit_ge [of m h] unfolding par_def bit_sib by (auto simp: sib_def)

lemma node_par: "node m h \<Longrightarrow> node (par m h) (Suc h)"
proof (cases "bit m h")
  case False
  assume "node m h"
  then have "node (sib m h) h" by (rule node_sib)
  then show ?thesis using False bit_sib [of m h] unfolding node_bit by (simp add: par_def sib_def)
qed (simp add: par_def node_bit)

lemma node_pos_set_bit: "\<not> bit m h \<Longrightarrow> node_pos (m + 2 ^ h) h + 1 = node_pos m h + 2 * 2 ^ h"
  using mmr_size_set_bit [of m h] by (simp add: node_pos_def)

lemma node_pos_Suc: "node_pos m (Suc h) = node_pos m h + 1"
  by (simp add: node_pos_def)

lemma node_pos_clear_bit:
  assumes "bit m h"
  shows "node_pos (m - 2 ^ h) h = node_pos m h + 1 - 2 * 2 ^ h"
proof -
  have "\<not> bit (m - 2 ^ h) h" using bit_sib [of m h] assms by (simp add: sib_def)
  from node_pos_set_bit [OF this] bit_ge [OF assms] show ?thesis by simp
qed

lemma peak_map_pos: "node m h \<Longrightarrow> peak_map_height (u64_sub (node_pos m h) 1) = (m, h)"
  using peak_map_height_node [of m h] by (simp add: width node_pos_def)

lemma and_bit: "(m AND 2 ^ h = (0::nat)) \<longleftrightarrow> \<not> bit m h"
  by (simp add: and_exp_eq_0_iff_not_bit)

lemma family_node:
  assumes "node m h"
  shows "family (node_pos m h) = (node_pos (par m h) (Suc h), node_pos (sib m h) h)"
  unfolding family_def peak_map_pos [OF assms] Let_def prod.case and_bit par_def sib_def node_pos_Suc
  using node_pos_set_bit [of m h] node_pos_clear_bit [of m h] by (cases "bit m h") simp_all

lemma is_left_sibling_node: "node m h \<Longrightarrow> is_left_sibling (node_pos m h) \<longleftrightarrow> \<not> bit m h"
  unfolding is_left_sibling_def by (simp only: peak_map_pos Let_def prod.case and_bit)

text \<open>The parent lies behind both children, and the height grows by one.\<close>

lemma node_pos_par: "node_pos m h < node_pos (par m h) (Suc h)"
  using node_pos_set_bit [of m h] zero_less_power [of "2::nat" h]
  by (auto simp: par_def node_pos_Suc simp del: zero_less_power)

lemma node_pos_inj:
  assumes "node m h" and "node m' h'" and "node_pos m h = node_pos m' h'"
  shows "m = m' \<and> h = h'"
  using peak_map_pos [OF assms(1)] peak_map_pos [OF assms(2)] assms(3) by simp

text \<open>The ancestors of a node share the high bits of its leaf index, so the bits of the peak map
  of the starting position decide all turns on the way up.\<close>

lemma div_pow_Suc: "(x::nat) div 2 ^ Suc h = x div 2 ^ h div 2"
  unfolding power_Suc2 by (rule div_mult2_eq)

lemma div_par: "par m h div 2 ^ Suc h = m div 2 ^ Suc h"
  unfolding div_pow_Suc by (cases "bit m h") (simp_all add: par_def bit_iff_odd div_add_pow)

lemma bit_div: "a div 2 ^ h = b div 2 ^ h \<Longrightarrow> bit (a::nat) h \<longleftrightarrow> bit b h"
  by (simp add: bit_iff_odd)

lemma div_Suc_div: "a div 2 ^ h = b div 2 ^ h \<Longrightarrow> a div 2 ^ Suc h = b div (2::nat) ^ Suc h"
  unfolding div_pow_Suc by simp

lemma branch_loop_node:
  assumes "node m h" and "pm div 2 ^ h = m div 2 ^ h"
  shows "branch_loop pm h (node_pos m h) last_pos =
     (if node_pos (par m h) (Suc h) \<le> last_pos
      then (node_pos (par m h) (Suc h), node_pos (sib m h) h) #
           branch_loop pm (Suc h) (node_pos (par m h) (Suc h)) last_pos
      else [])"
proof -
  have fam: "(if (pm AND 2 ^ h) \<noteq> 0 then (node_pos m h + 1, node_pos m h + 1 - 2 * 2 ^ h)
              else (node_pos m h + 2 * 2 ^ h, node_pos m h + 2 * 2 ^ h - 1))
             = (node_pos (par m h) (Suc h), node_pos (sib m h) h)"
    using family_node [OF assms(1)] bit_div [OF assms(2)]
    unfolding family_def peak_map_pos [OF assms(1)] Let_def prod.case and_bit by simp
  show ?thesis
    by (subst branch_loop.simps, unfold fam) (use node_pos_par [of m h] in auto)
qed

text \<open>The loop that keeps the peak map of the starting position agrees with restarting at every parent.\<close>

lemma branch_loop_restart:
  "node m h \<Longrightarrow> pm div 2 ^ h = m div 2 ^ h \<Longrightarrow>
   branch_loop pm h (node_pos m h) last_pos = family_branch (node_pos m h) last_pos"
proof (induction "last_pos - node_pos m h" arbitrary: m h pm rule: less_induct)
  case less
  let ?p = "node_pos (par m h) (Suc h)"
  have np: "node (par m h) (Suc h)" using less.prems(1) by (rule node_par)
  have ih: "branch_loop q (Suc h) ?p last_pos = family_branch ?p last_pos"
    if "q div 2 ^ h = m div 2 ^ h" "?p \<le> last_pos" for q
  proof (rule less.hyps [OF _ np])
    show "last_pos - ?p < last_pos - node_pos m h" using node_pos_par [of m h] that(2) by linarith
    show "q div 2 ^ Suc h = par m h div 2 ^ Suc h"
      using div_Suc_div [OF that(1)] div_par [of m h] by simp
  qed
  have "family_branch (node_pos m h) last_pos = branch_loop m h (node_pos m h) last_pos"
    unfolding family_branch_def peak_map_pos [OF less.prems(1)] by simp
  then show ?case
    unfolding branch_loop_node [OF less.prems] branch_loop_node [OF less.prems(1) refl]
    using ih [OF less.prems(2)] ih [OF refl] by simp
qed

lemma family_branch_node:
  "node m h \<Longrightarrow> family_branch (node_pos m h) last_pos =
     (if node_pos (par m h) (Suc h) \<le> last_pos
      then (node_pos (par m h) (Suc h), node_pos (sib m h) h) #
           family_branch (node_pos (par m h) (Suc h)) last_pos
      else [])"
  using branch_loop_node [of m h m last_pos] branch_loop_restart [OF node_par, of m h m last_pos] div_par [of m h]
  unfolding family_branch_def [of "node_pos m h"] by (simp add: peak_map_pos [unfolded One_nat_def])

lemma path_loop_branch:
  "node m h \<Longrightarrow> pm div 2 ^ h = m div 2 ^ h \<Longrightarrow>
   path_loop pm h (node_pos m h) last_pos =
     (if node_pos m h \<le> last_pos then node_pos m h # map fst (branch_loop pm h (node_pos m h) last_pos) else [])"
proof (induction "last_pos + 1 - node_pos m h" arbitrary: m h rule: less_induct)
  case less
  let ?p = "node_pos (par m h) (Suc h)"
  have "node_pos m h + (if (pm AND 2 ^ h) \<noteq> 0 then 1 else 2 * 2 ^ h) = ?p"
    using node_pos_set_bit [of m h] bit_div [OF less.prems(2)] by (auto simp: and_bit par_def node_pos_Suc)
  then have step: "path_loop pm h (node_pos m h) last_pos =
      (if node_pos m h \<le> last_pos then node_pos m h # path_loop pm (Suc h) ?p last_pos else [])"
    by (subst path_loop.simps) simp
  have "path_loop pm (Suc h) ?p last_pos = (if ?p \<le> last_pos then ?p # map fst (branch_loop pm (Suc h) ?p last_pos) else [])"
    if "node_pos m h \<le> last_pos"
  proof (rule less.hyps)
    show "last_pos + 1 - ?p < last_pos + 1 - node_pos m h" using node_pos_par [of m h] that by linarith
    show "pm div 2 ^ Suc h = par m h div 2 ^ Suc h"
      using div_Suc_div [OF less.prems(2)] div_par [of m h] by simp
  qed (rule node_par [OF less.prems(1)])
  then show ?case unfolding step branch_loop_node [OF less.prems] by simp
qed

lemma path_node:
  "node m h \<Longrightarrow> path (node_pos m h) last_pos =
     (if node_pos m h \<le> last_pos then node_pos m h # map fst (family_branch (node_pos m h) last_pos) else [])"
  using path_loop_branch [of m h m last_pos]
  by (simp add: path_def family_branch_def peak_map_pos [unfolded One_nat_def])

section \<open>Peaks and leaves\<close>

lemma size_cases:
  obtains m h where "node m h" and "sz = mmr_size m + h"
  using node_cases [of "Suc sz"] by (metis Suc_eq_plus1 nat.inject node_pos_def zero_less_Suc)

lemma peaks_node:
  assumes "node m h"
  shows "peaks (mmr_size m + h) =
    (if h = 0 then map (\<lambda>i. mmr_size (leaves_upto m i)) (bits_down (bit_len (mmr_size m + h)) m) else [])"
proof (cases "mmr_size m + h = 0")
  case True
  then show ?thesis by (simp add: peaks_def)
next
  case False
  let ?k = "bit_len (mmr_size m + h)"
  have m: "m mod 2 ^ ?k = m" using node_small [OF assms] by simp
  then have "peaks_loop (top_peak_size (mmr_size m + h)) (mmr_size m + h) 0 [] =
      (map (\<lambda>i. mmr_size (leaves_upto m i)) (bits_down ?k m), h)"
    using peaks_loop_node [OF assms, of 0 ?k "[]"] by (simp add: top_peak_size_def leaves_upto_def)
  then show ?thesis unfolding peaks_def if_not_P [OF False] by simp
qed

lemma leaves_upto_antimono: "i \<le> j \<Longrightarrow> leaves_upto n j \<le> leaves_upto n i"
proof (induction rule: dec_induct)
  case (step j)
  then show ?case using leaves_upto_step [of n j] by linarith
qed simp

lemma leaves_upto_less: "i < j \<Longrightarrow> bit n i \<Longrightarrow> leaves_upto n j < leaves_upto n i"
proof -
  assume "i < j" "bit n i"
  then have "leaves_upto n j \<le> leaves_upto n (Suc i)" "leaves_upto n i = leaves_upto n (Suc i) + 2 ^ i"
    using leaves_upto_antimono [of "Suc i" j n] leaves_upto_step [of n i] by simp_all
  moreover have "0 < (2::nat) ^ i" by simp
  ultimately show ?thesis by linarith
qed

lemma sorted_peaks:
  "sorted_wrt (<) (map (\<lambda>i. mmr_size (leaves_upto n i)) (bits_down k n))"
proof -
  have "sorted_wrt (\<lambda>i j. j < i) (rev [0..<k])" by (simp add: sorted_wrt_rev)
  then have "sorted_wrt (\<lambda>i j. j < i) (bits_down k n)" by (rule sorted_wrt_filter)
  then have "sorted_wrt (\<lambda>i j. leaves_upto n i < leaves_upto n j) (bits_down k n)"
    by (rule sorted_wrt_mono_rel [rotated]) (auto intro: leaves_upto_less)
  then show ?thesis by (simp add: sorted_wrt_map mmr_size_less_iff)
qed

text \<open>A node is a peak iff it is in the range and its parent is not.\<close>

lemma peak_iff:
  assumes "node m h"
  shows "m < n \<and> n \<le> par m h \<longleftrightarrow> bit n h \<and> Suc m = leaves_upto n h"
proof -
  obtain q where q: "Suc m = q * 2 ^ h" using assms unfolding node_def by (metis dvd_def mult.commute)
  then have "0 < q" by (cases q) auto
  then obtain r where r: "q = Suc r" by (cases q) auto
  have "Suc m = 2 ^ h + r * 2 ^ h" "0 < (2::nat) ^ h" using q r by simp_all
  then have "2 ^ h * r \<le> m" "m < 2 ^ h * Suc r" unfolding mult_Suc_right mult.commute [of "2 ^ h" r] by linarith+
  then have "m div 2 ^ h = r" by (rule div_nat_eqI)
  then have bm: "bit m h \<longleftrightarrow> odd r" by (simp add: bit_iff_odd)
  have lu: "leaves_upto n h = n div 2 ^ h * 2 ^ h" by (simp only: leaves_upto_def minus_mod_eq_div_mult)
  have dn: "n div 2 ^ h = Suc r \<longleftrightarrow> Suc m \<le> n \<and> n < Suc m + 2 ^ h"
  proof
    assume "n div 2 ^ h = Suc r"
    then show "Suc m \<le> n \<and> n < Suc m + 2 ^ h"
      using q r times_div_less_eq_dividend [of "2 ^ h" n] dividend_less_times_div [of "2 ^ h" n]
      by (simp add: mult.commute)
  next
    assume "Suc m \<le> n \<and> n < Suc m + 2 ^ h"
    then show "n div 2 ^ h = Suc r" using q r by (intro div_nat_eqI) (simp_all add: mult.commute)
  qed
  have "bit n h \<and> Suc m = leaves_upto n h \<longleftrightarrow> even r \<and> n div 2 ^ h = Suc r"
    unfolding lu q r mult_cancel2 bit_iff_odd by (metis even_Suc power_eq_0_iff zero_neq_numeral)
  with dn bm show ?thesis by (auto simp: par_def)
qed

lemma leaves_upto_pos:
  assumes "bit n i"
  obtains m where "leaves_upto n i = Suc m" and "node m i" and "mmr_size (leaves_upto n i) = node_pos m i"
proof -
  have lu: "leaves_upto n i = n div 2 ^ i * 2 ^ i" by (simp only: leaves_upto_def minus_mod_eq_div_mult)
  have o: "odd (n div 2 ^ i)" using assms by (simp add: bit_iff_odd)
  then have "0 < leaves_upto n i" unfolding lu by (simp add: odd_pos)
  then obtain m where m: "leaves_upto n i = Suc m" by (cases "leaves_upto n i") auto
  have node: "node m i" unfolding node_def m [symmetric] lu by simp
  have "\<not> 2 ^ Suc i dvd n div 2 ^ i * 2 ^ i" using o by (simp only: power_Suc nat_mult_dvd_cancel_disj mult.commute) simp
  then have "\<not> node m (Suc i)" unfolding node_def m [symmetric] lu .
  from mmr_size_carry_exact [OF node this] show thesis
    using m node by (intro that) (simp_all add: node_pos_def)
qed

lemma set_peaks:
  "set (peaks (mmr_size n)) = {p. 0 < p \<and> p \<le> mmr_size n \<and> mmr_size n < fst (family p)}" (is "?L = ?R")
proof (intro set_eqI iffI)
  let ?k = "bit_len (mmr_size n)"
  have L: "?L = (\<lambda>i. mmr_size (leaves_upto n i)) ` {i. i < ?k \<and> bit n i}"
    using peaks_node [of n 0] by auto
  fix p
  { assume "p \<in> ?L"
    then obtain i where i: "bit n i" "p = mmr_size (leaves_upto n i)" unfolding L by auto
    obtain m where m: "leaves_upto n i = Suc m" "node m i" "p = node_pos m i"
      using leaves_upto_pos [OF i(1)] unfolding i(2) by metis
    then have "m < n \<and> n \<le> par m i" using peak_iff [of m i n] i(1) by simp
    then show "p \<in> ?R"
      using node_pos_le_size [OF m(2), of n] node_pos_le_size [OF node_par [OF m(2)], of n]
      unfolding m(3) by (auto simp: family_node [OF m(2)] not_le) }
  { assume "p \<in> ?R"
    then have R: "0 < p" "p \<le> mmr_size n" "mmr_size n < fst (family p)" by simp_all
    obtain m h where m: "node m h" "p = node_pos m h" using node_cases [OF R(1)] .
    have "m < n" using R(2) node_pos_le_size [OF m(1)] unfolding m(2) by simp
    moreover have "n \<le> par m h"
      using R(3) node_pos_le_size [OF node_par [OF m(1)], of n] unfolding m(2) family_node [OF m(1)] by simp
    ultimately have b: "bit n h" "Suc m = leaves_upto n h" using peak_iff [OF m(1), of n] by simp_all
    then have "p = mmr_size (leaves_upto n h)"
      using leaves_upto_pos [OF b(1)] unfolding m(2) by (metis nat.inject)
    moreover have "h < ?k"
    proof -
      have "2 ^ h \<le> n" using bit_ge [OF b(1)] .
      also have "\<dots> < 2 ^ ?k" using node_small [of n 0] by simp
      finally show ?thesis by simp
    qed
    ultimately show "p \<in> ?L" unfolding L using b(1) by blast }
qed

lemma sum_bits_down: "sum_list (map (\<lambda>i. 2 ^ i) (bits_down k m)) = m mod 2 ^ k"
proof (induction k)
  case (Suc k)
  then show ?case by (simp add: mod_pow_Suc [of m k] del: power_Suc)
qed simp

lemma n_leaves_node:
  assumes "node m h"
  shows "n_leaves (mmr_size m + h) = (if h = 0 then m else m + 1)"
proof (cases "mmr_size m + h = 0")
  case True
  then show ?thesis using mmr_size_ge [of m] by (simp add: n_leaves_def peak_sizes_height_def)
next
  case False
  let ?k = "bit_len (mmr_size m + h)"
  have m: "m mod 2 ^ ?k = m" using node_small [OF assms] by simp
  have half: "(2 ^ Suc i - 1 + 1) div 2 = (2 ^ i :: nat)" for i by simp
  have "peak_sizes_height (mmr_size m + h) = (map (\<lambda>i. 2 ^ Suc i - 1) (bits_down ?k m), h)"
    using sizes_loop_node [OF assms, of ?k "[]"] m
    unfolding peak_sizes_height_def if_not_P [OF False] top_peak_size_def by simp
  then show ?thesis
    using sum_bits_down [of m ?k] m unfolding n_leaves_def Let_def
    by (simp only: prod.case map_map comp_def half)
qed

lemma leaf_le:
  assumes "node m h"
  shows "node_pos j 0 \<le> mmr_size m + h \<longleftrightarrow> j < (if h = 0 then m else m + 1)"
proof (cases j m rule: linorder_cases)
  case less
  then show ?thesis using mmr_size_less_iff [of j m] by (simp add: node_pos_def)
next
  case equal
  then show ?thesis by (simp add: node_pos_def)
next
  case greater
  then have "mmr_size (Suc m) \<le> mmr_size j" by (simp add: mmr_size_le_iff)
  then show ?thesis using greater mmr_size_carry [OF assms] by (simp add: node_pos_def)
qed

lemma leaf_positions: "{p \<in> {1..sz}. is_leaf p} = (\<lambda>j. node_pos j 0) ` {j. node_pos j 0 \<le> sz}"
proof (intro set_eqI iffI)
  fix p
  assume p: "p \<in> {p \<in> {1..sz}. is_leaf p}"
  then have "0 < p" by simp
  from node_cases [OF this] obtain m h where m: "node m h" "p = node_pos m h" .
  with p have "h = 0" by (simp add: is_leaf_node)
  with m p show "p \<in> (\<lambda>j. node_pos j 0) ` {j. node_pos j 0 \<le> sz}" by auto
qed (auto simp: is_leaf_node Suc_le_eq)

lemma insertion_index: "insertion_to_pmmr_index (Suc n) = node_pos n 0"
  by (simp add: insertion_to_pmmr_index_def node_pos_def mmr_size_def)

lemma n_leaves_size: "n_leaves (mmr_size n) = n"
  using n_leaves_node [of n 0] by simp

lemma n_leaves_leaf: "n_leaves (node_pos n 0) = Suc n"
proof (cases "node n 1")
  case True
  then show ?thesis using n_leaves_node [OF True] by (simp add: node_pos_def)
next
  case False
  then have "node_pos n 0 = mmr_size (Suc n)" using mmr_size_carry_exact [of n 0] by (simp add: node_pos_def)
  then show ?thesis by (simp add: n_leaves_size)
qed

lemma inj_leaf_pos: "inj_on (\<lambda>j. node_pos j 0) A"
  by (rule inj_onI) (use node_pos_inj [of _ 0 _ 0] in auto)

section \<open>Properties\<close>

text \<open>C23: the leaf count of a size is the number of leaf positions up to it, and the \<open>n\<close>-th
  inserted element sits at the \<open>n\<close>-th leaf position.\<close>

theorem leaf_count:
  "n_leaves sz = card {p \<in> {1..sz}. is_leaf p} \<and>
   is_leaf (insertion_to_pmmr_index (Suc n)) \<and> n_leaves (insertion_to_pmmr_index (Suc n)) = Suc n"
proof -
  obtain m h where m: "node m h" "sz = mmr_size m + h" by (rule size_cases)
  have "card {p \<in> {1..sz}. is_leaf p} = card {j. node_pos j 0 \<le> sz}"
    unfolding leaf_positions by (rule card_image [OF inj_leaf_pos])
  also have "{j. node_pos j 0 \<le> sz} = {..<n_leaves sz}"
    unfolding m(2) leaf_le [OF m(1)] n_leaves_node [OF m(1)] by auto
  finally have "n_leaves sz = card {p \<in> {1..sz}. is_leaf p}" by simp
  then show ?thesis by (simp add: insertion_index n_leaves_leaf is_leaf_node)
qed

text \<open>C24: \<open>family\<close> navigates the trees of the range. Sibling and position have the same parent,
  of the next height, and are each other's sibling; the right child stands just before the parent,
  the left child one subtree further back, and exactly the left one is reported as left sibling.\<close>

theorem family_tree:
  assumes "0 < pos" and "family pos = (parent, sibling)"
  shows "family sibling = (parent, pos) \<and>
    bintree_postorder_height sibling = bintree_postorder_height pos \<and>
    bintree_postorder_height parent = bintree_postorder_height pos + 1 \<and>
    (if is_left_sibling pos then pos = parent - 2 ^ bintree_postorder_height parent \<and> sibling = parent - 1
     else pos = parent - 1 \<and> sibling = parent - 2 ^ bintree_postorder_height parent) \<and>
    is_left_sibling sibling = (\<not> is_left_sibling pos)"
proof -
  obtain m h where m: "node m h" "pos = node_pos m h" using node_cases [OF assms(1)] .
  have s: "node (sib m h) h" and p: "node (par m h) (Suc h)" using m(1) by (simp_all add: node_sib node_par)
  have f: "parent = node_pos (par m h) (Suc h)" "sibling = node_pos (sib m h) h"
    using assms(2) unfolding m(2) family_node [OF m(1)] by simp_all
  have "if bit m h then pos = parent - 1 \<and> sibling = parent - 2 ^ Suc h
        else pos = parent - 2 ^ Suc h \<and> sibling = parent - 1"
    using node_pos_set_bit [of m h] node_pos_clear_bit [of m h]
    by (auto simp: m(2) f par_def sib_def node_pos_Suc)
  then show ?thesis
    unfolding m(2) f is_left_sibling_node [OF m(1)] is_left_sibling_node [OF s] family_node [OF s]
      postorder_height_node [OF m(1)] postorder_height_node [OF s] postorder_height_node [OF p]
    by (auto simp: f m(2))
qed

theorem family_tree_witness:
  "family 13 = (14, 10) \<and> family 10 = (14, 13) \<and> is_left_sibling 10 = (\<not> is_left_sibling 13)"
proof -
  have "family 13 = (14, 10)" by (simp add: pos_eval)
  from family_tree [OF _ this] this show ?thesis by simp
qed

lemma peaks_inside:
  assumes "p \<in> set (peaks sz)"
  shows "0 < p \<and> p \<le> sz \<and> sz < fst (family p)"
proof -
  obtain m h where m: "node m h" "sz = mmr_size m + h" by (rule size_cases)
  have "h = 0" using assms m by (cases "h = 0") (simp_all add: peaks_node)
  with assms m show ?thesis by (simp add: set_peaks)
qed

text \<open>C25: the peaks of a size are, in ascending order, exactly the positions of the range whose
  parent lies beyond it; a size that no mountain range has gives no peaks.\<close>

theorem peaks_spec:
  "peaks sz = (if snd (peak_map_height sz) = 0
     then sorted_list_of_set {p. 0 < p \<and> p \<le> sz \<and> sz < fst (family p)} else [])"
proof -
  obtain m h where m: "node m h" "sz = mmr_size m + h" by (rule size_cases)
  show ?thesis
  proof (cases "h = 0")
    case True
    have "sorted_wrt (<) (peaks (mmr_size m))"
      using peaks_node [of m 0] sorted_peaks [of m] by simp
    then have "sorted_list_of_set (set (peaks (mmr_size m))) = peaks (mmr_size m)"
      by (intro sorted_list_of_set.idem_if_sorted_distinct) (simp_all add: strict_sorted_iff)
    then show ?thesis using m True peak_map_height_node [of m 0] by (simp add: set_peaks)
  next
    case False
    then show ?thesis using m by (simp add: peaks_node peak_map_height_node)
  qed
qed

text \<open>C26: the branch of a position climbs from family to family as long as the parent is inside the
  range, although the loop looks at the peak map of the starting position only; the path is the
  position followed by the parents of the branch.\<close>

theorem family_branch_climbs:
  assumes "0 < pos"
  shows "family_branch pos last_pos =
      (if fst (family pos) \<le> last_pos then family pos # family_branch (fst (family pos)) last_pos else []) \<and>
    path pos last_pos = (if pos \<le> last_pos then pos # map fst (family_branch pos last_pos) else [])"
proof -
  obtain m h where m: "node m h" "pos = node_pos m h" using node_cases [OF assms] .
  show ?thesis
    using family_branch_node [OF m(1), of last_pos] path_node [OF m(1), of last_pos] unfolding m(2) family_node [OF m(1)] by simp
qed

theorem family_branch_climbs_witness:
  "0 < (8::nat) \<and> family_branch 8 19 = [(10, 9), (14, 13), (15, 7)] \<and> path 8 19 = [8, 10, 14, 15]"
proof -
  have "family_branch 8 19 = [(10, 9), (14, 13), (15, 7)]"
    by (simp add: family_branch_def pos_eval branch_loop.simps)
  with family_branch_climbs [of 8 19] show ?thesis by simp
qed

end
