(* ===== verification/Pmmr.thy ===== *)
theory Pmmr
  imports Pmmr_Pos
begin

unbundle bit_operations_syntax

text \<open>
  The prunable Merkle mountain range, \<open>core/src/core/pmmr/pmmr.rs\<close>, over the \<open>Backend\<close> trait of
  \<open>core/src/core/pmmr/backend.rs\<close>. The trait is a record of functions, an implementation a value
  of it. \<open>hash_with_index\<close> of an element and of a pair of hashes are the parameters \<open>hl\<close> and
  \<open>hn\<close>: the hash function is the external \<open>blake2\<close>. Errors are the strings of the source,
  panics are \<open>None\<close>. The locale \<open>pmmr_store\<close> is the contract of a backend; its lemmas show what
  the range computes over any backend that keeps it.
\<close>

section \<open>Definitions\<close>

record ('b, 't, 'e, 'h, 'bm) backend =
  be_append :: "'b \<Rightarrow> 't \<Rightarrow> 'h list \<Rightarrow> string + 'b"
  be_rewind :: "'b \<Rightarrow> u64 \<Rightarrow> 'bm \<Rightarrow> string + 'b"
  be_get_hash :: "'b \<Rightarrow> u64 \<Rightarrow> 'h option"
  be_get_data :: "'b \<Rightarrow> u64 \<Rightarrow> 'e option"
  be_get_from_file :: "'b \<Rightarrow> u64 \<Rightarrow> 'h option"
  be_get_data_from_file :: "'b \<Rightarrow> u64 \<Rightarrow> 'e option"
  be_leaf_pos_iter :: "'b \<Rightarrow> u64 list option"
  be_remove :: "'b \<Rightarrow> u64 \<Rightarrow> (string + 'b) option"

record 'b pmmr =
  last_pos :: u64
  pm_backend :: 'b

definition pmmr_new :: "'b \<Rightarrow> 'b pmmr" where
  "pmmr_new b = \<lparr>last_pos = 0, pm_backend = b\<rparr>"

definition pmmr_at :: "'b \<Rightarrow> u64 \<Rightarrow> 'b pmmr" where
  "pmmr_at b p = \<lparr>last_pos = p, pm_backend = b\<rparr>"

definition pmmr_peaks :: "('b, 't, 'e, 'h, 'bm) backend \<Rightarrow> 'b pmmr \<Rightarrow> 'h list" where
  "pmmr_peaks B p = List.map_filter (be_get_from_file B (pm_backend p)) (peaks (last_pos p))"

text \<open>The loop over the reversed peaks that \<open>bag_the_rhs\<close> and \<open>root\<close> share.\<close>

definition bag :: "('h \<times> 'h \<Rightarrow> u64 \<Rightarrow> 'h) \<Rightarrow> u64 \<Rightarrow> 'h list \<Rightarrow> 'h option" where
  "bag hn sz hs = fold (\<lambda>peak res. case res of None \<Rightarrow> Some peak | Some rhash \<Rightarrow> Some (hn (peak, rhash) sz)) (rev hs) None"

definition bag_the_rhs :: "('b, 't, 'e, 'h, 'bm) backend \<Rightarrow> ('h \<times> 'h \<Rightarrow> u64 \<Rightarrow> 'h) \<Rightarrow> 'b pmmr \<Rightarrow> u64 \<Rightarrow> 'h option" where
  "bag_the_rhs B hn p peak_pos =
     (let rhs = List.map_filter (be_get_from_file B (pm_backend p)) (filter (\<lambda>x. x > peak_pos) (peaks (last_pos p)))
      in bag hn (last_pos p) rhs)"

definition peak_path :: "('b, 't, 'e, 'h, 'bm) backend \<Rightarrow> ('h \<times> 'h \<Rightarrow> u64 \<Rightarrow> 'h) \<Rightarrow> 'b pmmr \<Rightarrow> u64 \<Rightarrow> 'h list" where
  "peak_path B hn p peak_pos =
     (let rhs = bag_the_rhs B hn p peak_pos;
          res = rev (List.map_filter (be_get_from_file B (pm_backend p)) (filter (\<lambda>x. x < peak_pos) (peaks (last_pos p))))
      in case rhs of None \<Rightarrow> res | Some r \<Rightarrow> r # res)"

definition pmmr_is_empty :: "'b pmmr \<Rightarrow> bool" where
  "pmmr_is_empty p \<longleftrightarrow> last_pos p = 0"

definition pmmr_unpruned_size :: "'b pmmr \<Rightarrow> u64" where
  "pmmr_unpruned_size p = last_pos p"

definition pmmr_root :: "('b, 't, 'e, 'h, 'bm) backend \<Rightarrow> ('h \<times> 'h \<Rightarrow> u64 \<Rightarrow> 'h) \<Rightarrow> 'h \<Rightarrow> 'b pmmr \<Rightarrow> 'h option" where
  "pmmr_root B hn zero_hash p =
     (if pmmr_is_empty p then Some zero_hash else bag hn (pmmr_unpruned_size p) (pmmr_peaks B p))"

definition pmmr_get_hash :: "('b, 't, 'e, 'h, 'bm) backend \<Rightarrow> 'b pmmr \<Rightarrow> u64 \<Rightarrow> 'h option" where
  "pmmr_get_hash B p pos =
     (if pos > last_pos p then None
      else if is_leaf pos then be_get_hash B (pm_backend p) pos
      else be_get_from_file B (pm_backend p) pos)"

definition pmmr_get_data :: "('b, 't, 'e, 'h, 'bm) backend \<Rightarrow> 'b pmmr \<Rightarrow> u64 \<Rightarrow> 'e option" where
  "pmmr_get_data B p pos =
     (if pos > last_pos p then None
      else if is_leaf pos then be_get_data B (pm_backend p) pos
      else None)"

definition pmmr_get_from_file :: "('b, 't, 'e, 'h, 'bm) backend \<Rightarrow> 'b pmmr \<Rightarrow> u64 \<Rightarrow> 'h option" where
  "pmmr_get_from_file B p pos = (if pos > last_pos p then None else be_get_from_file B (pm_backend p) pos)"

record 'h merkle_proof =
  mp_mmr_size :: u64
  mp_path :: "'h list"

definition pmmr_merkle_proof :: "('b, 't, 'e, 'h, 'bm) backend \<Rightarrow> ('h \<times> 'h \<Rightarrow> u64 \<Rightarrow> 'h) \<Rightarrow> 'b pmmr \<Rightarrow> u64 \<Rightarrow> string + 'h merkle_proof" where
  "pmmr_merkle_proof B hn p pos =
     (if \<not> is_leaf pos then Inl ''not a leaf at pos''
      else case pmmr_get_hash B p pos of
        None \<Rightarrow> Inl ''no element at pos''
      | Some _ \<Rightarrow>
          let branch = family_branch pos (last_pos p);
              path = List.map_filter (\<lambda>x. pmmr_get_from_file B p (snd x)) branch;
              peak_pos = (if branch = [] then pos else fst (last branch))
          in Inr \<lparr>mp_mmr_size = pmmr_unpruned_size p, mp_path = path @ peak_path B hn p peak_pos\<rparr>)"

text \<open>The loop of \<open>push\<close>; the variable \<open>peak\<close> is \<open>2 ^ k\<close>.\<close>

function push_loop :: "(u64 \<Rightarrow> 'h option) \<Rightarrow> ('h \<times> 'h \<Rightarrow> u64 \<Rightarrow> 'h) \<Rightarrow> u64 \<Rightarrow> nat \<Rightarrow> u64 \<Rightarrow> 'h \<Rightarrow> 'h list \<Rightarrow> string + u64 \<times> 'h list" where
  "push_loop get hn peak_map k pos current_hash hashes =
     (if (peak_map AND 2 ^ k) \<noteq> 0
      then let left_sibling = pos + 1 - 2 * 2 ^ k in
           (case get left_sibling of
              None \<Rightarrow> Inl ''missing left sibling in tree, should not have been pruned''
            | Some left_hash \<Rightarrow>
                let pos' = pos + 1; current_hash' = hn (left_hash, current_hash) (pos' - 1)
                in push_loop get hn peak_map (k + 1) pos' current_hash' (hashes @ [current_hash']))
      else Inr (pos, hashes))"
  by pat_completeness auto
termination
proof (relation "measure (\<lambda>(get, hn, peak_map, k, _). peak_map - k)")
  fix get :: "u64 \<Rightarrow> 'h option" and hn :: "'h \<times> 'h \<Rightarrow> u64 \<Rightarrow> 'h" and peak_map k pos :: nat and cur hs l lh pos' cur'
  assume "(peak_map AND 2 ^ k) \<noteq> 0"
  then have "2 ^ k \<le> peak_map" using bit_ge [of peak_map k] by (simp only: and_bit not_not)
  then have "k < peak_map" using less_exp [of k] by (rule less_le_trans [rotated])
  then show "((get, hn, peak_map, k + 1, pos', cur', hs @ [cur']), (get, hn, peak_map, k, pos, cur, hs))
      \<in> measure (\<lambda>(get, hn, peak_map, k, _). peak_map - k)" by simp
qed simp

declare push_loop.simps [simp del]

definition pmmr_push :: "('b, 't, 'e, 'h, 'bm) backend \<Rightarrow> ('t \<Rightarrow> u64 \<Rightarrow> 'h) \<Rightarrow> ('h \<times> 'h \<Rightarrow> u64 \<Rightarrow> 'h) \<Rightarrow> 'b pmmr \<Rightarrow> 't \<Rightarrow> string + u64 \<times> 'b pmmr" where
  "pmmr_push B hl hn p elmt =
     (let elmt_pos = last_pos p + 1;
          current_hash = hl elmt (elmt_pos - 1);
          (peak_map, height) = peak_map_height (elmt_pos - 1)
      in if height \<noteq> 0 then Inl ''bad mmr size''
         else bind_res (push_loop (be_get_from_file B (pm_backend p)) hn peak_map 0 elmt_pos current_hash [current_hash])
           (\<lambda>(pos, hashes). bind_res (be_append B (pm_backend p) elmt hashes)
             (\<lambda>b. Inr (elmt_pos, \<lparr>last_pos = pos, pm_backend = b\<rparr>))))"

text \<open>The loop of \<open>rewind\<close> that moves past the parents completed by the leaf at \<open>pos\<close>. It ends
  because every run of parents is followed by a leaf.\<close>

function rewind_pos :: "u64 \<Rightarrow> u64" where
  "rewind_pos pos = (if bintree_postorder_height (pos + 1) > 0 then rewind_pos (pos + 1) else pos)"
  by pat_completeness auto
termination
proof (relation "measure (\<lambda>pos. if bintree_postorder_height (pos + 1) = 0 then 0
    else mmr_size (Suc (fst (peak_map_height pos))) - pos)")
  fix pos :: u64
  assume h: "bintree_postorder_height (pos + 1) > 0"
  obtain m h where m: "node m h" "pos = mmr_size m + h" by (rule size_cases)
  have mh: "peak_map_height pos = (m, h)" "pos < mmr_size (Suc m)"
    using m by (simp_all add: peak_map_height_node mmr_size_carry)
  show "(pos + 1, pos) \<in> measure (\<lambda>pos. if bintree_postorder_height (pos + 1) = 0 then 0
    else mmr_size (Suc (fst (peak_map_height pos))) - pos)"
  proof (cases "node m (Suc h)")
    case True
    then have "peak_map_height (pos + 1) = (m, Suc h)" using peak_map_height_node [OF True] m(2) by simp
    then show ?thesis using h mh by (simp add: bintree_postorder_height_def)
  next
    case False
    then have "peak_map_height (pos + 1) = (Suc m, 0)"
      using mmr_size_carry_exact [OF m(1) False] peak_map_height_node [of "Suc m" 0] m(2) by simp
    then show ?thesis using h mh by (simp add: bintree_postorder_height_def)
  qed
qed simp

declare rewind_pos.simps [simp del]

definition pmmr_rewind :: "('b, 't, 'e, 'h, 'bm) backend \<Rightarrow> 'b pmmr \<Rightarrow> u64 \<Rightarrow> 'bm \<Rightarrow> string + 'b pmmr" where
  "pmmr_rewind B p position rewind_rm_pos =
     (let pos = rewind_pos position
      in bind_res (be_rewind B (pm_backend p) pos rewind_rm_pos) (\<lambda>b. Inr \<lparr>last_pos = pos, pm_backend = b\<rparr>))"

definition pmmr_truncate :: "('b, 't, 'e, 'h, 'bm) backend \<Rightarrow> 'bm \<Rightarrow> 'b pmmr \<Rightarrow> string + 'b pmmr" where
  "pmmr_truncate B empty_bitmap p =
     bind_res (be_rewind B (pm_backend p) 0 empty_bitmap) (\<lambda>b. Inr \<lparr>last_pos = 0, pm_backend = b\<rparr>)"

definition pmmr_prune :: "('b, 't, 'e, 'h, 'bm) backend \<Rightarrow> 'b pmmr \<Rightarrow> u64 \<Rightarrow> (string + bool \<times> 'b pmmr) option" where
  "pmmr_prune B p position =
     (if \<not> is_leaf position then Some (Inl ''Node is not a leaf, can't prune.'')
      else if be_get_hash B (pm_backend p) position = None then Some (Inr (False, p))
      else map_option (\<lambda>r. bind_res r (\<lambda>b. Inr (True, p\<lparr>pm_backend := b\<rparr>))) (be_remove B (pm_backend p) position))"

definition validate_node :: "('b, 't, 'e, 'h, 'bm) backend \<Rightarrow> ('h \<times> 'h \<Rightarrow> u64 \<Rightarrow> 'h) \<Rightarrow> 'b pmmr \<Rightarrow> u64 \<Rightarrow> bool" where
  "validate_node B hn p n =
     (let height = bintree_postorder_height n in
      if height > 0 then
        (case pmmr_get_hash B p n of None \<Rightarrow> True
         | Some hash \<Rightarrow>
            (case pmmr_get_from_file B p (n - 2 ^ height) of None \<Rightarrow> True
             | Some left_child_hs \<Rightarrow>
                (case pmmr_get_from_file B p (n - 1) of None \<Rightarrow> True
                 | Some right_child_hs \<Rightarrow> hn (left_child_hs, right_child_hs) (n - 1) = hash)))
      else True)"

definition pmmr_validate :: "('b, 't, 'e, 'h, 'bm) backend \<Rightarrow> ('h \<times> 'h \<Rightarrow> u64 \<Rightarrow> 'h) \<Rightarrow> 'b pmmr \<Rightarrow> string + unit" where
  "pmmr_validate B hn p =
     (if list_all (validate_node B hn p) [1..<last_pos p + 1] then Inr ()
      else Inl ''Invalid MMR, hash of parent does not match children.'')"

section \<open>The reference range\<close>

text \<open>The hash of the node above the leaves of \<open>xs\<close>, and of the node at a position.\<close>

primrec node_hash :: "('t \<Rightarrow> u64 \<Rightarrow> 'h) \<Rightarrow> ('h \<times> 'h \<Rightarrow> u64 \<Rightarrow> 'h) \<Rightarrow> 't list \<Rightarrow> nat \<Rightarrow> nat \<Rightarrow> 'h" where
  "node_hash hl hn xs m 0 = hl (xs ! m) (mmr_size m)"
| "node_hash hl hn xs m (Suc h) =
     hn (node_hash hl hn xs (m - 2 ^ h) h, node_hash hl hn xs m h) (mmr_size m + Suc h)"

definition tree_hash :: "('t \<Rightarrow> u64 \<Rightarrow> 'h) \<Rightarrow> ('h \<times> 'h \<Rightarrow> u64 \<Rightarrow> 'h) \<Rightarrow> 't list \<Rightarrow> u64 \<Rightarrow> 'h" where
  "tree_hash hl hn xs pos = (case peak_map_height (pos - 1) of (m, h) \<Rightarrow> node_hash hl hn xs m h)"

definition range_hashes :: "('t \<Rightarrow> u64 \<Rightarrow> 'h) \<Rightarrow> ('h \<times> 'h \<Rightarrow> u64 \<Rightarrow> 'h) \<Rightarrow> 't list \<Rightarrow> 'h list" where
  "range_hashes hl hn xs = map (\<lambda>i. tree_hash hl hn xs (Suc i)) [0..<mmr_size (length xs)]"

text \<open>The root of the range over \<open>xs\<close>: its peaks bagged from the right.\<close>

definition range_root :: "('t \<Rightarrow> u64 \<Rightarrow> 'h) \<Rightarrow> ('h \<times> 'h \<Rightarrow> u64 \<Rightarrow> 'h) \<Rightarrow> 'h \<Rightarrow> 't list \<Rightarrow> 'h option" where
  "range_root hl hn zero_hash xs =
     (if xs = [] then Some zero_hash
      else bag hn (mmr_size (length xs)) (map (tree_hash hl hn xs) (peaks (mmr_size (length xs)))))"

lemma tree_hash_node: "node m h \<Longrightarrow> tree_hash hl hn xs (node_pos m h) = node_hash hl hn xs m h"
  by (simp add: tree_hash_def node_pos_def peak_map_height_node)

text \<open>A node depends on the leaves up to its rightmost one only.\<close>

lemma node_hash_append: "m < length xs \<Longrightarrow> node_hash hl hn (xs @ ys) m h = node_hash hl hn xs m h"
proof (induction h arbitrary: m)
  case (Suc h)
  then have "m - 2 ^ h < length xs" by simp
  with Suc show ?case by simp
qed (simp add: nth_append)

lemma tree_hash_append:
  assumes "0 < p" and "p \<le> mmr_size (length xs)"
  shows "tree_hash hl hn (xs @ ys) p = tree_hash hl hn xs p"
proof -
  obtain m h where m: "node m h" "p = node_pos m h" using node_cases [OF assms(1)] .
  then have "m < length xs" using assms(2) node_pos_le_size by simp
  with m show ?thesis by (simp add: tree_hash_node node_hash_append)
qed

lemma length_range_hashes [simp]: "length (range_hashes hl hn xs) = mmr_size (length xs)"
  by (simp add: range_hashes_def)

lemma nth_range_hashes:
  "i < mmr_size (length xs) \<Longrightarrow> range_hashes hl hn xs ! i = tree_hash hl hn xs (Suc i)"
  by (simp add: range_hashes_def)

lemma take_range_hashes:
  "range_hashes hl hn xs = take (mmr_size (length xs)) (range_hashes hl hn (xs @ ys))"
proof (rule nth_equalityI)
  have "mmr_size (length xs) \<le> mmr_size (length (xs @ ys))" by (simp add: mmr_size_le_iff)
  then show len: "length (range_hashes hl hn xs) = length (take (mmr_size (length xs)) (range_hashes hl hn (xs @ ys)))"
    by simp
  fix i assume "i < length (range_hashes hl hn xs)"
  moreover from this len have "i < mmr_size (length (xs @ ys))" by simp
  ultimately show "range_hashes hl hn xs ! i = take (mmr_size (length xs)) (range_hashes hl hn (xs @ ys)) ! i"
    using tree_hash_append [of "Suc i" xs hl hn ys] by (simp add: nth_range_hashes)
qed

section \<open>The loop of push\<close>

text \<open>The left siblings that \<open>push\<close> reads are peaks of the range.\<close>

lemma left_sibling_peak:
  assumes "node n k" and "bit n k"
  shows "node (n - 2 ^ k) k" and "node_pos (n - 2 ^ k) k \<in> set (peaks (mmr_size n))"
proof -
  have s: "sib n k = n - 2 ^ k" using assms(2) by (simp add: sib_def)
  show nd: "node (n - 2 ^ k) k" using node_sib [OF assms(1)] unfolding s .
  have p: "par (n - 2 ^ k) k = n" using par_sib [of n k] assms(2) unfolding s by (simp add: par_def)
  have "n - 2 ^ k < n" using bit_ge [OF assms(2)] zero_less_power [of "2::nat" k] by linarith
  then show "node_pos (n - 2 ^ k) k \<in> set (peaks (mmr_size n))"
    unfolding set_peaks using nd node_pos_le_size [OF nd, of n] node_pos_le_size [OF node_par [OF nd], of n]
    by (simp add: family_node p not_le)
qed

lemma push_loop_hashes:
  assumes get: "\<forall>p \<in> set (peaks (mmr_size (length xs))). get p = Some (tree_hash hl hn xs p)"
    and "node (length xs) k"
    and "hashes = map (node_hash hl hn (xs @ [x]) (length xs)) [0..<Suc k]"
  shows "push_loop get hn (length xs) k (node_pos (length xs) k) (node_hash hl hn (xs @ [x]) (length xs) k) hashes =
     Inr (mmr_size (Suc (length xs)),
       map (node_hash hl hn (xs @ [x]) (length xs)) [0..<mmr_size (Suc (length xs)) - mmr_size (length xs)])"
  using assms(2,3)
proof (induction "length xs - k" arbitrary: k hashes rule: less_induct)
  case less
  let ?n = "length xs"
  let ?H = "node_hash hl hn (xs @ [x])"
  show ?case
  proof (cases "bit ?n k")
    case True
    have left: "node_pos ?n k + 1 - 2 * 2 ^ k = node_pos (?n - 2 ^ k) k" using node_pos_clear_bit [OF True] by simp
    have "get (node_pos (?n - 2 ^ k) k) = Some (node_hash hl hn xs (?n - 2 ^ k) k)"
      using get left_sibling_peak [OF less.prems(1) True] by (simp add: tree_hash_node)
    moreover have "?n - 2 ^ k < ?n" using bit_ge [OF True] zero_less_power [of "2::nat" k] by linarith
    then have "node_hash hl hn xs (?n - 2 ^ k) k = ?H (?n - 2 ^ k) k" by (simp add: node_hash_append)
    ultimately have get_left: "get (node_pos (?n - 2 ^ k) k) = Some (?H (?n - 2 ^ k) k)" by simp
    have hash: "hn (?H (?n - 2 ^ k) k, ?H ?n k) (node_pos ?n k + 1 - 1) = ?H ?n (Suc k)"
      by (simp add: node_pos_def)
    have nd: "node ?n (Suc k)" using less.prems(1) True by (simp add: node_bit)
    have "k < ?n" using bit_ge [OF True] less_exp [of k] by linarith
    then have "push_loop get hn ?n (Suc k) (node_pos ?n (Suc k)) (?H ?n (Suc k)) (hashes @ [?H ?n (Suc k)]) =
       Inr (mmr_size (Suc ?n), map (?H ?n) [0..<mmr_size (Suc ?n) - mmr_size ?n])"
      by (intro less.hyps nd) (simp_all add: less.prems(2))
    then show ?thesis unfolding Suc_eq_plus1 [of k] node_pos_Suc [unfolded Suc_eq_plus1]
      by (subst push_loop.simps)
        (simp only: and_bit True Let_def left get_left option.case hash [unfolded Suc_eq_plus1] if_True simp_thms)
  next
    case False
    then have "mmr_size (Suc ?n) = mmr_size ?n + k + 1"
      using mmr_size_carry_exact [OF less.prems(1)] by (simp add: node_bit)
    then show ?thesis
      by (subst push_loop.simps) (simp add: and_bit False less.prems(2) node_pos_def)
  qed
qed

lemma new_nodes:
  assumes "mmr_size n + j < mmr_size (Suc n)"
  shows "node n j"
proof -
  obtain m h where m: "node m h" "mmr_size n + j = mmr_size m + h" by (rule size_cases)
  have "\<not> m < n" using mmr_size_carry [OF m(1)] mmr_size_le_iff [of "Suc m" n] m(2) by auto
  moreover have "\<not> n < m" using assms mmr_size_le_iff [of "Suc n" m] m(2) by auto
  ultimately show ?thesis using m by (metis add_left_cancel linorder_neqE_nat)
qed

lemma range_hashes_snoc:
  "range_hashes hl hn (xs @ [x]) = range_hashes hl hn xs @
     map (node_hash hl hn (xs @ [x]) (length xs)) [0..<mmr_size (Suc (length xs)) - mmr_size (length xs)]"
proof (rule nth_equalityI)
  let ?n = "length xs"
  have lt: "mmr_size ?n < mmr_size (Suc ?n)" by (simp add: mmr_size_less_iff)
  then show "length (range_hashes hl hn (xs @ [x])) = length (range_hashes hl hn xs @
     map (node_hash hl hn (xs @ [x]) ?n) [0..<mmr_size (Suc ?n) - mmr_size ?n])" by simp
  fix i assume i: "i < length (range_hashes hl hn (xs @ [x]))"
  show "range_hashes hl hn (xs @ [x]) ! i = (range_hashes hl hn xs @
     map (node_hash hl hn (xs @ [x]) ?n) [0..<mmr_size (Suc ?n) - mmr_size ?n]) ! i"
  proof (cases "i < mmr_size ?n")
    case True
    then show ?thesis using i tree_hash_append [of "Suc i" xs hl hn "[x]"] by (simp add: nth_range_hashes nth_append)
  next
    case False
    define j where "j = i - mmr_size ?n"
    have ij: "Suc i = node_pos ?n j" using False by (simp add: j_def node_pos_def)
    have "node ?n j" using i False by (intro new_nodes) (simp add: j_def)
    then have "tree_hash hl hn (xs @ [x]) (Suc i) = node_hash hl hn (xs @ [x]) ?n j"
      unfolding ij by (rule tree_hash_node)
    then show ?thesis using i False by (simp add: nth_range_hashes nth_append j_def)
  qed
qed

lemma peaks_Suc: "set (peaks (mmr_size (Suc n))) \<subseteq> set (peaks (mmr_size n)) \<union> {mmr_size n<..mmr_size (Suc n)}"
proof -
  have "mmr_size n < mmr_size (Suc n)" by (simp add: mmr_size_less_iff)
  then show ?thesis unfolding set_peaks by auto
qed

text \<open>Rewinding to a position completes the parents of the leaf at it.\<close>

lemma rewind_pos_node: "node m h \<Longrightarrow> rewind_pos (node_pos m h) = mmr_size (Suc m)"
proof (induction "mmr_size (Suc m) - node_pos m h" arbitrary: h rule: less_induct)
  case less
  show ?case
  proof (cases "node m (Suc h)")
    case True
    have "node_pos m h < mmr_size (Suc m)" using mmr_size_carry [OF True] by (simp add: node_pos_def)
    then have "rewind_pos (node_pos m (Suc h)) = mmr_size (Suc m)"
      using True by (intro less.hyps) (simp_all add: node_pos_Suc)
    then show ?thesis
      using postorder_height_node [OF True] by (subst rewind_pos.simps) (simp add: node_pos_Suc)
  next
    case False
    then have e: "node_pos m h = mmr_size (Suc m)" using mmr_size_carry_exact [OF less.prems] by (simp add: node_pos_def)
    then have "node_pos m h + 1 = node_pos (Suc m) 0" by (simp add: node_pos_def)
    then have "bintree_postorder_height (node_pos m h + 1) = 0" using postorder_height_node [of "Suc m" 0] by simp
    then show ?thesis using e by (subst rewind_pos.simps) simp
  qed
qed

lemma rewind_pos_0: "rewind_pos 0 = 0"
  by (subst rewind_pos.simps) (simp add: bintree_postorder_height_def peak_map_height_def)

lemma map_filter_Some: "\<forall>x \<in> set xs. f x = Some (g x) \<Longrightarrow> List.map_filter f xs = map g xs"
  by (induction xs) (simp_all add: List.map_filter_simps)

lemma parent_hash:
  assumes "node m (Suc h)"
  shows "tree_hash hl hn xs (node_pos m (Suc h)) =
    hn (tree_hash hl hn xs (node_pos m (Suc h) - 2 ^ Suc h), tree_hash hl hn xs (node_pos m (Suc h) - 1)) (node_pos m (Suc h) - 1)"
proof -
  have n: "node m h" "bit m h" using assms by (simp_all add: node_bit)
  then have "node (m - 2 ^ h) h" using node_sib [of m h] by (simp add: sib_def)
  moreover have "node_pos m (Suc h) - 2 ^ Suc h = node_pos (m - 2 ^ h) h"
    using node_pos_clear_bit [OF n(2)] by (simp add: node_pos_Suc)
  moreover have "node_pos m (Suc h) - 1 = node_pos m h" by (simp add: node_pos_Suc)
  ultimately show ?thesis using assms n(1) by (simp add: tree_hash_node) (simp add: node_pos_def)
qed

section \<open>The contract of a backend\<close>

text \<open>The range over the elements \<open>xs\<close>, with at least the hashes of its peaks in the file.\<close>

definition pmmr_holds :: "('b \<Rightarrow> 'h list \<Rightarrow> 'e list \<Rightarrow> nat set \<Rightarrow> bool) \<Rightarrow> ('t \<Rightarrow> 'e) \<Rightarrow> ('t \<Rightarrow> u64 \<Rightarrow> 'h) \<Rightarrow> ('h \<times> 'h \<Rightarrow> u64 \<Rightarrow> 'h) \<Rightarrow> 'b pmmr \<Rightarrow> 't list \<Rightarrow> nat set \<Rightarrow> bool" where
  "pmmr_holds repr as_elmt hl hn p xs A \<longleftrightarrow> last_pos p = mmr_size (length xs) \<and> repr (pm_backend p) (range_hashes hl hn xs) (map as_elmt xs) A \<and>
     set (peaks (mmr_size (length xs))) \<subseteq> A"

text \<open>\<open>repr b H E A\<close>: the hashes \<open>H\<close> and the elements \<open>E\<close> of the leaves have been appended to \<open>b\<close>, and
  those at the positions \<open>A\<close> can still be read from the file. Appending an element that can be stored
  makes the new hashes readable; rewinding a store to which nothing has been appended since the last
  sync forgets the hashes behind the position, provided nothing behind it has been compacted. \<open>marks rm\<close>
  are the positions of the bitmap given to \<open>rewind\<close>.\<close>

locale pmmr_store =
  fixes B :: "('b, 't, 'e, 'h, 'bm) backend"
    and as_elmt :: "'t \<Rightarrow> 'e"
    and storable :: "'t \<Rightarrow> bool"
    and unwritten :: "'b \<Rightarrow> bool"
    and marks :: "'bm \<Rightarrow> nat set"
    and repr :: "'b \<Rightarrow> 'h list \<Rightarrow> 'e list \<Rightarrow> nat set \<Rightarrow> bool"
  assumes get_from_file: "repr b H E A \<Longrightarrow> 0 < p \<Longrightarrow> p \<le> length H \<Longrightarrow>
      be_get_from_file B b p = (if p \<in> A then Some (H ! (p - 1)) else None)"
    and get_data_from_file: "repr b H E A \<Longrightarrow> length H = mmr_size (length E) \<Longrightarrow> m < length E \<Longrightarrow>
      be_get_data_from_file B b (node_pos m 0) = (if node_pos m 0 \<in> A then Some (E ! m) else None)"
    and append_hashes: "repr b H E A \<Longrightarrow> length H = mmr_size (length E) \<Longrightarrow> storable x \<Longrightarrow>
      length hs = mmr_size (Suc (length E)) - mmr_size (length E) \<Longrightarrow> 2 * mmr_size (Suc (length E)) < u32_size \<Longrightarrow>
      \<exists>b'. be_append B b x hs = Inr b' \<and> repr b' (H @ hs) (E @ [as_elmt x]) (A \<union> {length H<..length H + length hs})"
    and rewind_hashes: "repr b H E A \<Longrightarrow> length H = mmr_size (length E) \<Longrightarrow> unwritten b \<Longrightarrow> k \<le> length E \<Longrightarrow>
      {mmr_size k<..mmr_size (length E)} \<subseteq> A \<Longrightarrow> marks rm \<subseteq> {..<u32_size} \<Longrightarrow>
      \<exists>b'. be_rewind B b (mmr_size k) rm = Inr b' \<and> repr b' (take (mmr_size k) H) (take k E) A \<and> unwritten b'"
begin

lemma holds_get:
  assumes "pmmr_holds repr as_elmt hl hn p xs A"
    and "0 < q" and "q \<le> mmr_size (length xs)"
  shows "be_get_from_file B (pm_backend p) q = (if q \<in> A then Some (tree_hash hl hn xs q) else None)"
  using get_from_file [of "pm_backend p" "range_hashes hl hn xs" "map as_elmt xs" A q] assms
  by (auto simp: pmmr_holds_def nth_range_hashes)

lemma holds_data:
  assumes "pmmr_holds repr as_elmt hl hn p xs A" and "m < length xs"
  shows "be_get_data_from_file B (pm_backend p) (node_pos m 0) = (if node_pos m 0 \<in> A then Some (as_elmt (xs ! m)) else None)"
  using get_data_from_file [of "pm_backend p" "range_hashes hl hn xs" "map as_elmt xs" A m] assms
  by (simp add: pmmr_holds_def)

lemma holds_peaks:
  assumes "pmmr_holds repr as_elmt hl hn p xs A"
  shows "\<forall>q \<in> set (peaks (mmr_size (length xs))). be_get_from_file B (pm_backend p) q = Some (tree_hash hl hn xs q)"
  using assms holds_get [OF assms] by (auto simp: pmmr_holds_def set_peaks)

lemma push_appends:
  assumes h: "pmmr_holds repr as_elmt hl hn p xs A"
    and hs: "hs = map (node_hash hl hn (xs @ [x]) (length xs)) [0..<mmr_size (Suc (length xs)) - mmr_size (length xs)]"
  shows "pmmr_push B hl hn p x = bind_res (be_append B (pm_backend p) x hs)
    (\<lambda>b. Inr (Suc (mmr_size (length xs)), \<lparr>last_pos = mmr_size (Suc (length xs)), pm_backend = b\<rparr>))"
proof -
  let ?n = "length xs"
  let ?H = "node_hash hl hn (xs @ [x]) ?n"
  have lp: "last_pos p = mmr_size ?n" using h by (simp add: pmmr_holds_def)
  have "push_loop (be_get_from_file B (pm_backend p)) hn ?n 0 (node_pos ?n 0) (?H 0) [?H 0] = Inr (mmr_size (Suc ?n), hs)"
    unfolding hs by (rule push_loop_hashes [OF holds_peaks [OF h]]) simp_all
  then show ?thesis
    using peak_map_height_node [of ?n 0] by (simp add: pmmr_push_def lp node_pos_def nth_append)
qed

lemma push_holds:
  assumes h: "pmmr_holds repr as_elmt hl hn p xs A" and x: "storable x" and small: "2 * mmr_size (Suc (length xs)) < u32_size"
  shows "\<exists>p'. pmmr_push B hl hn p x = Inr (Suc (mmr_size (length xs)), p') \<and>
    pmmr_holds repr as_elmt hl hn p' (xs @ [x]) (A \<union> {mmr_size (length xs)<..mmr_size (Suc (length xs))})"
proof -
  let ?n = "length xs"
  let ?hs = "map (node_hash hl hn (xs @ [x]) ?n) [0..<mmr_size (Suc ?n) - mmr_size ?n]"
  have lt: "mmr_size ?n < mmr_size (Suc ?n)" by (simp add: mmr_size_less_iff)
  have R: "repr (pm_backend p) (range_hashes hl hn xs) (map as_elmt xs) A" and pk: "set (peaks (mmr_size ?n)) \<subseteq> A"
    using h by (simp_all add: pmmr_holds_def)
  obtain b where b: "be_append B (pm_backend p) x ?hs = Inr b"
      "repr b (range_hashes hl hn xs @ ?hs) (map as_elmt (xs @ [x])) (A \<union> {mmr_size ?n<..mmr_size ?n + length ?hs})"
    using append_hashes [OF R _ x, of ?hs] small by auto
  have "pmmr_holds repr as_elmt hl hn \<lparr>last_pos = mmr_size (Suc ?n), pm_backend = b\<rparr> (xs @ [x])
      (A \<union> {mmr_size ?n<..mmr_size (Suc ?n)})"
    using b(2) pk peaks_Suc [of ?n] lt by (auto simp: pmmr_holds_def range_hashes_snoc)
  then show ?thesis using push_appends [OF h refl, of x] b(1) by simp
qed

lemma root_holds:
  assumes h: "pmmr_holds repr as_elmt hl hn p xs A"
  shows "pmmr_root B hn zero_hash p = range_root hl hn zero_hash xs"
proof -
  have "last_pos p = mmr_size (length xs)" using h by (simp add: pmmr_holds_def)
  moreover have "mmr_size (length xs) = 0 \<longleftrightarrow> xs = []" using mmr_size_ge [of "length xs"] by auto
  ultimately show ?thesis
    using map_filter_Some [OF holds_peaks [OF h]]
    by (simp add: pmmr_root_def pmmr_is_empty_def pmmr_unpruned_size_def pmmr_peaks_def range_root_def)
qed

lemma rewind_holds:
  assumes h: "pmmr_holds repr as_elmt hl hn p xs A" and u: "unwritten (pm_backend p)" and k: "k \<le> length xs"
    and pos: "rewind_pos position = mmr_size k"
    and A: "{mmr_size k<..mmr_size (length xs)} \<union> set (peaks (mmr_size k)) \<subseteq> A" and rm: "marks rm \<subseteq> {..<u32_size}"
  shows "\<exists>p'. pmmr_rewind B p position rm = Inr p' \<and> pmmr_holds repr as_elmt hl hn p' (take k xs) A \<and> unwritten (pm_backend p')"
proof -
  have R: "repr (pm_backend p) (range_hashes hl hn xs) (map as_elmt xs) A" using h by (simp add: pmmr_holds_def)
  obtain b where "be_rewind B (pm_backend p) (mmr_size k) rm = Inr b"
      "repr b (take (mmr_size k) (range_hashes hl hn xs)) (map as_elmt (take k xs)) A" "unwritten b"
    using rewind_hashes [OF R _ u, of k rm] A k rm by (auto simp: take_map)
  moreover have "take (mmr_size k) (range_hashes hl hn xs) = range_hashes hl hn (take k xs)"
    using take_range_hashes [of hl hn "take k xs" "drop k xs"] k by (simp add: min_absorb2)
  ultimately show ?thesis using pos A k by (simp add: pmmr_rewind_def pmmr_holds_def min_absorb2)
qed

lemma validate_holds:
  assumes h: "pmmr_holds repr as_elmt hl hn p xs A"
  shows "pmmr_validate B hn p = Inr ()"
proof -
  have "validate_node B hn p q" if q0: "0 < q" "q \<le> last_pos p" for q
  proof -
    obtain m j where q: "node m j" "q = node_pos m j" using node_cases [OF q0(1)] .
    show ?thesis
    proof (cases j)
      case 0
      then show ?thesis using q by (simp add: validate_node_def postorder_height_node)
    next
      case (Suc i)
      have "tree_hash hl hn xs q = hn (tree_hash hl hn xs (q - 2 ^ j), tree_hash hl hn xs (q - 1)) (q - 1)"
        using parent_hash [of m i hl hn xs] q unfolding Suc by simp
      moreover have "q - 2 ^ j = node_pos (m - 2 ^ i) i" "q - 1 = node_pos m i"
        using node_pos_clear_bit [of m i] q Suc by (simp_all add: node_bit node_pos_Suc)
      then have "0 < q - 2 ^ j" "0 < q - 1" by (simp_all only: node_pos_gt_0)
      then have "be_get_from_file B (pm_backend p) r = Some a \<Longrightarrow> a = tree_hash hl hn xs r"
        if "r \<in> {q, q - 1, q - 2 ^ j}" for r a
      proof -
        have "0 < r" "r \<le> mmr_size (length xs)" using that q0 h \<open>0 < q - 2 ^ j\<close> \<open>0 < q - 1\<close> by (auto simp: pmmr_holds_def)
        then show "be_get_from_file B (pm_backend p) r = Some a \<Longrightarrow> a = tree_hash hl hn xs r"
          using holds_get [OF h, of r] by (simp split: if_splits)
      qed
      ultimately show ?thesis
        using q Suc by (auto simp: validate_node_def pmmr_get_hash_def pmmr_get_from_file_def
            is_leaf_node postorder_height_node split: option.splits if_splits)
    qed
  qed
  then show ?thesis by (auto simp: pmmr_validate_def list_all_iff)
qed

end

text \<open>A store whose leaves can be removed: the live ones are read through \<open>get_hash\<close> and \<open>get_data\<close>.\<close>

locale prunable_store = pmmr_store +
  fixes live :: "'a \<Rightarrow> nat set"
  assumes get_hash_live: "repr b H E A \<Longrightarrow> 0 < p \<Longrightarrow> p \<le> length H \<Longrightarrow> is_leaf p \<Longrightarrow>
      be_get_hash B b p = (if p \<in> live b then be_get_from_file B b p else None)"
    and get_data_live: "repr b H E A \<Longrightarrow> 0 < p \<Longrightarrow> p \<le> length H \<Longrightarrow> is_leaf p \<Longrightarrow>
      be_get_data B b p = (if p \<in> live b then be_get_data_from_file B b p else None)"
    and iter_live: "repr b H E A \<Longrightarrow> be_leaf_pos_iter B b = Some (sorted_list_of_set (live b))"
    and remove_live: "repr b H E A \<Longrightarrow> 0 < p \<Longrightarrow> p \<le> length H \<Longrightarrow>
      \<exists>b'. be_remove B b p = Some (Inr b') \<and> repr b' H E A \<and> live b' = live b - {p} \<and> unwritten b' = unwritten b"
    and append_live: "repr b H E A \<Longrightarrow> length H = mmr_size (length E) \<Longrightarrow> storable x \<Longrightarrow>
      length hs = mmr_size (Suc (length E)) - mmr_size (length E) \<Longrightarrow> 2 * mmr_size (Suc (length E)) < u32_size \<Longrightarrow>
      be_append B b x hs = Inr b' \<Longrightarrow> live b' = insert (Suc (length H)) (live b)"
    and rewind_live: "repr b H E A \<Longrightarrow> length H = mmr_size (length E) \<Longrightarrow> unwritten b \<Longrightarrow> k \<le> length E \<Longrightarrow>
      {mmr_size k<..mmr_size (length E)} \<subseteq> A \<Longrightarrow> marks rm \<subseteq> {..<u32_size} \<Longrightarrow>
      be_rewind B b (mmr_size k) rm = Inr b' \<Longrightarrow> live b' = {x \<in> live b. x \<le> mmr_size k} \<union> marks rm"
begin

lemma data_holds:
  assumes h: "pmmr_holds repr as_elmt hl hn p xs A" and m: "m < length xs"
  shows "pmmr_get_data B p (node_pos m 0) =
    (if node_pos m 0 \<in> live (pm_backend p) \<inter> A then Some (as_elmt (xs ! m)) else None)"
  using holds_data [OF h m] h m node_pos_le_size [of m 0 "length xs"]
    get_data_live [of "pm_backend p" "range_hashes hl hn xs" "map as_elmt xs" A "node_pos m 0"]
  by (simp add: pmmr_get_data_def pmmr_holds_def is_leaf_node not_less)

lemma prune_holds:
  assumes h: "pmmr_holds repr as_elmt hl hn p xs A" and m: "m < length xs"
  shows "\<exists>p'. pmmr_prune B p (node_pos m 0) = Some (Inr (node_pos m 0 \<in> live (pm_backend p) \<inter> A, p')) \<and>
    pmmr_holds repr as_elmt hl hn p' xs A \<and> live (pm_backend p') \<inter> A = live (pm_backend p) \<inter> A - {node_pos m 0} \<and>
    unwritten (pm_backend p') = unwritten (pm_backend p)"
proof -
  let ?q = "node_pos m 0"
  have R: "repr (pm_backend p) (range_hashes hl hn xs) (map as_elmt xs) A" using h by (simp add: pmmr_holds_def)
  have q: "0 < ?q" "?q \<le> mmr_size (length xs)" "is_leaf ?q" using m by (simp_all add: node_pos_le_size is_leaf_node)
  have hash: "be_get_hash B (pm_backend p) ?q = (if ?q \<in> live (pm_backend p) \<inter> A then Some (tree_hash hl hn xs ?q) else None)"
    using get_hash_live [OF R q(1) _ q(3)] holds_get [OF h q(1,2)] q(2) by simp
  obtain b where "be_remove B (pm_backend p) ?q = Some (Inr b)" "repr b (range_hashes hl hn xs) (map as_elmt xs) A"
      "live b = live (pm_backend p) - {?q}" "unwritten b = unwritten (pm_backend p)"
    using remove_live [OF R q(1)] q(2) by auto
  then show ?thesis using hash h q(3) by (auto simp: pmmr_prune_def pmmr_holds_def)
qed

lemma push_live:
  assumes h: "pmmr_holds repr as_elmt hl hn p xs A" and x: "storable x" and small: "2 * mmr_size (Suc (length xs)) < u32_size"
    and p': "pmmr_push B hl hn p x = Inr (pos, p')"
  shows "live (pm_backend p') = insert (node_pos (length xs) 0) (live (pm_backend p))"
proof -
  let ?hs = "map (node_hash hl hn (xs @ [x]) (length xs)) [0..<mmr_size (Suc (length xs)) - mmr_size (length xs)]"
  have "be_append B (pm_backend p) x ?hs = Inr (pm_backend p')"
    using p' push_appends [OF h refl, of x] by (auto simp: bind_res_Inr_iff)
  moreover have "repr (pm_backend p) (range_hashes hl hn xs) (map as_elmt xs) A" using h by (simp add: pmmr_holds_def)
  ultimately show ?thesis using append_live [of "pm_backend p" "range_hashes hl hn xs" "map as_elmt xs" A x ?hs] x small
    by (simp add: node_pos_def)
qed

lemma rewind_live_holds:
  assumes h: "pmmr_holds repr as_elmt hl hn p xs A" and u: "unwritten (pm_backend p)" and k: "k \<le> length xs" "rewind_pos position = mmr_size k"
    and A: "{mmr_size k<..mmr_size (length xs)} \<subseteq> A" and rm: "marks rm \<subseteq> {..<u32_size}" and p': "pmmr_rewind B p position rm = Inr p'"
  shows "live (pm_backend p') = {x \<in> live (pm_backend p). x \<le> mmr_size k} \<union> marks rm"
proof -
  have "be_rewind B (pm_backend p) (mmr_size k) rm = Inr (pm_backend p')"
    using p' k(2) by (auto simp: pmmr_rewind_def Let_def bind_res_Inr_iff)
  moreover have "repr (pm_backend p) (range_hashes hl hn xs) (map as_elmt xs) A" using h by (simp add: pmmr_holds_def)
  ultimately show ?thesis
    using rewind_live [of "pm_backend p" "range_hashes hl hn xs" "map as_elmt xs" A k rm] k(1) rm u A by simp
qed

end

end
