(* ===== verification/Merkle_Proof.thy ===== *)
theory Merkle_Proof
  imports Pmmr
begin

text \<open>
  Merkle proofs, \<open>core/src/core/merkle_proof.rs\<close>. An element enters verification through its
  \<open>hash_with_index\<close> only, so it is a function from the index to the hash; the pairs of hashes
  built on the way up are such functions too.
\<close>

section \<open>Definitions\<close>

datatype merkle_proof_error = RootMismatch

definition merkle_proof_empty :: "'h merkle_proof" where
  "merkle_proof_empty = \<lparr>mp_mmr_size = 0, mp_path = []\<rparr>"

text \<open>\<open>slice::binary_search\<close> on an ascending list without duplicates: the index of the element.\<close>

fun binary_search :: "u64 list \<Rightarrow> u64 \<Rightarrow> nat option" where
  "binary_search [] x = None"
| "binary_search (y # ys) x = (if x = y then Some 0 else map_option Suc (binary_search ys x))"

text \<open>\<open>verify_consume\<close> removes the first hash of the path and calls \<open>verify\<close> on the rest, which
  computes the peaks of the same size again.\<close>

fun verify_consume :: "('h \<times> 'h \<Rightarrow> u64 \<Rightarrow> 'h) \<Rightarrow> u64 \<Rightarrow> 'h list \<Rightarrow> 'h \<Rightarrow> (u64 \<Rightarrow> 'h) \<Rightarrow> u64 \<Rightarrow> u64 list \<Rightarrow> merkle_proof_error + unit" where
  "verify_consume hn sz [] root element npos peaks_pos =
     (let nhash = (if npos > sz then element sz else element (u64_sub npos 1))
      in if root = nhash then Inr () else Inl RootMismatch)"
| "verify_consume hn sz (sibling # rest) root element npos peaks_pos =
     (let nhash = (if npos > sz then element sz else element (u64_sub npos 1));
          (parent_pos, sibling_pos) = family npos;
          parent = (case binary_search peaks_pos npos of
              Some x \<Rightarrow> (if x = length peaks_pos - 1 then (sibling, nhash) else (nhash, sibling))
            | None \<Rightarrow> (if parent_pos > sz then (sibling, nhash)
                else if is_left_sibling sibling_pos then (sibling, nhash) else (nhash, sibling)))
      in verify_consume hn sz rest root (hn parent) parent_pos (peaks sz))"

definition merkle_verify :: "('h \<times> 'h \<Rightarrow> u64 \<Rightarrow> 'h) \<Rightarrow> 'h merkle_proof \<Rightarrow> 'h \<Rightarrow> (u64 \<Rightarrow> 'h) \<Rightarrow> u64 \<Rightarrow> merkle_proof_error + unit" where
  "merkle_verify hn proof root element npos =
     verify_consume hn (mp_mmr_size proof) (mp_path proof) root element npos (peaks (mp_mmr_size proof))"

section \<open>Bagging\<close>

lemma bag_Nil [simp]: "bag hn sz [] = None"
  by (simp add: bag_def)

lemma bag_Cons: "bag hn sz (h # hs) = Some (case bag hn sz hs of None \<Rightarrow> h | Some r \<Rightarrow> hn (h, r) sz)"
  by (simp add: bag_def split: option.splits)

text \<open>Hashing the left peaks, nearest first, onto the bagged rest.\<close>

definition fold_left_peaks :: "('h \<times> 'h \<Rightarrow> u64 \<Rightarrow> 'h) \<Rightarrow> u64 \<Rightarrow> 'h list \<Rightarrow> 'h \<Rightarrow> 'h" where
  "fold_left_peaks hn sz ls acc = fold (\<lambda>l acc. hn (l, acc) sz) ls acc"

lemma bag_append:
  "bag hn sz rs = Some r \<Longrightarrow> bag hn sz (ls @ rs) = Some (fold_left_peaks hn sz (rev ls) r)"
  by (induction ls) (simp_all add: bag_Cons fold_left_peaks_def)

section \<open>Verification above the peaks\<close>

lemma u64_sub_node_pos [simp]: "u64_sub (node_pos m h) (Suc 0) = node_pos m h - Suc 0"
  by (simp add: width Suc_le_eq)

lemma binary_search_None: "binary_search xs x = None \<longleftrightarrow> x \<notin> set xs"
  by (induction xs) auto

lemma binary_search_split: "x \<notin> set ls \<Longrightarrow> binary_search (ls @ x # rs) x = Some (length ls)"
  by (induction ls) auto

lemma family_beyond: "0 < pos \<Longrightarrow> pos < fst (family pos)"
  using node_cases [of pos] family_node node_pos_par by (metis fst_conv)

lemma verify_beyond:
  assumes "sz < pos"
  shows "verify_consume hn sz ls root element pos (peaks sz) =
    (if root = fold_left_peaks hn sz ls (element sz) then Inr () else Inl RootMismatch)"
  using assms
proof (induction ls arbitrary: pos element)
  case Nil
  then show ?case by (simp add: fold_left_peaks_def)
next
  case (Cons l ls)
  have "pos \<notin> set (peaks sz)"
    using Cons.prems peaks_inside [of pos sz] by auto
  then have "binary_search (peaks sz) pos = None" by (simp add: binary_search_None)
  moreover obtain parent sibling where f: "family pos = (parent, sibling)" by fastforce
  moreover have "sz < parent" using family_beyond [of pos] Cons.prems f by simp
  ultimately show ?case using Cons by (simp add: fold_left_peaks_def)
qed

section \<open>Verification inside a tree\<close>

lemma verify_cong:
  assumes "e1 (if pos > sz then sz else pos - 1) = e2 (if pos > sz then sz else pos - 1)" and "0 < pos"
  shows "verify_consume hn sz hs root e1 pos pks = verify_consume hn sz hs root e2 pos pks"
  using assms by (cases hs) (simp_all add: width split: if_splits)

lemma node_hash_par:
  "node_hash hl hn xs (par m h) (Suc h) =
     hn (if bit m h then (node_hash hl hn xs (sib m h) h, node_hash hl hn xs m h)
         else (node_hash hl hn xs m h, node_hash hl hn xs (sib m h) h)) (node_pos (par m h) (Suc h) - 1)"
  by (simp add: par_def sib_def node_pos_def)

lemma verify_inside:
  assumes m: "node m h" and p: "node_pos (par m h) (Suc h) \<le> mmr_size n"
    and e: "element (node_pos m h - 1) = node_hash hl hn xs m h"
  shows "verify_consume hn (mmr_size n) (node_hash hl hn xs (sib m h) h # rest) root element (node_pos m h) (peaks (mmr_size n)) =
    verify_consume hn (mmr_size n) rest root (\<lambda>_. node_hash hl hn xs (par m h) (Suc h)) (node_pos (par m h) (Suc h)) (peaks (mmr_size n))"
proof -
  let ?sz = "mmr_size n"
  have le: "node_pos m h \<le> ?sz" using node_pos_par [of m h] p by linarith
  have "node_pos m h \<notin> set (peaks ?sz)" using p by (simp add: set_peaks family_node [OF m])
  then have bs: "binary_search (peaks ?sz) (node_pos m h) = None" by (simp add: binary_search_None)
  have left: "is_left_sibling (node_pos (sib m h) h) \<longleftrightarrow> bit m h"
    using is_left_sibling_node [OF node_sib [OF m]] by simp
  have "verify_consume hn ?sz (node_hash hl hn xs (sib m h) h # rest) root element (node_pos m h) (peaks ?sz) =
    verify_consume hn ?sz rest root
      (hn (if bit m h then (node_hash hl hn xs (sib m h) h, node_hash hl hn xs m h)
         else (node_hash hl hn xs m h, node_hash hl hn xs (sib m h) h)))
      (node_pos (par m h) (Suc h)) (peaks ?sz)"
    using le p e by (simp add: family_node [OF m] bs left width)
  also have "\<dots> = verify_consume hn ?sz rest root (\<lambda>_. node_hash hl hn xs (par m h) (Suc h))
      (node_pos (par m h) (Suc h)) (peaks ?sz)"
    by (rule verify_cong) (use p node_hash_par [of hl hn xs m h] in \<open>simp_all del: node_hash.simps\<close>)
  finally show ?thesis .
qed

text \<open>Consuming the siblings of the branch leads to the peak of the tree.\<close>

lemma verify_branch:
  assumes "node m h" and "node_pos m h \<le> mmr_size n" and "element (node_pos m h - 1) = node_hash hl hn xs m h"
  shows "\<exists>m' h'. node m' h' \<and> node_pos m' h' \<in> set (peaks (mmr_size n)) \<and>
    node_pos m' h' = (if family_branch (node_pos m h) (mmr_size n) = [] then node_pos m h
                      else fst (last (family_branch (node_pos m h) (mmr_size n)))) \<and>
    verify_consume hn (mmr_size n)
      (map (tree_hash hl hn xs \<circ> snd) (family_branch (node_pos m h) (mmr_size n)) @ rest) root element (node_pos m h) (peaks (mmr_size n)) =
    verify_consume hn (mmr_size n) rest root (\<lambda>_. node_hash hl hn xs m' h') (node_pos m' h') (peaks (mmr_size n))"
  using assms
proof (induction "mmr_size n - node_pos m h" arbitrary: m h element rule: less_induct)
  case less
  let ?sz = "mmr_size n"
  let ?p = "node_pos (par m h) (Suc h)"
  show ?case
  proof (cases "?p \<le> ?sz")
    case True
    have ih: "\<exists>m' h'. node m' h' \<and> node_pos m' h' \<in> set (peaks ?sz) \<and>
      node_pos m' h' = (if family_branch ?p ?sz = [] then ?p else fst (last (family_branch ?p ?sz))) \<and>
      verify_consume hn ?sz (map (tree_hash hl hn xs \<circ> snd) (family_branch ?p ?sz) @ rest) root
        (\<lambda>_. node_hash hl hn xs (par m h) (Suc h)) ?p (peaks ?sz) =
      verify_consume hn ?sz rest root (\<lambda>_. node_hash hl hn xs m' h') (node_pos m' h') (peaks ?sz)"
      using True node_pos_par [of m h] node_par [OF less.prems(1)] by (intro less.hyps) auto
    have fb: "family_branch (node_pos m h) ?sz = (?p, node_pos (sib m h) h) # family_branch ?p ?sz"
      using family_branch_node [OF less.prems(1), of ?sz] True by simp
    have step: "verify_consume hn ?sz (map (tree_hash hl hn xs \<circ> snd) (family_branch (node_pos m h) ?sz) @ rest)
        root element (node_pos m h) (peaks ?sz) =
      verify_consume hn ?sz (map (tree_hash hl hn xs \<circ> snd) (family_branch ?p ?sz) @ rest) root
        (\<lambda>_. node_hash hl hn xs (par m h) (Suc h)) ?p (peaks ?sz)"
      using verify_inside [OF less.prems(1) True, of element hl hn xs] less.prems(3)
        tree_hash_node [OF node_sib [OF less.prems(1)], of hl hn xs]
      unfolding fb by (simp del: verify_consume.simps node_hash.simps)
    have last: "(if family_branch (node_pos m h) ?sz = [] then node_pos m h else fst (last (family_branch (node_pos m h) ?sz)))
      = (if family_branch ?p ?sz = [] then ?p else fst (last (family_branch ?p ?sz)))" unfolding fb by simp
    show ?thesis unfolding step last by (rule ih)
  next
    case False
    then have "node_pos m h \<in> set (peaks ?sz)" using less.prems by (simp add: set_peaks family_node)
    moreover have "family_branch (node_pos m h) ?sz = []"
      using family_branch_node [OF less.prems(1), of ?sz] False by simp
    moreover have "verify_consume hn ?sz rest root element (node_pos m h) (peaks ?sz) =
      verify_consume hn ?sz rest root (\<lambda>_. node_hash hl hn xs m h) (node_pos m h) (peaks ?sz)"
      by (rule verify_cong) (use less.prems in simp_all)
    ultimately show ?thesis using less.prems(1) by auto
  qed
qed

text \<open>At a peak, the proof goes on with the bagged peaks to the right, if there are any, and then
  with the peaks to the left.\<close>

lemma verify_peak:
  assumes pk: "peaks (mmr_size n) = ls @ node_pos m h # rs" and nd: "node m h" and d: "node_pos m h \<notin> set ls"
    and le: "node_pos m h \<le> mmr_size n"
    and path: "pth = (case bag hn (mmr_size n) rhs of None \<Rightarrow> rev lhs | Some r \<Rightarrow> r # rev lhs)"
    and len: "rhs = [] \<longleftrightarrow> rs = []" and root: "bag hn (mmr_size n) (lhs @ k # rhs) = Some root"
  shows "verify_consume hn (mmr_size n) pth root (\<lambda>_. k) (node_pos m h) (peaks (mmr_size n)) = Inr ()"
proof -
  let ?sz = "mmr_size n"
  have bs: "binary_search (peaks ?sz) (node_pos m h) = Some (length ls)" unfolding pk using d by (rule binary_search_split)
  have len: "length (peaks ?sz) - 1 = length ls \<longleftrightarrow> rhs = []" using len unfolding pk by simp
  have beyond: "?sz < node_pos (par m h) (Suc h)"
  proof -
    have "node_pos m h \<in> set (peaks ?sz)" unfolding pk by simp
    then show ?thesis unfolding set_peaks by (simp add: family_node [OF nd])
  qed
  obtain r where r: "bag hn ?sz (k # rhs) = Some r" by (simp add: bag_Cons)
  then have root': "root = fold_left_peaks hn ?sz (rev lhs) r" using bag_append [OF r, of lhs] root by simp
  show ?thesis
  proof (cases "bag hn ?sz rhs")
    case None
    then have rhs: "rhs = []" by (cases rhs) (simp_all add: bag_Cons)
    then have "r = k" using r by (simp add: bag_Cons)
    show ?thesis
    proof (cases "rev lhs")
      case Nil
      then show ?thesis using None path le root' \<open>r = k\<close> by (simp add: fold_left_peaks_def)
    next
      case (Cons l ls')
      then show ?thesis
        using None path le root' \<open>r = k\<close> len rhs beyond
        by (simp add: family_node [OF nd] bs verify_beyond) (simp add: fold_left_peaks_def)
    qed
  next
    case (Some r')
    then have "rhs \<noteq> []" by auto
    moreover have "r = hn (k, r') ?sz" using r Some by (simp add: bag_Cons)
    ultimately show ?thesis
      using Some path le root' len beyond by (auto simp: family_node [OF nd] bs verify_beyond)
  qed
qed

section \<open>Proofs built by a range verify\<close>

lemma sorted_split:
  fixes xs :: "nat list"
  assumes "sorted_wrt (<) xs" and "x \<in> set xs"
  shows "xs = filter (\<lambda>y. y < x) xs @ x # filter (\<lambda>y. y > x) xs"
  using assms
proof (induction xs)
  case (Cons y ys)
  show ?case
  proof (cases "x = y")
    case True
    then have "filter (\<lambda>z. z < x) ys = []" "filter (\<lambda>z. z > x) ys = ys" using Cons.prems(1)
      by (auto simp: filter_empty_conv filter_id_conv)
    with True show ?thesis by simp
  next
    case False
    then have "x \<in> set ys" "y < x" "\<not> x < y" using Cons.prems by auto
    with Cons show ?thesis by simp
  qed
qed simp

lemma sorted_peaks_size: "sorted_wrt (<) (peaks (mmr_size n))"
  using peaks_node [of n 0] sorted_peaks [of n] by simp

lemma family_branch_siblings:
  assumes "node m h" and "x \<in> set (family_branch (node_pos m h) lst)"
  shows "0 < snd x \<and> snd x \<le> lst"
  using assms
proof (induction "lst - node_pos m h" arbitrary: m h rule: less_induct)
  case less
  let ?p = "node_pos (par m h) (Suc h)"
  have le: "?p \<le> lst" and x: "x = (?p, node_pos (sib m h) h) \<or> x \<in> set (family_branch ?p lst)"
    using less.prems family_branch_node [of m h lst] by (auto split: if_splits)
  have "node_pos (sib m h) h < ?p" using node_pos_par [of "sib m h" h] by simp
  with x le show ?case
    using less.hyps [of "par m h" "Suc h"] node_pos_par [of m h] node_par [OF less.prems(1)] by auto
qed

context pmmr_store
begin

lemma merkle_proof_verifies:
  assumes h: "pmmr_holds repr as_elmt hl hn p xs A" and m: "m < length xs"
    and leaf: "be_get_hash B (pm_backend p) (node_pos m 0) \<noteq> None"
    and sibs: "snd ` set (family_branch (node_pos m 0) (last_pos p)) \<subseteq> A"
    and root: "pmmr_root B hn zero_hash p = Some root"
  shows "\<exists>proof. pmmr_merkle_proof B hn p (node_pos m 0) = Inr proof \<and> mp_mmr_size proof = last_pos p \<and>
    merkle_verify hn proof root (hl (xs ! m)) (node_pos m 0) = Inr ()"
proof -
  let ?sz = "mmr_size (length xs)"
  let ?pos = "node_pos m 0"
  let ?fb = "family_branch ?pos ?sz"
  let ?T = "tree_hash hl hn xs"
  have lp: "last_pos p = ?sz" using h by (simp add: pmmr_holds_def)
  have le: "?pos \<le> ?sz" using m by (simp add: node_pos_le_size)
  define k where "k = (if ?fb = [] then ?pos else fst (last ?fb))"
  have path: "List.map_filter (\<lambda>x. pmmr_get_from_file B p (snd x)) ?fb = map (?T \<circ> snd) ?fb"
  proof (intro map_filter_Some ballI)
    fix x assume x: "x \<in> set ?fb"
    then have "snd x \<in> A" using sibs unfolding lp by blast
    with family_branch_siblings [OF node_0 x] show "pmmr_get_from_file B p (snd x) = Some ((?T \<circ> snd) x)"
      by (simp add: pmmr_get_from_file_def holds_get [OF h] lp)
  qed
  obtain m' h' where k: "node m' h'" "node_pos m' h' \<in> set (peaks ?sz)" "k = node_pos m' h'"
    and branch: "verify_consume hn ?sz (map (?T \<circ> snd) ?fb @ peak_path B hn p k) root (hl (xs ! m)) ?pos (peaks ?sz) =
      verify_consume hn ?sz (peak_path B hn p k) root (\<lambda>_. node_hash hl hn xs m' h') k (peaks ?sz)"
    using verify_branch [of m 0 "length xs" "hl (xs ! m)" hl hn xs "peak_path B hn p k" root] le
    unfolding k_def by (auto simp: node_pos_def simp del: verify_consume.simps)
  define ls where "ls = filter (\<lambda>y. y < k) (peaks ?sz)"
  define rs where "rs = filter (\<lambda>y. y > k) (peaks ?sz)"
  have split: "peaks ?sz = ls @ k # rs"
    unfolding ls_def rs_def using sorted_split [OF sorted_peaks_size] k by simp
  have maps: "List.map_filter (be_get_from_file B (pm_backend p)) ls = map ?T ls"
    "List.map_filter (be_get_from_file B (pm_backend p)) rs = map ?T rs"
    using holds_peaks [OF h] by (auto intro!: map_filter_Some simp: ls_def rs_def)
  have "verify_consume hn ?sz (peak_path B hn p k) root (\<lambda>_. node_hash hl hn xs m' h') k (peaks ?sz) = Inr ()"
    unfolding k(3)
  proof (rule verify_peak [where lhs = "map ?T ls" and rhs = "map ?T rs" and ls = ls and rs = rs])
    show "peaks ?sz = ls @ node_pos m' h' # rs" using split unfolding k(3) .
    show "peak_path B hn p (node_pos m' h') =
        (case bag hn ?sz (map ?T rs) of None \<Rightarrow> rev (map ?T ls) | Some r \<Rightarrow> r # rev (map ?T ls))"
      using maps unfolding ls_def rs_def k(3) by (simp add: peak_path_def bag_the_rhs_def lp Let_def)
    have "xs \<noteq> []" using m by auto
    then show "bag hn ?sz (map ?T ls @ node_hash hl hn xs m' h' # map ?T rs) = Some root"
      using root root_holds [OF h, of zero_hash] k(1)
      by (simp add: range_root_def split k(3) tree_hash_node)
  qed (use k in \<open>auto simp: ls_def set_peaks\<close>)
  then show ?thesis
    using branch leaf le path unfolding k_def
    by (simp add: pmmr_merkle_proof_def is_leaf_node pmmr_get_hash_def lp merkle_verify_def pmmr_unpruned_size_def
        Let_def del: verify_consume.simps split: option.splits)
qed

end

end
