(* ===== verification/Pow_Codec.thy ===== *)
theory Pow_Codec
  imports Feijoada
begin

unbundle bit_operations_syntax

text \<open>
  The binary forms of the proof-of-work data: \<open>Difficulty\<close>, \<open>Proof\<close> with its bit vector and
  \<open>ProofOfWork\<close> of \<open>core/src/pow/types.rs\<close>, and \<open>Policy\<close> of \<open>core/src/core/block/feijoada.rs\<close>;
  then the difficulty that a proof achieves. The hash function of a proof is the parameter
  \<open>hash\<close>, the external ProgPow value the parameter \<open>progpow_value\<close>.
\<close>

section \<open>Dictionaries\<close>

text \<open>The entries of a dictionary in the order of the algorithms, and the loop that reads them.\<close>

definition dict_entries :: "(pow_type \<rightharpoonup> nat) \<Rightarrow> (pow_type \<times> nat) list" where
  "dict_entries m = List.map_filter (\<lambda>p. map_option (Pair p) (m p)) pow_types"

fun read_dict :: "(pow_type \<times> nat) read \<Rightarrow> nat \<Rightarrow> (pow_type \<rightharpoonup> nat) \<Rightarrow> (pow_type \<rightharpoonup> nat) read" where
  "read_dict get 0 result = read_ok result"
| "read_dict get (Suc len) result = read_bind get (\<lambda>(p, count). read_dict get len (result(p \<mapsto> count)))"

definition write_difficulty :: "difficulty \<Rightarrow> u8 list" where
  "write_difficulty d =
     (let diff_vec = dict_entries (num d)
      in write_u64 (length diff_vec) @ write_vec (\<lambda>(algo, n). write_u8 (pow_to_u8 algo) @ write_u64 n) diff_vec)"

definition read_difficulty_entry :: "(pow_type \<times> u64) read" where
  "read_difficulty_entry =
     read_bind read_u8 (\<lambda>pow. read_bind read_u64 (\<lambda>count.
       case pow_try_from pow of Inl e \<Rightarrow> read_err e | Inr pow_type \<Rightarrow> read_ok (pow_type, count)))"

definition read_difficulty :: "difficulty read" where
  "read_difficulty =
     read_bind read_u64 (\<lambda>len. read_bind (read_dict read_difficulty_entry len Map.empty) (\<lambda>result. read_ok \<lparr>num = result\<rparr>))"

definition write_policy :: "policy \<Rightarrow> u8 list" where
  "write_policy p =
     (let policy_vec = dict_entries p
      in write_u64 (length policy_vec) @
         write_vec (\<lambda>(algo, n). write_u8 (case algo of Cuckaroo \<Rightarrow> 0 | Cuckatoo \<Rightarrow> 1 | RandomX \<Rightarrow> 2 | ProgPow \<Rightarrow> 3) @ write_u32 n) policy_vec)"

definition read_policy_entry :: "(pow_type \<times> u32) read" where
  "read_policy_entry =
     read_bind read_u8 (\<lambda>b.
       if b = 0 then read_bind read_u32 (\<lambda>count. read_ok (Cuckaroo, count))
       else if b = 1 then read_bind read_u32 (\<lambda>count. read_ok (Cuckatoo, count))
       else if b = 2 then read_bind read_u32 (\<lambda>count. read_ok (RandomX, count))
       else if b = 3 then read_bind read_u32 (\<lambda>count. read_ok (ProgPow, count))
       else read_err CorruptedData)"

definition read_policy :: "policy read" where
  "read_policy = read_bind read_u64 (\<lambda>len. read_dict read_policy_entry len Map.empty)"

section \<open>Bit vectors\<close>

definition bytes_len :: "usize \<Rightarrow> usize" where
  "bytes_len bits_len = (bits_len + 7) div 8"

definition bitvec_new :: "usize \<Rightarrow> u8 list" where
  "bitvec_new bits_len = replicate (bytes_len bits_len) 0"

text \<open>An index outside of the vector panics.\<close>

definition set_bit_at :: "usize \<Rightarrow> u8 list \<Rightarrow> u8 list option" where
  "set_bit_at pos bits =
     (if pos div 8 < length bits then Some (bits[pos div 8 := (bits ! (pos div 8)) OR 2 ^ (pos mod 8)]) else None)"

definition bit_at :: "u8 list \<Rightarrow> usize \<Rightarrow> bool option" where
  "bit_at bits pos =
     (if pos div 8 < length bits then Some ((bits ! (pos div 8) AND 2 ^ (pos mod 8)) \<noteq> 0) else None)"

section \<open>Proofs\<close>

datatype pow_proof =
    CuckooProof u8 "u64 list"
  | MD5Proof "u8 list" u8
  | RandomXProof "u8 list"
  | ProgPowProof "u8 list"

text \<open>The two loops of \<open>write\<close> over the nonces and over the bits of one.\<close>

fun set_nonce_bits :: "u64 \<Rightarrow> usize \<Rightarrow> usize list \<Rightarrow> u8 list \<Rightarrow> u8 list option" where
  "set_nonce_bits nonce offset [] bits = Some bits"
| "set_nonce_bits nonce offset (i # bs) bits =
     Option.bind (if (nonce AND u64_shl 1 i) \<noteq> 0 then set_bit_at (offset + i) bits else Some bits)
       (set_nonce_bits nonce offset bs)"

fun pack_nonces :: "usize \<Rightarrow> usize \<Rightarrow> u64 list \<Rightarrow> u8 list \<Rightarrow> u8 list option" where
  "pack_nonces nonce_bits n [] bits = Some bits"
| "pack_nonces nonce_bits n (nonce # ns) bits =
     Option.bind (set_nonce_bits nonce (n * nonce_bits) [0..<nonce_bits] bits) (pack_nonces nonce_bits (Suc n) ns)"

fun write_proof :: "chain_types \<Rightarrow> serialization_mode \<Rightarrow> pow_proof \<Rightarrow> u8 list option" where
  "write_proof ct mode (CuckooProof edge_bits nonces) =
     map_option (\<lambda>bits. write_u8 0 @ (if mode \<noteq> Hash then write_u8 edge_bits else []) @ bits)
       (pack_nonces edge_bits 0 nonces (bitvec_new (edge_bits * proofsize ct)))"
| "write_proof ct mode (MD5Proof proof edge_bits) = Some (write_u8 1 @ write_u8 edge_bits @ write_bytes proof)"
| "write_proof ct mode (RandomXProof hash) = Some (write_u8 2 @ hash)"
| "write_proof ct mode (ProgPowProof mix) = Some (write_u8 3 @ mix)"

fun unpack_nonce :: "u8 list \<Rightarrow> usize \<Rightarrow> usize list \<Rightarrow> u64 \<Rightarrow> u64 option" where
  "unpack_nonce bits offset [] nonce = Some nonce"
| "unpack_nonce bits offset (i # bs) nonce =
     Option.bind (bit_at bits (offset + i))
       (\<lambda>b. unpack_nonce bits offset bs (if b then nonce OR 2 ^ i else nonce))"

fun unpack_nonces :: "u8 list \<Rightarrow> usize \<Rightarrow> usize list \<Rightarrow> u64 list option" where
  "unpack_nonces bits nonce_bits [] = Some []"
| "unpack_nonces bits nonce_bits (n # ns) =
     Option.bind (unpack_nonce bits (n * nonce_bits) [0..<nonce_bits] 0)
       (\<lambda>nonce. map_option ((#) nonce) (unpack_nonces bits nonce_bits ns))"

text \<open>Whether one of the bits behind the nonces is set.\<close>

fun padding_set :: "u8 list \<Rightarrow> usize list \<Rightarrow> bool option" where
  "padding_set bits [] = Some False"
| "padding_set bits (n # ns) = Option.bind (bit_at bits n) (\<lambda>b. if b then Some True else padding_set bits ns)"

definition read_cuckoo :: "chain_types \<Rightarrow> pow_proof read" where
  "read_cuckoo ct =
     read_bind read_u8 (\<lambda>edge_bits.
       if edge_bits = 0 \<or> edge_bits > 64 then read_err CorruptedData
       else let bits_len = edge_bits * proofsize ct; len = bytes_len bits_len in
         read_bind (read_fixed_bytes len) (\<lambda>bits.
           case unpack_nonces bits edge_bits [0..<proofsize ct] of None \<Rightarrow> read_panic
           | Some nonces \<Rightarrow>
             (case padding_set bits [bits_len..<len * 8] of None \<Rightarrow> read_panic
              | Some padded \<Rightarrow> if padded then read_err CorruptedData else read_ok (CuckooProof edge_bits nonces))))"

definition read_proof :: "chain_types \<Rightarrow> pow_proof read" where
  "read_proof ct =
     read_bind read_u8 (\<lambda>pow_type.
       if pow_type = 0 then read_cuckoo ct
       else if pow_type = 1 then
         read_bind read_u8 (\<lambda>edge_bits. read_bind read_bytes_len_prefix (\<lambda>proof_bytes.
           if utf8_valid proof_bytes then read_ok (MD5Proof proof_bytes edge_bits) else read_panic))
       else if pow_type = 2 then read_bind (read_unwrap (read_fixed_bytes 32)) (\<lambda>hash. read_ok (RandomXProof hash))
       else if pow_type = 3 then read_bind (read_unwrap (read_fixed_bytes 32)) (\<lambda>mix. read_ok (ProgPowProof mix))
       else read_panic)"

record proof_of_work =
  total_difficulty :: difficulty
  secondary_scaling :: u32
  pow_nonce :: u64
  pow_proof :: pow_proof
  pow_seed :: "u8 list"

definition write_pow_pre_pow :: "proof_of_work \<Rightarrow> u8 list" where
  "write_pow_pre_pow p = write_difficulty (total_difficulty p) @ write_u32 (secondary_scaling p)"

text \<open>The inherent \<open>write\<close>, which a method call prefers to the one of the trait; the latter leaves
  out the seed.\<close>

definition write_proof_of_work :: "chain_types \<Rightarrow> serialization_mode \<Rightarrow> proof_of_work \<Rightarrow> u8 list option" where
  "write_proof_of_work ct mode p =
     map_option (\<lambda>bs. (if mode \<noteq> Hash then write_pow_pre_pow p @ write_u64 (pow_nonce p) else []) @ bs @ pow_seed p)
       (write_proof ct mode (pow_proof p))"

definition write_proof_of_work_trait :: "chain_types \<Rightarrow> serialization_mode \<Rightarrow> proof_of_work \<Rightarrow> u8 list option" where
  "write_proof_of_work_trait ct mode p =
     map_option (\<lambda>bs. (if mode \<noteq> Hash then write_pow_pre_pow p @ write_u64 (pow_nonce p) else []) @ bs)
       (write_proof ct mode (pow_proof p))"

definition read_proof_of_work :: "chain_types \<Rightarrow> proof_of_work read" where
  "read_proof_of_work ct =
     read_bind read_difficulty (\<lambda>total_difficulty.
     read_bind read_u32 (\<lambda>secondary_scaling.
     read_bind read_u64 (\<lambda>nonce.
     read_bind (read_proof ct) (\<lambda>proof.
     read_bind (read_fixed_bytes 32) (\<lambda>seed.
       read_ok \<lparr>total_difficulty = total_difficulty, secondary_scaling = secondary_scaling, pow_nonce = nonce,
         pow_proof = proof, pow_seed = seed\<rparr>)))))"

section \<open>The difficulty of a proof\<close>

definition pow_type_from :: "pow_proof \<Rightarrow> pow_type" where
  "pow_type_from v = (case v of
     CuckooProof edge_bits _ \<Rightarrow> if edge_bits = 19 \<or> edge_bits = 31 then Cuckatoo else Cuckaroo
   | RandomXProof _ \<Rightarrow> RandomX
   | ProgPowProof _ \<Rightarrow> ProgPow
   | MD5Proof _ _ \<Rightarrow> RandomX)"

definition proof_new :: "chain_types \<Rightarrow> u64 list \<Rightarrow> pow_proof" where
  "proof_new ct in_nonces = CuckooProof (min_edge_bits ct) (sort in_nonces)"

definition proof_zero :: "chain_types \<Rightarrow> usize \<Rightarrow> pow_proof" where
  "proof_zero ct proof_size = CuckooProof (min_edge_bits ct) (replicate proof_size 0)"

definition proof_size :: "pow_proof \<Rightarrow> usize" where
  "proof_size p = (case p of CuckooProof _ nonces \<Rightarrow> length nonces | MD5Proof _ _ \<Rightarrow> 16 | _ \<Rightarrow> 16)"

definition proof_of_work_default :: "chain_types \<Rightarrow> proof_of_work" where
  "proof_of_work_default ct = \<lparr>total_difficulty = difficulty_from_num 1, secondary_scaling = 1, pow_nonce = 0,
     pow_proof = proof_zero ct (proofsize ct), pow_seed = replicate 32 0\<rparr>"

text \<open>\<open>Hash::to_u64\<close>, and the hash of a proof.\<close>

definition hash_to_u64 :: "u8 list \<Rightarrow> u64" where
  "hash_to_u64 h = be_nat (take 8 h)"

definition scaled_difficulty :: "chain_types \<Rightarrow> (u8 list \<Rightarrow> u8 list) \<Rightarrow> pow_proof \<Rightarrow> u64 \<Rightarrow> u64 option" where
  "scaled_difficulty ct hash p scale =
     map_option (\<lambda>bs. min ((scale * 2 ^ 64) div max 1 (hash_to_u64 (hash bs))) u64_max) (write_proof ct Hash p)"

definition from_proof_adjusted :: "chain_types \<Rightarrow> (u8 list \<Rightarrow> u8 list) \<Rightarrow> u64 \<Rightarrow> pow_proof \<Rightarrow> difficulty option" where
  "from_proof_adjusted ct hash height p =
     map_option difficulty_from_num (scaled_difficulty ct hash p (case p of
         CuckooProof edge_bits _ \<Rightarrow> graph_weight ct height edge_bits
       | MD5Proof _ edge_bits \<Rightarrow> graph_weight ct height edge_bits
       | _ \<Rightarrow> graph_weight ct height 31))"

definition from_proof_scaled :: "chain_types \<Rightarrow> (u8 list \<Rightarrow> u8 list) \<Rightarrow> pow_proof \<Rightarrow> u32 \<Rightarrow> difficulty option" where
  "from_proof_scaled ct hash p scaling = map_option difficulty_from_num (scaled_difficulty ct hash p scaling)"

text \<open>The conversion of the 32 bytes into a 256-bit integer is external, the parameter \<open>u256\<close>. The
  division panics on zero; \<open>low_u64\<close> drops the high bits of the quotient.\<close>

definition from_proof_hash :: "(u8 list \<Rightarrow> nat) \<Rightarrow> u8 list \<Rightarrow> difficulty option" where
  "from_proof_hash u256 hash =
     (let d = u256 hash in
      if d = 0 then None else Some \<lparr>num = number (((2 ^ 256 - 1) div d) mod u64_size)\<rparr>)"

definition to_difficulty :: "chain_types \<Rightarrow> (u8 list \<Rightarrow> u8 list) \<Rightarrow> (u8 list \<Rightarrow> nat) \<Rightarrow> (u8 list \<Rightarrow> u64 \<Rightarrow> u64 \<Rightarrow> u8 list) \<Rightarrow> proof_of_work \<Rightarrow> u8 list \<Rightarrow> u64 \<Rightarrow> u64 \<Rightarrow> difficulty option" where
  "to_difficulty ct hash u256 progpow_value pw header height nonce = (case pow_proof pw of
     CuckooProof edge_bits _ \<Rightarrow>
       if edge_bits = SECOND_POW_EDGE_BITS then from_proof_scaled ct hash (pow_proof pw) (secondary_scaling pw)
       else from_proof_adjusted ct hash height (pow_proof pw)
   | MD5Proof _ edge_bits \<Rightarrow>
       if edge_bits = SECOND_POW_EDGE_BITS then from_proof_scaled ct hash (pow_proof pw) (secondary_scaling pw)
       else from_proof_adjusted ct hash height (pow_proof pw)
   | RandomXProof h \<Rightarrow> from_proof_hash u256 h
   | ProgPowProof mix \<Rightarrow> from_proof_hash u256 (progpow_value header height nonce))"

definition pow_edge_bits :: "proof_of_work \<Rightarrow> u8" where
  "pow_edge_bits pw = (case pow_proof pw of CuckooProof edge_bits _ \<Rightarrow> edge_bits | MD5Proof _ edge_bits \<Rightarrow> edge_bits | _ \<Rightarrow> 16)"

definition is_primary :: "chain_types \<Rightarrow> proof_of_work \<Rightarrow> bool" where
  "is_primary ct pw = (case pow_proof pw of
     CuckooProof edge_bits _ \<Rightarrow> edge_bits \<noteq> SECOND_POW_EDGE_BITS \<and> edge_bits \<ge> min_edge_bits ct
   | MD5Proof _ edge_bits \<Rightarrow> edge_bits \<noteq> SECOND_POW_EDGE_BITS \<and> edge_bits \<ge> min_edge_bits ct
   | _ \<Rightarrow> True)"

definition is_secondary :: "proof_of_work \<Rightarrow> bool" where
  "is_secondary pw = (case pow_proof pw of
     CuckooProof edge_bits _ \<Rightarrow> edge_bits = SECOND_POW_EDGE_BITS
   | MD5Proof _ edge_bits \<Rightarrow> edge_bits = SECOND_POW_EDGE_BITS
   | _ \<Rightarrow> False)"

section \<open>Dictionaries are read back\<close>

lemma reads_dict:
  "\<forall>e \<in> set es. reads get (put e) e \<Longrightarrow>
   reads (read_dict get (length es) m) (write_vec put es) (fold (\<lambda>(p, v) m. m(p \<mapsto> v)) es m)"
proof (induction es arbitrary: m)
  case (Cons e es)
  then show ?case
    by (cases e) (auto simp: write_vec_def simp del: fun_upd_apply intro!: reads_bind)
qed (simp add: write_vec_def reads_ok)

lemma fold_dict_entries: "fold (\<lambda>(p, v) m. m(p \<mapsto> v)) (dict_entries m) Map.empty = m"
proof (rule ext)
  fix p
  show "fold (\<lambda>(p, v) m. m(p \<mapsto> v)) (dict_entries m) Map.empty p = m p"
    unfolding dict_entries_def pow_types_def
    by (cases "m Cuckaroo"; cases "m Cuckatoo"; cases "m RandomX"; cases "m ProgPow"; cases p)
      (simp_all add: List.map_filter_simps)
qed

lemma dict_entries_length: "length (dict_entries m) \<le> 4"
  unfolding dict_entries_def pow_types_def by (simp add: List.map_filter_simps split: option.splits)

lemma dict_entries_set: "(p, v) \<in> set (dict_entries m) \<Longrightarrow> m p = Some v"
  unfolding dict_entries_def by (auto simp: map_filter_def)

lemma pow_try_from_to_u8 [simp]: "pow_try_from (pow_to_u8 p) = Inr p" "pow_to_u8 p < 256"
  by (cases p; simp)+

lemma reads_difficulty_entry:
  "v < u64_size \<Longrightarrow> reads read_difficulty_entry (write_u8 (pow_to_u8 p) @ write_u64 v) (p, v)"
  unfolding read_difficulty_entry_def
  by (intro reads_bind [OF reads_ints(1)] reads_last [OF reads_ints(4)]) (simp_all add: reads_ok del: pow_try_from.simps)

interpretation difficulty_codec: codec write_difficulty read_difficulty "\<lambda>d. \<forall>p v. num d p = Some v \<longrightarrow> v < u64_size"
proof
  fix d :: difficulty
  assume d: "\<forall>p v. num d p = Some v \<longrightarrow> v < u64_size"
  let ?es = "dict_entries (num d)"
  have "\<forall>e \<in> set ?es. reads read_difficulty_entry ((\<lambda>(p, n). write_u8 (pow_to_u8 p) @ write_u64 n) e) e"
    using d dict_entries_set by (fastforce intro: reads_difficulty_entry)
  moreover have r: "reads (read_ok \<lparr>num = num d\<rparr>) [] d" using reads_ok [of d] by (cases d) simp
  ultimately show "reads read_difficulty (write_difficulty d) d"
    using reads_dict [of ?es read_difficulty_entry "\<lambda>(p, n). write_u8 (pow_to_u8 p) @ write_u64 n" Map.empty]
    unfolding read_difficulty_def write_difficulty_def Let_def fold_dict_entries
    using dict_entries_length [of "num d"] r
    by (intro reads_bind [OF reads_ints(4)]) (auto intro!: reads_last)
qed

lemma reads_policy_entry:
  "v < u32_size \<Longrightarrow> reads read_policy_entry
     (write_u8 (case p of Cuckaroo \<Rightarrow> 0 | Cuckatoo \<Rightarrow> 1 | RandomX \<Rightarrow> 2 | ProgPow \<Rightarrow> 3) @ write_u32 v) (p, v)"
  unfolding read_policy_entry_def
  by (intro reads_bind [OF reads_ints(1)]; cases p) (simp_all add: reads_last [OF reads_ints(3)] reads_ok)

interpretation policy_codec: codec write_policy read_policy "\<lambda>m. \<forall>p v. m p = Some v \<longrightarrow> v < u32_size"
proof
  fix m :: policy assume m: "\<forall>p v. m p = Some v \<longrightarrow> v < u32_size"
  let ?es = "dict_entries m"
  have "\<forall>e \<in> set ?es. reads read_policy_entry
      ((\<lambda>(p, n). write_u8 (case p of Cuckaroo \<Rightarrow> 0 | Cuckatoo \<Rightarrow> 1 | RandomX \<Rightarrow> 2 | ProgPow \<Rightarrow> 3) @ write_u32 n) e) e"
    using m dict_entries_set by (fastforce intro: reads_policy_entry)
  from reads_dict [OF this, of Map.empty] show "reads read_policy (write_policy m) m"
    unfolding read_policy_def write_policy_def Let_def fold_dict_entries
    using dict_entries_length [of m]
    by (intro reads_bind [OF reads_ints(4)]) auto
qed

section \<open>Bits\<close>

definition vbit :: "u8 list \<Rightarrow> nat \<Rightarrow> bool" where
  "vbit bits pos \<longleftrightarrow> pos div 8 < length bits \<and> bit (bits ! (pos div 8)) (pos mod 8)"

lemma bit_at_vbit: "pos < 8 * length bits \<Longrightarrow> bit_at bits pos = Some (vbit bits pos)"
  by (simp add: bit_at_def vbit_def and_exp_eq_0_iff_not_bit div_less_iff_less_mult mult.commute)

lemma set_bit_at_vbit:
  assumes "pos < 8 * length bits"
  shows "\<exists>bits'. set_bit_at pos bits = Some bits' \<and> length bits' = length bits \<and> (\<forall>q. vbit bits' q \<longleftrightarrow> q = pos \<or> vbit bits q)"
proof -
  have p: "pos div 8 < length bits" using assms by (simp add: div_less_iff_less_mult mult.commute)
  have e: "q = pos \<longleftrightarrow> q div 8 = pos div 8 \<and> q mod 8 = pos mod 8" for q
    by (metis div_mult_mod_eq)
  show ?thesis
    using p unfolding set_bit_at_def vbit_def e
    by (auto simp: nth_list_update bit_or_iff bit_exp_iff)
qed

lemma vbit_new: "\<not> vbit (bitvec_new n) pos"
  by (simp add: vbit_def bitvec_new_def)

lemma set_nonce_bits_vbit:
  assumes "\<forall>i \<in> set is. i < 64 \<and> offset + i < 8 * length bits"
  shows "\<exists>bits'. set_nonce_bits x offset is bits = Some bits' \<and> length bits' = length bits \<and>
    (\<forall>q. vbit bits' q \<longleftrightarrow> vbit bits q \<or> (\<exists>i \<in> set is. q = offset + i \<and> bit x i))"
  using assms
proof (induction "is" arbitrary: bits)
  case (Cons i "is")
  have "(1::nat) * 2 ^ i < u64_size" using Cons.prems power_strict_increasing [of i 64 "2::nat"] by simp
  then have sh: "(x AND u64_shl 1 i) \<noteq> 0 \<longleftrightarrow> bit x i"
    using Cons.prems by (simp add: u64_shl_def and_exp_eq_0_iff_not_bit)
  obtain bits1 where b1: "(if bit x i then set_bit_at (offset + i) bits else Some bits) = Some bits1"
      "length bits1 = length bits" "\<forall>q. vbit bits1 q \<longleftrightarrow> vbit bits q \<or> q = offset + i \<and> bit x i"
    using set_bit_at_vbit [of "offset + i" bits] Cons.prems by (cases "bit x i") auto
  obtain bits2 where b2: "set_nonce_bits x offset is bits1 = Some bits2" "length bits2 = length bits1"
      "\<forall>q. vbit bits2 q \<longleftrightarrow> vbit bits1 q \<or> (\<exists>i \<in> set is. q = offset + i \<and> bit x i)"
    using Cons.IH [of bits1] Cons.prems b1(2) by auto
  show ?case unfolding set_nonce_bits.simps sh using b1 b2 by auto
qed auto

text \<open>Nonce \<open>n\<close> takes the bits from \<open>n * nonce_bits\<close> on.\<close>

lemma pack_nonces_vbit:
  assumes "nb \<le> 64" and "(n + length ns) * nb \<le> 8 * length bits"
  shows "\<exists>bits'. pack_nonces nb n ns bits = Some bits' \<and> length bits' = length bits \<and>
    (\<forall>q. vbit bits' q \<longleftrightarrow> vbit bits q \<or> (\<exists>j < length ns. \<exists>i < nb. q = (n + j) * nb + i \<and> bit (ns ! j) i))"
  using assms(2)
proof (induction ns arbitrary: n bits)
  case (Cons x ns)
  have le: "n * nb + i < 8 * length bits" if "i < nb" for i
    using Cons.prems that by (simp add: add_mult_distrib)
  obtain bits1 where b1: "set_nonce_bits x (n * nb) [0..<nb] bits = Some bits1" "length bits1 = length bits"
      "\<forall>q. vbit bits1 q \<longleftrightarrow> vbit bits q \<or> (\<exists>i < nb. q = n * nb + i \<and> bit x i)"
    using set_nonce_bits_vbit [of "[0..<nb]" "n * nb" bits x] le assms(1) by (auto simp: Bex_def)
  obtain bits2 where b2: "pack_nonces nb (Suc n) ns bits1 = Some bits2" "length bits2 = length bits1"
      "\<forall>q. vbit bits2 q \<longleftrightarrow> vbit bits1 q \<or> (\<exists>j < length ns. \<exists>i < nb. q = (Suc n + j) * nb + i \<and> bit (ns ! j) i)"
    using Cons.IH [of "Suc n" bits1] Cons.prems b1(2) by auto
  have "(\<exists>j < length (x # ns). \<exists>i < nb. q = (n + j) * nb + i \<and> bit ((x # ns) ! j) i) \<longleftrightarrow>
      (\<exists>i < nb. q = n * nb + i \<and> bit x i) \<or> (\<exists>j < length ns. \<exists>i < nb. q = (Suc n + j) * nb + i \<and> bit (ns ! j) i)" for q
    using Ex_less_Suc2 [of "length ns" "\<lambda>j. \<exists>i < nb. q = (n + j) * nb + i \<and> bit ((x # ns) ! j) i"] by simp
  then show ?case using b1 b2 by auto
qed auto

lemma unpack_nonce_vbit:
  assumes "\<forall>i \<in> set is. offset + i < 8 * length bits"
  shows "\<exists>r. unpack_nonce bits offset is x = Some r \<and> (\<forall>j. bit r j \<longleftrightarrow> bit x j \<or> j \<in> set is \<and> vbit bits (offset + j))"
  using assms
proof (induction "is" arbitrary: x)
  case (Cons i "is")
  let ?x = "if vbit bits (offset + i) then x OR 2 ^ i else x"
  have x: "bit ?x j \<longleftrightarrow> bit x j \<or> j = i \<and> vbit bits (offset + i)" for j
    by (auto simp: bit_or_iff bit_exp_iff)
  obtain r where "unpack_nonce bits offset is ?x = Some r" "\<forall>j. bit r j \<longleftrightarrow> bit ?x j \<or> j \<in> set is \<and> vbit bits (offset + j)"
    using Cons.IH [of ?x] Cons.prems by auto
  with x show ?case using Cons.prems by (auto simp: bit_at_vbit)
qed simp

lemma unpack_nonces_vbit:
  assumes "\<forall>n \<in> set ns. (n + 1) * nb \<le> 8 * length bits"
  shows "\<exists>rs. unpack_nonces bits nb ns = Some rs \<and> length rs = length ns \<and>
    (\<forall>k < length ns. \<forall>j. bit (rs ! k) j \<longleftrightarrow> j < nb \<and> vbit bits (ns ! k * nb + j))"
  using assms
proof (induction ns)
  case (Cons n ns)
  have "\<forall>i \<in> set [0..<nb]. n * nb + i < 8 * length bits" using Cons.prems by (auto simp: add_mult_distrib)
  then obtain r where r: "unpack_nonce bits (n * nb) [0..<nb] 0 = Some r" "\<forall>j. bit r j \<longleftrightarrow> j < nb \<and> vbit bits (n * nb + j)"
    using unpack_nonce_vbit [of "[0..<nb]" "n * nb" bits 0] by auto
  then show ?case using Cons by (auto simp: less_Suc_eq_0_disj)
qed simp

lemma padding_set_vbit:
  "\<forall>n \<in> set ns. n < 8 * length bits \<Longrightarrow> padding_set bits ns = Some (\<exists>n \<in> set ns. vbit bits n)"
  by (induction ns) (auto simp: bit_at_vbit)

lemma bytes_len_bits: "n \<le> 8 * bytes_len n"
  unfolding bytes_len_def by linarith

lemma proofsize_pos: "0 < proofsize ct" "proofsize ct \<le> 42"
  by (cases ct; simp add: proofsize_def)+

text \<open>The packed nonces are unpacked to themselves.\<close>

lemma pack_unpack:
  assumes nb: "0 < nb" "nb \<le> 64" and ns: "\<forall>x \<in> set ns. x < 2 ^ nb"
  shows "\<exists>bits. pack_nonces nb 0 ns (bitvec_new (nb * length ns)) = Some bits \<and>
    length bits = bytes_len (nb * length ns) \<and>
    unpack_nonces bits nb [0..<length ns] = Some ns \<and>
    padding_set bits [nb * length ns..<bytes_len (nb * length ns) * 8] = Some False"
proof -
  let ?len = "bytes_len (nb * length ns)"
  have len: "length ns * nb \<le> 8 * ?len" using bytes_len_bits [of "nb * length ns"] by (simp add: mult.commute)
  then obtain bits where bits: "pack_nonces nb 0 ns (bitvec_new (nb * length ns)) = Some bits" "length bits = ?len"
      "\<forall>q. vbit bits q \<longleftrightarrow> (\<exists>j < length ns. \<exists>i < nb. q = j * nb + i \<and> bit (ns ! j) i)"
    using pack_nonces_vbit [OF nb(2), of 0 ns "bitvec_new (nb * length ns)"] vbit_new
    by (auto simp: bitvec_new_def)
  have at: "vbit bits (j * nb + i) \<longleftrightarrow> bit (ns ! j) i" if "j < length ns" "i < nb" for i j
  proof -
    have "j' = j \<and> i' = i" if "j * nb + i = j' * nb + i'" "i' < nb" for i' j'
      using that \<open>i < nb\<close> by (metis div_mult_self3 div_less add.commute add_left_cancel add_0 less_nat_zero_code)
    with that show ?thesis unfolding bits(3) [rule_format] by metis
  qed
  have "(n + 1) * nb \<le> 8 * length bits" if "n < length ns" for n
    using that len mult_le_mono1 [of "n + 1" "length ns" nb] bits(2) by simp
  then obtain rs where rs: "unpack_nonces bits nb [0..<length ns] = Some rs" "length rs = length ns"
      "\<forall>k < length ns. \<forall>j. bit (rs ! k) j \<longleftrightarrow> j < nb \<and> vbit bits (k * nb + j)"
    using unpack_nonces_vbit [of "[0..<length ns]" nb bits] by auto
  have "rs = ns"
  proof (rule nth_equalityI)
    fix k assume k: "k < length rs"
    then have "bit (ns ! k) j \<Longrightarrow> j < nb" for j
      using ns rs(2) bit_ge [of "ns ! k" j] power_increasing [of nb j "2::nat"] nth_mem [of k ns] by fastforce
    then show "rs ! k = ns ! k" using k rs(2,3) at by (intro bit_eqI) auto
  qed (rule rs(2))
  moreover have "\<not> vbit bits n" if "nb * length ns \<le> n" for n
  proof
    assume "vbit bits n"
    then obtain j i where "j < length ns" "i < nb" "n = j * nb + i" using bits(3) by auto
    moreover from this have "(j + 1) * nb \<le> length ns * nb" by (intro mult_le_mono1) simp
    ultimately show False using that by (simp add: mult.commute)
  qed
  then have "padding_set bits [nb * length ns..<?len * 8] = Some False"
    using padding_set_vbit [of "[nb * length ns..<?len * 8]" bits] bits(2) by auto
  ultimately show ?thesis using bits rs by blast
qed

section \<open>Proofs are read back\<close>

fun proof_ok :: "chain_types \<Rightarrow> pow_proof \<Rightarrow> bool" where
  "proof_ok ct (CuckooProof edge_bits nonces) \<longleftrightarrow>
     0 < edge_bits \<and> edge_bits \<le> 64 \<and> length nonces = proofsize ct \<and> list_all (\<lambda>x. x < 2 ^ edge_bits) nonces"
| "proof_ok ct (MD5Proof proof edge_bits) \<longleftrightarrow>
     edge_bits < 256 \<and> 0 < length proof \<and> length proof \<le> MAX_FIXED_READ \<and> utf8_valid proof"
| "proof_ok ct (RandomXProof hash) \<longleftrightarrow> length hash = 32"
| "proof_ok ct (ProgPowProof mix) \<longleftrightarrow> length mix = 32"

definition bytes_or_nil :: "u8 list option \<Rightarrow> u8 list" where
  "bytes_or_nil bs = (case bs of Some b \<Rightarrow> b | None \<Rightarrow> [])"

lemma bytes_or_nil_Some [simp]: "bytes_or_nil (Some bs) = bs"
  by (simp add: bytes_or_nil_def)

lemma reads_unwrap: "reads get bs x \<Longrightarrow> reads (read_unwrap get) bs x"
  unfolding reads_def read_unwrap_def by fastforce

lemma reads_cuckoo:
  assumes "proof_ok ct (CuckooProof eb ns)"
  shows "\<exists>bits. pack_nonces eb 0 ns (bitvec_new (eb * proofsize ct)) = Some bits \<and>
    reads (read_cuckoo ct) (write_u8 eb @ bits) (CuckooProof eb ns)"
proof -
  let ?len = "bytes_len (eb * length ns)"
  have eb: "0 < eb" "eb \<le> 64" "length ns = proofsize ct" using assms by simp_all
  obtain bits where b: "pack_nonces eb 0 ns (bitvec_new (eb * length ns)) = Some bits"
      "length bits = ?len" "unpack_nonces bits eb [0..<length ns] = Some ns"
      "padding_set bits [eb * length ns..<?len * 8] = Some False"
    using pack_unpack [OF eb(1,2), of ns] assms by (auto simp: list_all_iff)
  have "eb * length ns \<le> 64 * 42" using eb proofsize_pos(2) [of ct] by (intro mult_le_mono) auto
  then have "?len \<le> MAX_FIXED_READ" by (simp add: bytes_len_def MAX_FIXED_READ_def)
  moreover have "0 < eb * length ns" using eb proofsize_pos(1) [of ct] by simp
  then have "0 < ?len" unfolding bytes_len_def by linarith
  ultimately have "reads (read_cuckoo ct) (write_u8 eb @ bits) (CuckooProof eb ns)"
    unfolding read_cuckoo_def Let_def using eb b reads_ok
    by (intro reads_bind [OF reads_ints(1)]) (auto intro!: reads_last [OF reads_fixed_bytes])
  with b(1) eb(3) show ?thesis by auto
qed

lemma reads_proof:
  assumes "proof_ok ct p"
  shows "\<exists>bs. write_proof ct Full p = Some bs \<and> reads (read_proof ct) bs p"
proof (cases p)
  case (CuckooProof eb ns)
  obtain bits where b: "pack_nonces eb 0 ns (bitvec_new (eb * proofsize ct)) = Some bits"
      "reads (read_cuckoo ct) (write_u8 eb @ bits) (CuckooProof eb ns)"
    using reads_cuckoo [of ct eb ns] assms CuckooProof by blast
  then have "reads (read_proof ct) (write_u8 0 @ write_u8 eb @ bits) p"
    unfolding read_proof_def CuckooProof by (intro reads_bind [OF reads_ints(1)]) simp_all
  with b(1) CuckooProof show ?thesis by simp
next
  case (MD5Proof bs eb)
  then have "reads (read_proof ct) (write_u8 1 @ write_u8 eb @ write_bytes bs) p"
    unfolding read_proof_def using assms
    by (intro reads_bind [OF reads_ints(1)]) (auto intro!: reads_bind [OF reads_ints(1)] reads_last [OF reads_bytes] reads_ok)
  with MD5Proof show ?thesis by simp
next
  case (RandomXProof h)
  then have "reads (read_proof ct) (write_u8 2 @ h) p"
    unfolding read_proof_def using assms
    by (intro reads_bind [OF reads_ints(1)])
      (auto intro!: reads_last [OF reads_unwrap [OF reads_fixed_bytes]] reads_ok simp: MAX_FIXED_READ_def)
  with RandomXProof show ?thesis by simp
next
  case (ProgPowProof h)
  then have "reads (read_proof ct) (write_u8 3 @ h) p"
    unfolding read_proof_def using assms
    by (intro reads_bind [OF reads_ints(1)])
      (auto intro!: reads_last [OF reads_unwrap [OF reads_fixed_bytes]] reads_ok simp: MAX_FIXED_READ_def)
  with ProgPowProof show ?thesis by simp
qed

interpretation proof_codec: codec "\<lambda>p. bytes_or_nil (write_proof ct Full p)" "read_proof ct" "proof_ok ct"
  using reads_proof [of ct] by unfold_locales fastforce

definition pow_ok :: "chain_types \<Rightarrow> proof_of_work \<Rightarrow> bool" where
  "pow_ok ct p \<longleftrightarrow> (\<forall>a v. num (total_difficulty p) a = Some v \<longrightarrow> v < u64_size) \<and> secondary_scaling p < u32_size \<and>
     pow_nonce p < u64_size \<and> proof_ok ct (pow_proof p) \<and> length (pow_seed p) = 32"

lemma reads_proof_of_work:
  assumes "pow_ok ct p"
  shows "\<exists>bs. write_proof_of_work ct Full p = Some bs \<and> reads (read_proof_of_work ct) bs p"
proof -
  obtain bs where bs: "write_proof ct Full (pow_proof p) = Some bs" "reads (read_proof ct) bs (pow_proof p)"
    using reads_proof assms unfolding pow_ok_def by blast
  have "reads (read_proof_of_work ct)
      (write_difficulty (total_difficulty p) @ write_u32 (secondary_scaling p) @ write_u64 (pow_nonce p) @ bs @ pow_seed p) p"
    unfolding read_proof_of_work_def using assms bs(2)
    by (intro reads_bind [OF difficulty_codec.reads_put] reads_bind [OF reads_ints(3)] reads_bind [OF reads_ints(4)]
        reads_bind [of "read_proof ct"] reads_last [OF reads_fixed_bytes] reads_ok_eq)
      (auto simp: pow_ok_def MAX_FIXED_READ_def)
  with bs(1) show ?thesis by (simp add: write_proof_of_work_def write_pow_pre_pow_def)
qed

interpretation pow_codec: codec "\<lambda>p. bytes_or_nil (write_proof_of_work ct Full p)" "read_proof_of_work ct" "pow_ok ct"
  using reads_proof_of_work [of ct] by unfold_locales fastforce

section \<open>Nothing else is read as the same proof\<close>

lemma vbit_ext:
  assumes "length a = length b" and "\<forall>x \<in> set a. x < 256" and "\<forall>x \<in> set b. x < 256" and "\<And>q. vbit a q = vbit b q"
  shows "a = b"
proof (rule nth_equalityI)
  fix i assume i: "i < length a"
  have small: "bit x k \<Longrightarrow> k < 8" if "x < 256" for x k :: nat
    using that bit_ge [of x k] power_increasing [of 8 k "2::nat"] by (cases "k < 8") simp_all
  have "bit (a ! i) k = bit (b ! i) k" for k
  proof (cases "k < 8")
    case True
    then show ?thesis using assms(4) [of "8 * i + k"] assms(1) i by (simp add: vbit_def)
  next
    case False
    then show ?thesis using small [of "a ! i" k] small [of "b ! i" k] assms(1-3) i by (metis nth_mem)
  qed
  then show "a ! i = b ! i" by (intro bit_eqI) simp
qed (rule assms(1))

lemma set_bit_at_small:
  assumes "\<forall>x \<in> set bits. x < 256" and "set_bit_at pos bits = Some bits'"
  shows "\<forall>x \<in> set bits'. x < 256"
proof -
  have "x OR 2 ^ (pos mod 8) < 256" if "x < 256" for x :: nat
  proof -
    have "2 ^ (pos mod 8) < (2::nat) ^ 8" by (intro power_strict_increasing) simp_all
    then have "take_bit 8 (x OR 2 ^ (pos mod 8)) = x OR 2 ^ (pos mod 8)"
      using that by (simp add: take_bit_nat_eq_self)
    then show ?thesis using take_bit_nat_less_exp [of 8 "x OR 2 ^ (pos mod 8)"] by simp
  qed
  moreover have "x \<in> set bits' \<Longrightarrow> x \<in> set bits \<or> x = bits ! (pos div 8) OR 2 ^ (pos mod 8)" "pos div 8 < length bits" for x
    using assms(2) set_update_subset_insert [of bits "pos div 8"] by (auto simp: set_bit_at_def split: if_splits)
  ultimately show ?thesis using assms(1) nth_mem by metis
qed

lemma set_nonce_bits_small:
  "\<forall>x \<in> set bits. x < 256 \<Longrightarrow> set_nonce_bits n offset is bits = Some bits' \<Longrightarrow> \<forall>x \<in> set bits'. x < 256"
  by (induction n offset "is" bits rule: set_nonce_bits.induct)
    (auto simp: Option.bind_eq_Some_conv split: if_splits dest: set_bit_at_small)

lemma pack_nonces_small:
  "\<forall>x \<in> set bits. x < 256 \<Longrightarrow> pack_nonces nb n ns bits = Some bits' \<Longrightarrow> \<forall>x \<in> set bits'. x < 256"
  by (induction nb n ns bits rule: pack_nonces.induct)
    (auto simp: Option.bind_eq_Some_conv dest: set_nonce_bits_small)

lemma unpack_pack:
  assumes nb: "0 < nb" "nb \<le> 64" and len: "length bits = bytes_len (nb * k)" and small: "\<forall>x \<in> set bits. x < 256"
    and ns: "unpack_nonces bits nb [0..<k] = Some ns"
    and pad: "padding_set bits [nb * k..<bytes_len (nb * k) * 8] = Some False"
  shows "pack_nonces nb 0 ns (bitvec_new (nb * k)) = Some bits"
proof -
  have kl: "k * nb \<le> 8 * length bits" using bytes_len_bits [of "nb * k"] len by (simp add: mult.commute)
  have "(n + 1) * nb \<le> 8 * length bits" if "n < k" for n
    using that kl mult_le_mono1 [of "n + 1" k nb] by simp
  then have rs: "length ns = k" "\<forall>n < k. \<forall>j. bit (ns ! n) j \<longleftrightarrow> j < nb \<and> vbit bits (n * nb + j)"
    using unpack_nonces_vbit [of "[0..<k]" nb bits] ns by auto
  obtain bits' where b: "pack_nonces nb 0 ns (bitvec_new (nb * k)) = Some bits'" "length bits' = length bits"
      "\<forall>q. vbit bits' q \<longleftrightarrow> (\<exists>j < k. \<exists>i < nb. q = j * nb + i \<and> bit (ns ! j) i)"
    using pack_nonces_vbit [OF nb(2), of 0 ns "bitvec_new (nb * k)"] vbit_new kl len rs(1)
    by (auto simp: bitvec_new_def)
  have out: "\<not> vbit bits q" if "nb * k \<le> q" for q
  proof (cases "q < 8 * length bits")
    case True
    then show ?thesis using padding_set_vbit [of "[nb * k..<bytes_len (nb * k) * 8]" bits] pad that len by auto
  qed (auto simp: vbit_def div_less_iff_less_mult mult.commute)
  have "vbit bits' q = vbit bits q" for q
  proof (cases "q < nb * k")
    case True
    have "q = (q div nb) * nb + q mod nb" "q div nb < k" "q mod nb < nb"
      using True nb by (simp_all add: div_less_iff_less_mult mult.commute)
    then show ?thesis unfolding b(3) [rule_format] using rs(2) by metis
  next
    case False
    have "\<not> vbit bits' q"
    proof
      assume "vbit bits' q"
      then obtain j i where "j < k" "i < nb" "q = j * nb + i" using b(3) by auto
      moreover from this have "(j + 1) * nb \<le> k * nb" by (intro mult_le_mono1) simp
      ultimately show False using False by (simp add: mult.commute)
    qed
    with out False show ?thesis by simp
  qed
  moreover have "\<forall>x \<in> set bits'. x < 256"
    using pack_nonces_small [OF _ b(1)] by (simp add: bitvec_new_def)
  ultimately show ?thesis using b(1,2) small vbit_ext by metis
qed

lemma read_cuckoo_canonical:
  assumes "read_cuckoo ct (BinReader bs) = Some (Inr p, r')" and "\<forall>b \<in> set bs. b < 256"
  shows "\<exists>eb ns bits rest. p = CuckooProof eb ns \<and> r' = BinReader rest \<and> bs = write_u8 eb @ bits @ rest \<and>
    pack_nonces eb 0 ns (bitvec_new (eb * proofsize ct)) = Some bits"
proof -
  obtain eb cs where bs: "bs = eb # cs"
    and body: "(if eb = 0 \<or> eb > 64 then read_err CorruptedData
       else let bits_len = eb * proofsize ct; len = bytes_len bits_len in
         read_bind (read_fixed_bytes len) (\<lambda>bits.
           case unpack_nonces bits eb [0..<proofsize ct] of None \<Rightarrow> read_panic
           | Some nonces \<Rightarrow>
             (case padding_set bits [bits_len..<len * 8] of None \<Rightarrow> read_panic
              | Some padded \<Rightarrow> if padded then read_err CorruptedData else read_ok (CuckooProof eb nonces)))) (BinReader cs) = Some (Inr p, r')"
    using assms(1) unfolding read_cuckoo_def read_bind_ok [of read_u8] read_u8_ok by blast
  let ?len = "bytes_len (eb * proofsize ct)"
  have eb: "0 < eb" "eb \<le> 64" using body by (auto simp: read_err_def split: if_splits)
  obtain ns where ns: "unpack_nonces (take ?len cs) eb [0..<proofsize ct] = Some ns"
    and rest: "(case padding_set (take ?len cs) [eb * proofsize ct..<?len * 8] of None \<Rightarrow> read_panic
              | Some padded \<Rightarrow> if padded then read_err CorruptedData else read_ok (CuckooProof eb ns)) (BinReader (drop ?len cs)) = Some (Inr p, r')"
    and len: "?len \<le> length cs"
    using body eb by (cases "unpack_nonces (take ?len cs) eb [0..<proofsize ct]") (auto simp: Let_def read_ok_iffs)
  have pad: "padding_set (take ?len cs) [eb * proofsize ct..<?len * 8] = Some False" and p: "p = CuckooProof eb ns" "r' = BinReader (drop ?len cs)"
    using rest by (auto simp: read_ok_iffs split: option.splits if_splits)
  have "pack_nonces eb 0 ns (bitvec_new (eb * proofsize ct)) = Some (take ?len cs)"
    using unpack_pack [OF eb, of "take ?len cs" "proofsize ct" ns] ns pad len assms(2) bs by (auto dest: in_set_takeD)
  then show ?thesis using p bs by (auto simp: write_u8_def)
qed

section \<open>Properties\<close>

text \<open>C34: a proof of work is malleable in no byte. Every proof whose nonces fit its edge bits is
  written and read back as itself, and conversely bytes that are read as a proof are exactly the
  ones that the proof is written as, unused bits of the last byte included.\<close>

theorem proof_round_trip:
  assumes "\<forall>b \<in> set bs. b < 256"
  shows "(proof_ok ct p \<and> write_proof ct Full p = Some out \<longrightarrow> deserialize (read_proof ct) (out @ bs) = Some (Inr p)) \<and>
    (read_proof ct (BinReader bs) = Some (Inr q, BinReader rest) \<longrightarrow>
       (\<exists>out. write_proof ct Full q = Some out \<and> bs = out @ rest))"
proof (intro conjI impI)
  assume "proof_ok ct p \<and> write_proof ct Full p = Some out"
  then show "deserialize (read_proof ct) (out @ bs) = Some (Inr p)"
    using proof_codec.deserialize_put [of ct p bs] by simp
next
  assume r: "read_proof ct (BinReader bs) = Some (Inr q, BinReader rest)"
  then obtain t cs where bs: "bs = t # cs" by (auto simp: read_proof_def read_ok_iffs)
  consider "t = 0" "read_cuckoo ct (BinReader cs) = Some (Inr q, BinReader rest)"
    | eb x where "t = 1" "\<exists>ds. cs = eb # ds \<and> read_bytes_len_prefix (BinReader ds) = Some (Inr x, BinReader rest)" "q = MD5Proof x eb"
    | "t = 2" "q = RandomXProof (take 32 cs)" "32 \<le> length cs" "rest = drop 32 cs"
    | "t = 3" "q = ProgPowProof (take 32 cs)" "32 \<le> length cs" "rest = drop 32 cs"
    using r bs by (auto simp: read_proof_def read_ok_iffs read_unwrap_ok split: if_splits)
  then show "\<exists>out. write_proof ct Full q = Some out \<and> bs = out @ rest"
  proof cases
    case 1
    then show ?thesis using read_cuckoo_canonical [of ct cs q "BinReader rest"] assms bs by (auto simp: write_u8_def)
  next
    case 2
    then show ?thesis using read_bytes_canonical assms bs by (fastforce simp: write_u8_def)
  qed (auto simp: bs write_u8_def)
qed

lemma replicate5: "replicate 5 x = [x, x, x, x, x]"
  by (simp add: eval_nat_numeral)

lemma cuckoo_example:
  "write_proof AutomatedTesting Full (CuckooProof 9 [5, 257, 6, 16]) = Some [0, 9, 5, 2, 26, 128, 0]"
proof -
  have "bitvec_new (9 * proofsize AutomatedTesting) = [0, 0, 0, 0, 0]"
    by (simp add: proofsize_def bitvec_new_def bytes_len_def replicate5)
  then show ?thesis by (simp add: upt_rec set_bit_at_def write_u8_def)
qed

theorem proof_round_trip_witness:
  "deserialize (read_proof AutomatedTesting) [0, 9, 5, 2, 26, 128, 0, 77] = Some (Inr (CuckooProof 9 [5, 257, 6, 16])) \<and>
   (\<exists>out. write_proof AutomatedTesting Full (RandomXProof (replicate 32 7)) = Some out \<and> 2 # replicate 33 7 = out @ [7])"
proof
  show "deserialize (read_proof AutomatedTesting) [0, 9, 5, 2, 26, 128, 0, 77] = Some (Inr (CuckooProof 9 [5, 257, 6, 16]))"
    using proof_round_trip [of "[77]" AutomatedTesting "CuckooProof 9 [5, 257, 6, 16]" "[0, 9, 5, 2, 26, 128, 0]"] cuckoo_example
    by (simp add: proofsize_def del: write_proof.simps)
  have "read_proof AutomatedTesting (BinReader (2 # replicate 33 7)) = Some (Inr (RandomXProof (replicate 32 7)), BinReader [7])"
    by (simp add: read_proof_def read_ok_iffs read_unwrap_ok take_replicate drop_replicate MAX_FIXED_READ_def)
  then show "\<exists>out. write_proof AutomatedTesting Full (RandomXProof (replicate 32 7)) = Some out \<and> 2 # replicate 33 7 = out @ [7]"
    using proof_round_trip [of "2 # replicate 33 7" AutomatedTesting _ _ "RandomXProof (replicate 32 7)" "[7]"] by simp
qed

lemma read_cuckoo_returns: "read_cuckoo ct (BinReader bs) \<noteq> None"
proof -
  have u: "\<exists>ns. unpack_nonces bits eb [0..<proofsize ct] = Some ns"
    if "length bits = bytes_len (eb * proofsize ct)" for bits eb
  proof -
    have "(n + 1) * eb \<le> 8 * length bits" if "n < proofsize ct" for n
      using that \<open>length bits = _\<close> bytes_len_bits [of "eb * proofsize ct"] mult_le_mono1 [of "n + 1" "proofsize ct" eb]
      by (simp add: mult.commute)
    then show ?thesis using unpack_nonces_vbit [of "[0..<proofsize ct]" eb bits] by auto
  qed
  have p: "\<exists>b. padding_set bits [eb * proofsize ct..<bytes_len (eb * proofsize ct) * 8] = Some b"
    if "length bits = bytes_len (eb * proofsize ct)" for bits eb
    using that padding_set_vbit [of "[eb * proofsize ct..<bytes_len (eb * proofsize ct) * 8]" bits] by auto
  have "read_bind (read_fixed_bytes (bytes_len (eb * proofsize ct))) (\<lambda>bits.
           case unpack_nonces bits eb [0..<proofsize ct] of None \<Rightarrow> read_panic
           | Some nonces \<Rightarrow>
             (case padding_set bits [eb * proofsize ct..<bytes_len (eb * proofsize ct) * 8] of None \<Rightarrow> read_panic
              | Some padded \<Rightarrow> if padded then read_err CorruptedData else read_ok (CuckooProof eb nonces))) (BinReader cs) \<noteq> None" for eb cs
  proof (cases "bytes_len (eb * proofsize ct) \<le> length cs")
    case True
    then show ?thesis using u [of "take (bytes_len (eb * proofsize ct)) cs" eb] p [of "take (bytes_len (eb * proofsize ct)) cs" eb]
      by (auto simp: read_bind_def read_fixed_bytes.simps read_ok_def read_err_def)
  qed (simp add: read_bind_def read_fixed_bytes.simps)
  note body = this
  show ?thesis
  proof (cases bs)
    case Nil
    then show ?thesis by (simp add: read_cuckoo_def read_bind_def [of read_u8] ints_eof)
  next
    case (Cons eb cs)
    show ?thesis using body [of eb cs] unfolding Cons read_cuckoo_def read_bind_u8 Let_def by (simp add: read_err_def)
  qed
qed

text \<open>C35: the bytes on which reading a proof panics: an algorithm byte above three, a RandomX or
  ProgPow proof that ends early, and an MD5 proof that is not UTF-8. On all others reading returns a
  proof or an error.\<close>

theorem proof_read_panics:
  "read_proof ct (BinReader bs) = None \<longleftrightarrow> (\<exists>t cs. bs = t # cs \<and>
     (3 < t \<or> (t = 2 \<or> t = 3) \<and> length cs < 32 \<or>
      t = 1 \<and> (\<exists>edge_bits ds x r. cs = edge_bits # ds \<and>
        read_bytes_len_prefix (BinReader ds) = Some (Inr x, r) \<and> \<not> utf8_valid x)))"
proof (cases bs)
  case Nil
  then show ?thesis by (simp add: read_proof_def read_bind_def ints_eof)
next
  case (Cons t cs)
  have fixed: "read_bind (read_unwrap (read_fixed_bytes 32)) (\<lambda>h. read_ok (F h)) (BinReader cs) = None \<longleftrightarrow> length cs < 32"
    for F :: "nat list \<Rightarrow> pow_proof"
    by (simp add: read_bind_def read_unwrap_def read_fixed_bytes.simps read_ok_def MAX_FIXED_READ_def)
  have len: "read_bytes_len_prefix (BinReader ds) \<noteq> None" for ds
    by (simp add: read_bytes_len_prefix_def read_bind_def read_u64_def read_fixed_bytes.simps read_ok_def)
  have md5: "read_bind read_u8 (\<lambda>edge_bits. read_bind read_bytes_len_prefix (\<lambda>proof_bytes.
           if utf8_valid proof_bytes then read_ok (MD5Proof proof_bytes edge_bits) else read_panic)) (BinReader cs) = None \<longleftrightarrow>
      (\<exists>edge_bits ds x r. cs = edge_bits # ds \<and> read_bytes_len_prefix (BinReader ds) = Some (Inr x, r) \<and> \<not> utf8_valid x)"
  proof (cases cs)
    case Nil
    then show ?thesis by (simp add: read_bind_def ints_eof)
  next
    case (Cons eb ds)
    show ?thesis unfolding Cons read_bind_u8 using len [of ds]
      by (auto simp: read_bind_def read_ok_def read_panic_def split: option.splits sum.splits prod.splits)
  qed
  show ?thesis
    unfolding Cons read_proof_def read_bind_u8 using read_cuckoo_returns [of ct cs] fixed md5
    by (auto simp: read_panic_def)
qed


lemma be_nat_replicate_max: "be_nat (replicate n 255) = 256 ^ n - 1"
proof (induction n)
  case (Suc n)
  have "replicate (Suc n) (255::nat) = replicate n 255 @ [255]" by (simp add: replicate_append_same)
  moreover obtain m where "(256::nat) ^ n = Suc m" using not0_implies_Suc by force
  ultimately show ?case using Suc by (simp del: replicate_Suc)
qed (simp add: be_nat_def)

lemma be_nat_zeros: "be_nat (replicate n 0 @ bs) = be_nat bs" "be_nat (bs @ replicate n 0) = be_nat bs * 256 ^ n"
proof -
  show "be_nat (replicate n 0 @ bs) = be_nat bs" by (induction n) (simp_all add: be_nat_def)
  show "be_nat (bs @ replicate n 0) = be_nat bs * 256 ^ n"
  proof (induction n)
    case (Suc n)
    have "bs @ replicate (Suc n) 0 = (bs @ replicate n 0) @ [0]" by (simp add: replicate_append_same)
    then have "be_nat (bs @ replicate (Suc n) 0) = be_nat (bs @ replicate n 0) * 256 + 0" by (simp only: be_nat_snoc)
    then show ?case using Suc by simp
  qed simp
qed


end
