(* ===== verification/Tx_Types.thy ===== *)
theory Tx_Types
  imports Pow_Types "HOL-Library.List_Lexorder"
begin

text \<open>
  Kernels, inputs, outputs and transaction bodies of \<open>core/src/core/transaction.rs\<close> with their binary
  forms, and the forms of the keys and commitments of \<open>core/src/ser.rs\<close>. Commitments, signatures,
  range proofs and blinding factors are byte strings: \<open>secp256k1\<close> is external. The size of a range
  proof, a constant of that library, is the parameter \<open>mps\<close>; the hash function is the parameter
  \<open>hash\<close>. Items are ordered and compared by their hashes, byte by byte.
\<close>

section \<open>Keys and commitments\<close>

type_synonym commitment = "u8 list"
type_synonym blinding_factor = "u8 list"

definition PEDERSEN_COMMITMENT_SIZE :: usize where "PEDERSEN_COMMITMENT_SIZE = 33"
definition AGG_SIGNATURE_SIZE :: usize where "AGG_SIGNATURE_SIZE = 64"
definition SECRET_KEY_SIZE :: usize where "SECRET_KEY_SIZE = 32"

definition read_commitment :: "commitment read" where
  "read_commitment = read_fixed_bytes PEDERSEN_COMMITMENT_SIZE"

definition blinding_from_slice :: "u8 list \<Rightarrow> blinding_factor" where
  "blinding_from_slice bs = take SECRET_KEY_SIZE bs @ replicate (SECRET_KEY_SIZE - length bs) 0"

definition read_blinding_factor :: "blinding_factor read" where
  "read_blinding_factor = read_bind (read_fixed_bytes SECRET_KEY_SIZE) (\<lambda>bytes. read_ok (blinding_from_slice bytes))"

definition read_signature :: "u8 list read" where
  "read_signature = read_fixed_bytes AGG_SIGNATURE_SIZE"

text \<open>A range proof is read into an array of the maximal size, which becomes its length.\<close>

definition read_range_proof :: "usize \<Rightarrow> u8 list read" where
  "read_range_proof mps =
     read_bind read_u64 (\<lambda>len. read_bind (read_fixed_bytes (min len mps)) (\<lambda>p. read_ok (p @ replicate (mps - length p) 0)))"

definition write_range_proof :: "u8 list \<Rightarrow> u8 list" where
  "write_range_proof p = write_bytes p"

section \<open>Kernels\<close>

datatype kernel_features = PlainKernel | CoinbaseKernel | HeightLocked

fun kernel_features_u8 :: "kernel_features \<Rightarrow> u8" where
  "kernel_features_u8 PlainKernel = 0"
| "kernel_features_u8 CoinbaseKernel = 1"
| "kernel_features_u8 HeightLocked = 2"

definition kernel_features_from_u8 :: "u8 \<Rightarrow> kernel_features option" where
  "kernel_features_from_u8 b =
     (if b = 0 then Some PlainKernel else if b = 1 then Some CoinbaseKernel else if b = 2 then Some HeightLocked else None)"

definition write_kernel_features :: "kernel_features \<Rightarrow> u8 list" where
  "write_kernel_features f = write_u8 (kernel_features_u8 f)"

definition read_kernel_features :: "kernel_features read" where
  "read_kernel_features = read_bind read_u8 (\<lambda>b.
     case kernel_features_from_u8 b of None \<Rightarrow> read_err CorruptedData | Some f \<Rightarrow> read_ok f)"

record tx_kernel =
  k_features :: kernel_features
  fee :: u64
  lock_height :: u64
  excess :: commitment
  excess_sig :: "u8 list"

definition write_kernel :: "tx_kernel \<Rightarrow> u8 list" where
  "write_kernel k = write_kernel_features (k_features k) @ write_u64 (fee k) @ write_u64 (lock_height k) @ excess k @ excess_sig k"

definition read_kernel :: "tx_kernel read" where
  "read_kernel =
     read_bind read_kernel_features (\<lambda>f.
     read_bind read_u64 (\<lambda>fe.
     read_bind read_u64 (\<lambda>lh.
     read_bind read_commitment (\<lambda>e.
     read_bind read_signature (\<lambda>sig.
       read_ok \<lparr>k_features = f, fee = fe, lock_height = lh, excess = e, excess_sig = sig\<rparr>)))))"

definition kernel_is_coinbase :: "tx_kernel \<Rightarrow> bool" where
  "kernel_is_coinbase k \<longleftrightarrow> k_features k = CoinbaseKernel"

definition kernel_is_plain :: "tx_kernel \<Rightarrow> bool" where
  "kernel_is_plain k \<longleftrightarrow> k_features k = PlainKernel"

definition kernel_is_height_locked :: "tx_kernel \<Rightarrow> bool" where
  "kernel_is_height_locked k \<longleftrightarrow> k_features k = HeightLocked"

definition kernel_features_of :: "u64 \<Rightarrow> kernel_features" where
  "kernel_features_of lh = (if lh > 0 then HeightLocked else PlainKernel)"

definition kernel_empty :: tx_kernel where
  "kernel_empty = \<lparr>k_features = PlainKernel, fee = 0, lock_height = 0, excess = replicate 33 0, excess_sig = replicate 64 0\<rparr>"

definition kernel_with_fee :: "tx_kernel \<Rightarrow> u64 \<Rightarrow> tx_kernel" where
  "kernel_with_fee k f = k\<lparr>fee := f\<rparr>"

definition kernel_with_lock_height :: "tx_kernel \<Rightarrow> u64 \<Rightarrow> tx_kernel" where
  "kernel_with_lock_height k lh = k\<lparr>k_features := kernel_features_of lh, lock_height := lh\<rparr>"

section \<open>Inputs and outputs\<close>

datatype output_features = PlainOutput | CoinbaseOutput

fun output_features_u8 :: "output_features \<Rightarrow> u8" where
  "output_features_u8 PlainOutput = 0"
| "output_features_u8 CoinbaseOutput = 1"

definition output_features_from_u8 :: "u8 \<Rightarrow> output_features option" where
  "output_features_from_u8 b = (if b = 0 then Some PlainOutput else if b = 1 then Some CoinbaseOutput else None)"

definition write_output_features :: "output_features \<Rightarrow> u8 list" where
  "write_output_features f = write_u8 (output_features_u8 f)"

definition read_output_features :: "output_features read" where
  "read_output_features = read_bind read_u8 (\<lambda>b.
     case output_features_from_u8 b of None \<Rightarrow> read_err CorruptedData | Some f \<Rightarrow> read_ok f)"

record tx_input =
  i_features :: output_features
  i_commit :: commitment

definition write_input :: "tx_input \<Rightarrow> u8 list" where
  "write_input i = write_output_features (i_features i) @ i_commit i"

definition read_input :: "tx_input read" where
  "read_input = read_bind read_output_features (\<lambda>f. read_bind read_commitment (\<lambda>c. read_ok \<lparr>i_features = f, i_commit = c\<rparr>))"

record tx_output =
  o_features :: output_features
  o_commit :: commitment
  o_proof :: "u8 list"

definition write_output :: "serialization_mode \<Rightarrow> tx_output \<Rightarrow> u8 list" where
  "write_output mode out = write_output_features (o_features out) @ o_commit out @
     (if mode \<noteq> Hash then write_bytes (o_proof out) else [])"

definition read_output :: "usize \<Rightarrow> tx_output read" where
  "read_output mps =
     read_bind read_output_features (\<lambda>f.
     read_bind read_commitment (\<lambda>c.
     read_bind (read_range_proof mps) (\<lambda>p. read_ok \<lparr>o_features = f, o_commit = c, o_proof = p\<rparr>)))"

definition output_is_coinbase :: "tx_output \<Rightarrow> bool" where
  "output_is_coinbase out \<longleftrightarrow> o_features out = CoinbaseOutput"

record output_identifier =
  oi_features :: output_features
  oi_commit :: commitment

definition from_output :: "tx_output \<Rightarrow> output_identifier" where
  "from_output out = \<lparr>oi_features = o_features out, oi_commit = o_commit out\<rparr>"

definition from_input :: "tx_input \<Rightarrow> output_identifier" where
  "from_input inp = \<lparr>oi_features = i_features inp, oi_commit = i_commit inp\<rparr>"

definition into_output :: "output_identifier \<Rightarrow> u8 list \<Rightarrow> tx_output" where
  "into_output oi p = \<lparr>o_features = oi_features oi, o_commit = oi_commit oi, o_proof = p\<rparr>"

definition write_output_identifier :: "output_identifier \<Rightarrow> u8 list" where
  "write_output_identifier oi = write_output_features (oi_features oi) @ oi_commit oi"

definition read_output_identifier :: "output_identifier read" where
  "read_output_identifier = read_bind read_output_features (\<lambda>f. read_bind read_commitment (\<lambda>c. read_ok \<lparr>oi_features = f, oi_commit = c\<rparr>))"

section \<open>Hashes\<close>

type_synonym hash_fun = "u8 list \<Rightarrow> u8 list"

abbreviation input_hash :: "hash_fun \<Rightarrow> tx_input \<Rightarrow> u8 list" where
  "input_hash hash i \<equiv> hash (write_input i)"

abbreviation output_hash :: "hash_fun \<Rightarrow> tx_output \<Rightarrow> u8 list" where
  "output_hash hash out \<equiv> hash (write_output Hash out)"

abbreviation kernel_hash :: "hash_fun \<Rightarrow> tx_kernel \<Rightarrow> u8 list" where
  "kernel_hash hash k \<equiv> hash (write_kernel k)"

section \<open>Bodies\<close>

record tx_body =
  inputs :: "tx_input list"
  outputs :: "tx_output list"
  kernels :: "tx_kernel list"

definition BLOCK_INPUT_WEIGHT :: usize where "BLOCK_INPUT_WEIGHT = 1"
definition BLOCK_OUTPUT_WEIGHT :: usize where "BLOCK_OUTPUT_WEIGHT = 21"
definition BLOCK_KERNEL_WEIGHT :: usize where "BLOCK_KERNEL_WEIGHT = 3"

definition body_empty :: tx_body where
  "body_empty = \<lparr>inputs = [], outputs = [], kernels = []\<rparr>"

definition tx_weight :: "usize \<Rightarrow> usize \<Rightarrow> usize \<Rightarrow> usize" where
  "tx_weight input_len output_len kernel_len =
     max (u64_sat_sub (u64_sat_add (u64_sat_mul output_len 4) kernel_len) input_len) 1"

definition weight_as_block :: "usize \<Rightarrow> usize \<Rightarrow> usize \<Rightarrow> usize" where
  "weight_as_block input_len output_len kernel_len =
     u64_sat_add (u64_sat_add (u64_sat_mul input_len BLOCK_INPUT_WEIGHT) (u64_sat_mul output_len BLOCK_OUTPUT_WEIGHT))
       (u64_sat_mul kernel_len BLOCK_KERNEL_WEIGHT)"

definition verify_sorted :: "hash_fun \<Rightarrow> tx_body \<Rightarrow> ser_error + unit" where
  "verify_sorted hash b =
     bind_res (verify_sorted_and_unique (map (input_hash hash) (inputs b))) (\<lambda>_.
     bind_res (verify_sorted_and_unique (map (output_hash hash) (outputs b))) (\<lambda>_.
     verify_sorted_and_unique (map (kernel_hash hash) (kernels b))))"

definition body_sort :: "hash_fun \<Rightarrow> tx_body \<Rightarrow> tx_body" where
  "body_sort hash b = \<lparr>inputs = sort_key (input_hash hash) (inputs b), outputs = sort_key (output_hash hash) (outputs b),
     kernels = sort_key (kernel_hash hash) (kernels b)\<rparr>"

definition body_init :: "hash_fun \<Rightarrow> tx_input list \<Rightarrow> tx_output list \<Rightarrow> tx_kernel list \<Rightarrow> bool \<Rightarrow> ser_error + tx_body" where
  "body_init hash ins outs kers verify_srt =
     (let body = \<lparr>inputs = ins, outputs = outs, kernels = kers\<rparr>
      in if verify_srt then bind_res (verify_sorted hash body) (\<lambda>_. Inr body) else Inr (body_sort hash body))"

definition write_body :: "serialization_mode \<Rightarrow> tx_body \<Rightarrow> u8 list" where
  "write_body mode b = write_u64 (length (inputs b)) @ write_u64 (length (outputs b)) @ write_u64 (length (kernels b)) @
     write_vec write_input (inputs b) @ write_vec (write_output mode) (outputs b) @ write_vec write_kernel (kernels b)"

definition read_body :: "chain_types \<Rightarrow> hash_fun \<Rightarrow> usize \<Rightarrow> tx_body read" where
  "read_body ct hash mps =
     read_bind read_u64 (\<lambda>input_len.
     read_bind read_u64 (\<lambda>output_len.
     read_bind read_u64 (\<lambda>kernel_len.
       if weight_as_block input_len output_len kernel_len > max_block_weight ct then read_err TooLargeReadErr
       else
         read_bind (read_multi read_input input_len) (\<lambda>ins.
         read_bind (read_multi (read_output mps) output_len) (\<lambda>outs.
         read_bind (read_multi read_kernel kernel_len) (\<lambda>kers.
           case body_init hash ins outs kers True of Inl _ \<Rightarrow> read_err CorruptedData | Inr b \<Rightarrow> read_ok b))))))"

section \<open>Everything is read back\<close>

lemma reads_commitment [reads_intros]: "length c = PEDERSEN_COMMITMENT_SIZE \<Longrightarrow> reads read_commitment c c"
  unfolding read_commitment_def by (rule reads_fixed_bytes) (simp_all add: PEDERSEN_COMMITMENT_SIZE_def MAX_FIXED_READ_def)

lemma reads_signature [reads_intros]: "length c = AGG_SIGNATURE_SIZE \<Longrightarrow> reads read_signature c c"
  unfolding read_signature_def by (rule reads_fixed_bytes) (simp_all add: AGG_SIGNATURE_SIZE_def MAX_FIXED_READ_def)

lemma reads_blinding_factor [reads_intros]:
  "length c = SECRET_KEY_SIZE \<Longrightarrow> reads read_blinding_factor c c"
  unfolding read_blinding_factor_def
  by (rule reads_last [OF reads_fixed_bytes])
    (simp_all add: SECRET_KEY_SIZE_def MAX_FIXED_READ_def blinding_from_slice_def reads_ok)

lemma reads_range_proof [reads_intros]:
  assumes "length p = mps" and "0 < mps" and "mps \<le> MAX_FIXED_READ"
  shows "reads (read_range_proof mps) (write_bytes p) p"
  unfolding read_range_proof_def write_bytes_def
  by (rule reads_bind [OF reads_ints(4)], use assms in \<open>simp add: MAX_FIXED_READ_def\<close>)
    (use assms in \<open>auto intro!: reads_last [OF reads_fixed_bytes] reads_ok_eq\<close>)

lemma reads_kernel_features [reads_intros]: "reads read_kernel_features (write_kernel_features f) f"
  unfolding read_kernel_features_def write_kernel_features_def
  by (rule reads_last [OF reads_ints(1)]; cases f) (simp_all add: kernel_features_from_u8_def reads_ok)

lemma reads_output_features [reads_intros]: "reads read_output_features (write_output_features f) f"
  unfolding read_output_features_def write_output_features_def
  by (rule reads_last [OF reads_ints(1)]; cases f) (simp_all add: output_features_from_u8_def reads_ok)

definition kernel_ok :: "tx_kernel \<Rightarrow> bool" where
  "kernel_ok k \<longleftrightarrow> fee k < u64_size \<and> lock_height k < u64_size \<and>
     length (excess k) = PEDERSEN_COMMITMENT_SIZE \<and> length (excess_sig k) = AGG_SIGNATURE_SIZE"

definition output_ok :: "usize \<Rightarrow> tx_output \<Rightarrow> bool" where
  "output_ok mps out \<longleftrightarrow> length (o_commit out) = PEDERSEN_COMMITMENT_SIZE \<and> length (o_proof out) = mps \<and>
     0 < mps \<and> mps \<le> MAX_FIXED_READ"

interpretation kernel_codec: codec write_kernel read_kernel kernel_ok
  by unfold_locales (unfold write_kernel_def read_kernel_def kernel_ok_def,
      intro reads_bind [OF reads_kernel_features] reads_bind [OF reads_ints(4)] reads_bind [OF reads_commitment]
        reads_last [OF reads_signature] reads_ok_eq, simp_all)

interpretation input_codec: codec write_input read_input "\<lambda>i. length (i_commit i) = PEDERSEN_COMMITMENT_SIZE"
  by unfold_locales (unfold write_input_def read_input_def,
      intro reads_bind [OF reads_output_features] reads_last [OF reads_commitment] reads_ok_eq, simp_all)

interpretation output_codec: codec "write_output Full" "read_output mps" "output_ok mps"
  by unfold_locales (unfold write_output_def read_output_def output_ok_def,
      simp, intro reads_bind [OF reads_output_features] reads_bind [OF reads_commitment] reads_last [OF reads_range_proof] reads_ok_eq, simp_all)

interpretation output_identifier_codec: codec write_output_identifier read_output_identifier
    "\<lambda>oi. length (oi_commit oi) = PEDERSEN_COMMITMENT_SIZE"
  by unfold_locales (unfold write_output_identifier_def read_output_identifier_def,
      intro reads_bind [OF reads_output_features] reads_last [OF reads_commitment] reads_ok_eq, simp_all)

definition body_ok :: "chain_types \<Rightarrow> hash_fun \<Rightarrow> usize \<Rightarrow> tx_body \<Rightarrow> bool" where
  "body_ok ct hash mps b \<longleftrightarrow>
     list_all (\<lambda>i. length (i_commit i) = PEDERSEN_COMMITMENT_SIZE) (inputs b) \<and>
     list_all (output_ok mps) (outputs b) \<and> list_all kernel_ok (kernels b) \<and>
     weight_as_block (length (inputs b)) (length (outputs b)) (length (kernels b)) \<le> max_block_weight ct \<and>
     verify_sorted hash b = Inr ()"

lemma weight_as_block_ge:
  assumes "weight_as_block i u k \<le> max_block_weight ct"
  shows "i \<le> 1000000" "u \<le> 1000000" "k \<le> 1000000"
proof -
  have "max_block_weight ct \<le> 40000" by (cases ct) (simp_all add: max_block_weight_def)
  with assms have "i + u * 21 + k * 3 \<le> 40000"
    by (simp add: weight_as_block_def BLOCK_INPUT_WEIGHT_def BLOCK_OUTPUT_WEIGHT_def BLOCK_KERNEL_WEIGHT_def
        u64_sat_add_def u64_sat_mul_def min_def split: if_splits)
  then show "i \<le> 1000000" "u \<le> 1000000" "k \<le> 1000000" by simp_all
qed

lemma body_eta: "\<lparr>inputs = inputs b, outputs = outputs b, kernels = kernels b\<rparr> = (b :: tx_body)"
  by simp

interpretation body_codec: codec "write_body Full" "read_body ct hash mps" "body_ok ct hash mps"
proof
  fix b :: tx_body
  assume b: "body_ok ct hash mps b"
  note len = weight_as_block_ge [of "length (inputs b)" "length (outputs b)" "length (kernels b)" ct]
  have "\<not> weight_as_block (length (inputs b)) (length (outputs b)) (length (kernels b)) > max_block_weight ct"
    using b by (simp add: body_ok_def)
  moreover have "body_init hash (inputs b) (outputs b) (kernels b) True = Inr b"
    using b by (simp add: body_ok_def body_init_def body_eta Let_def)
  moreover have "length (inputs b) < u64_size" "length (outputs b) < u64_size" "length (kernels b) < u64_size"
    using len b by (simp_all add: body_ok_def)
  ultimately show "reads (read_body ct hash mps) (write_body Full b) b"
    unfolding write_body_def read_body_def
    by (intro reads_bind [OF reads_ints(4)], simp_all only: if_False)
      (intro reads_bind [OF input_codec.reads_multi] reads_bind [OF output_codec.reads_multi] reads_last [OF kernel_codec.reads_multi],
        use b len in \<open>simp_all add: body_ok_def reads_ok\<close>)
qed

end
