(* ===== verification/Committed.thy ===== *)
theory Committed
  imports Tx_Types
begin

text \<open>
  Sums of commitments, \<open>core/src/core/committed.rs\<close> and \<open>core/src/core/block_sums.rs\<close>. The
  operations of the external \<open>secp256k1\<close> are a record that the definitions take as the parameter
  \<open>S\<close>. \<open>secp_laws\<close> states what the code relies on: commitments and keys stand for elements of a
  commutative group, and the library's sums are sums in it.
\<close>

section \<open>The library\<close>

record secp =
  commit_sum :: "commitment list \<Rightarrow> commitment list \<Rightarrow> string + commitment"
  commit_key :: "u64 \<Rightarrow> u8 list \<Rightarrow> string + commitment"
  commit_value :: "u64 \<Rightarrow> string + commitment"
  blind_sum :: "u8 list list \<Rightarrow> u8 list list \<Rightarrow> string + u8 list"
  key_from_slice :: "u8 list \<Rightarrow> string + u8 list"
  to_pubkey :: "commitment \<Rightarrow> string + u8 list"
  verify_single :: "u8 list \<Rightarrow> u8 list \<Rightarrow> u8 list \<Rightarrow> bool"
  verify_bullet_proof_multi :: "commitment list \<Rightarrow> u8 list list \<Rightarrow> string + unit"

definition ZERO_KEY :: "u8 list" where "ZERO_KEY = replicate SECRET_KEY_SIZE 0"

definition blinding_zero :: blinding_factor where
  "blinding_zero = blinding_from_slice ZERO_KEY"

definition secret_key :: "secp \<Rightarrow> blinding_factor \<Rightarrow> string + u8 list" where
  "secret_key S bf = (if bf = blinding_zero then Inr ZERO_KEY else key_from_slice S bf)"

definition commit_to_zero_value :: commitment where
  "commit_to_zero_value = replicate PEDERSEN_COMMITMENT_SIZE 0"

section \<open>Definitions\<close>

datatype committed_error = CommittedKeychain string | CommittedSecp string | KernelSumMismatch | InvalidValue

definition map_err :: "('e \<Rightarrow> 'f) \<Rightarrow> 'e + 'a \<Rightarrow> 'f + 'a" where
  "map_err f r = (case r of Inl e \<Rightarrow> Inl (f e) | Inr x \<Rightarrow> Inr x)"

definition sum_commits :: "secp \<Rightarrow> commitment list \<Rightarrow> commitment list \<Rightarrow> committed_error + commitment" where
  "sum_commits S positive negative =
     map_err CommittedSecp (commit_sum S (filter (\<lambda>x. x \<noteq> commit_to_zero_value) positive)
       (filter (\<lambda>x. x \<noteq> commit_to_zero_value) negative))"

definition to_secrets :: "secp \<Rightarrow> blinding_factor list \<Rightarrow> u8 list list" where
  "to_secrets S bf = List.map_filter (\<lambda>x. case secret_key S x of Inl _ \<Rightarrow> None | Inr k \<Rightarrow> Some k) (filter (\<lambda>x. x \<noteq> blinding_zero) bf)"

definition sum_kernel_offsets :: "secp \<Rightarrow> blinding_factor list \<Rightarrow> blinding_factor list \<Rightarrow> committed_error + blinding_factor" where
  "sum_kernel_offsets S positive negative =
     (let pos = to_secrets S positive; neg = to_secrets S negative
      in if pos = [] then Inr blinding_zero
         else bind_res (map_err CommittedSecp (blind_sum S pos neg)) (\<lambda>sm. Inr (blinding_from_slice sm)))"

text \<open>A type that is \<open>Committed\<close> is the triple of its commitments.\<close>

record committed =
  inputs_committed :: "commitment list"
  outputs_committed :: "commitment list"
  kernels_committed :: "commitment list"

definition sum_kernel_excesses :: "secp \<Rightarrow> committed \<Rightarrow> blinding_factor \<Rightarrow> committed_error + commitment \<times> commitment" where
  "sum_kernel_excesses S c offset =
     bind_res (sum_commits S (kernels_committed c) []) (\<lambda>kernel_sum.
     bind_res
       (if offset \<noteq> blinding_zero
        then bind_res (map_err CommittedKeychain (secret_key S offset)) (\<lambda>key.
             bind_res (map_err CommittedSecp (commit_key S 0 key)) (\<lambda>offset_commit. Inr [kernel_sum, offset_commit]))
        else Inr [kernel_sum]) (\<lambda>commits.
     bind_res (map_err CommittedSecp (commit_sum S commits [])) (\<lambda>kernel_sum_plus_offset.
       Inr (kernel_sum, kernel_sum_plus_offset))))"

text \<open>\<open>checked_abs\<close> fails on the least integer; \<open>unwrap\<close> of the commitment to the overage panics.\<close>

definition sum_commitments :: "secp \<Rightarrow> committed \<Rightarrow> i64 \<Rightarrow> (committed_error + commitment) option" where
  "sum_commitments S c overage =
     (if overage \<noteq> 0 then
        (if overage = - 9223372036854775808 then Some (Inl InvalidValue)
         else case commit_value S (nat \<bar>overage\<bar>) of Inl _ \<Rightarrow> None
           | Inr over_commit \<Rightarrow> Some
               (if overage < 0 then sum_commits S (outputs_committed c) (inputs_committed c @ [over_commit])
                else sum_commits S (outputs_committed c @ [over_commit]) (inputs_committed c)))
      else Some (sum_commits S (outputs_committed c) (inputs_committed c)))"

definition verify_kernel_sums :: "secp \<Rightarrow> committed \<Rightarrow> i64 \<Rightarrow> blinding_factor \<Rightarrow> (committed_error + commitment \<times> commitment) option" where
  "verify_kernel_sums S c overage kernel_offset =
     map_option (\<lambda>r. bind_res r (\<lambda>utxo_sum.
       bind_res (sum_kernel_excesses S c kernel_offset) (\<lambda>(kernel_sum, kernel_sum_plus_offset).
         if utxo_sum \<noteq> kernel_sum_plus_offset then Inl KernelSumMismatch else Inr (utxo_sum, kernel_sum))))
       (sum_commitments S c overage)"

record block_sums =
  utxo_sum :: commitment
  kernel_sum :: commitment

definition block_sums_default :: block_sums where
  "block_sums_default = \<lparr>utxo_sum = commit_to_zero_value, kernel_sum = commit_to_zero_value\<rparr>"

definition write_block_sums :: "block_sums \<Rightarrow> u8 list" where
  "write_block_sums s = utxo_sum s @ kernel_sum s"

definition read_block_sums :: "block_sums read" where
  "read_block_sums = read_bind read_commitment (\<lambda>u. read_bind read_commitment (\<lambda>k. read_ok \<lparr>utxo_sum = u, kernel_sum = k\<rparr>))"

text \<open>A block on top of the sums of its predecessor.\<close>

definition committed_on_sums :: "block_sums \<Rightarrow> committed \<Rightarrow> committed" where
  "committed_on_sums s c = \<lparr>inputs_committed = inputs_committed c,
     outputs_committed = utxo_sum s # outputs_committed c, kernels_committed = kernel_sum s # kernels_committed c\<rparr>"

interpretation block_sums_codec: codec write_block_sums read_block_sums
    "\<lambda>s. length (utxo_sum s) = PEDERSEN_COMMITMENT_SIZE \<and> length (kernel_sum s) = PEDERSEN_COMMITMENT_SIZE"
  by unfold_locales (unfold write_block_sums_def read_block_sums_def,
      intro reads_bind [OF reads_commitment] reads_last [OF reads_commitment] reads_ok_eq, simp_all)

section \<open>Sums in the group\<close>

text \<open>\<open>cval\<close> is the group element of a commitment, \<open>kval\<close> that of a commitment to zero under a key,
  \<open>hval\<close> that of a commitment to a value under the zero key. Equal sums are equal bytes.\<close>

definition secp_laws :: "secp \<Rightarrow> (commitment \<Rightarrow> 'g::ab_group_add) \<Rightarrow> (u8 list \<Rightarrow> 'g) \<Rightarrow> (nat \<Rightarrow> 'g) \<Rightarrow> bool" where
  "secp_laws S cval kval hval \<longleftrightarrow>
     (\<forall>ps ns c. commit_sum S ps ns = Inr c \<longrightarrow> cval c = sum_list (map cval ps) - sum_list (map cval ns)) \<and>
     (\<forall>ps ns c ps' ns' c'. commit_sum S ps ns = Inr c \<and> commit_sum S ps' ns' = Inr c' \<and> cval c = cval c' \<longrightarrow> c = c') \<and>
     (\<forall>k c. commit_key S 0 k = Inr c \<longrightarrow> cval c = kval k) \<and>
     (\<forall>v c. commit_value S v = Inr c \<longrightarrow> cval c = hval v) \<and>
     (\<forall>ps ns k. blind_sum S ps ns = Inr k \<longrightarrow> length k = SECRET_KEY_SIZE \<and> kval k = sum_list (map kval ps) - sum_list (map kval ns)) \<and>
     (\<forall>b k. key_from_slice S b = Inr k \<longrightarrow> k = b) \<and>
     (\<forall>v w. hval (v + w) = hval v + hval w) \<and>
     cval commit_to_zero_value = 0 \<and> kval ZERO_KEY = 0"

lemma secp_lawsD:
  assumes "secp_laws S cval kval hval"
  shows "commit_sum S ps ns = Inr c \<Longrightarrow> cval c = sum_list (map cval ps) - sum_list (map cval ns)"
    and "commit_sum S ps ns = Inr c \<Longrightarrow> commit_sum S ps' ns' = Inr c' \<Longrightarrow> cval c = cval c' \<Longrightarrow> c = c'"
    and "commit_key S 0 k = Inr c \<Longrightarrow> cval c = kval k"
    and "commit_value S v = Inr c \<Longrightarrow> cval c = hval v"
    and "blind_sum S ps' ns' = Inr k \<Longrightarrow> kval k = sum_list (map kval ps') - sum_list (map kval ns')"
    and "blind_sum S ps' ns' = Inr k \<Longrightarrow> length k = SECRET_KEY_SIZE"
    and "key_from_slice S b = Inr k \<Longrightarrow> k = b"
    and "hval (v + w) = hval v + hval w"
    and "cval commit_to_zero_value = 0" and "kval ZERO_KEY = 0"
  using assms unfolding secp_laws_def by blast+

lemma blinding_zero_bytes: "blinding_zero = ZERO_KEY"
  by (simp add: blinding_zero_def blinding_from_slice_def ZERO_KEY_def)

lemma hval_0: "secp_laws S cval kval hval \<Longrightarrow> hval 0 = 0"
  using secp_lawsD(8) [of S cval kval hval 0 0] by simp

lemma sum_filter_zero:
  assumes "secp_laws S cval kval hval"
  shows "sum_list (map cval (filter (\<lambda>x. x \<noteq> commit_to_zero_value) xs)) = sum_list (map cval xs)"
  using secp_lawsD(9) [OF assms] by (induction xs) auto

lemma map_err_Inr [simp]: "map_err f r = Inr x \<longleftrightarrow> r = Inr x"
  by (cases r) (simp_all add: map_err_def)

lemma sum_commits_cval:
  assumes "secp_laws S cval kval hval" and "sum_commits S ps ns = Inr c"
  shows "cval c = sum_list (map cval ps) - sum_list (map cval ns)"
  using secp_lawsD(1) [OF assms(1)] assms(2) by (simp add: sum_commits_def sum_filter_zero [OF assms(1)])

lemma secret_key_kval:
  "secp_laws S cval kval hval \<Longrightarrow> secret_key S bf = Inr k \<Longrightarrow> k = bf"
  using secp_lawsD(7) [of S cval kval hval bf k] by (auto simp: secret_key_def blinding_zero_bytes split: if_splits)

lemma sum_kernel_excesses_cval:
  assumes "secp_laws S cval kval hval" and "sum_kernel_excesses S c offset = Inr (k, k')"
  shows "cval k = sum_list (map cval (kernels_committed c))"
    and "cval k' = sum_list (map cval (kernels_committed c)) + kval offset"
proof -
  show k: "cval k = sum_list (map cval (kernels_committed c))"
    using assms(2) sum_commits_cval [OF assms(1), of "kernels_committed c" "[]"]
    by (auto simp: sum_kernel_excesses_def bind_res_Inr_iff)
  obtain commits where commits: "(if offset \<noteq> blinding_zero
        then bind_res (map_err CommittedKeychain (secret_key S offset)) (\<lambda>key.
             bind_res (map_err CommittedSecp (commit_key S 0 key)) (\<lambda>offset_commit. Inr [k, offset_commit]))
        else Inr [k]) = Inr commits" "commit_sum S commits [] = Inr k'"
    using assms(2) by (auto simp: sum_kernel_excesses_def bind_res_Inr_iff)
  have "sum_list (map cval commits) = cval k + kval offset"
    using commits(1) secp_lawsD(3,10) [OF assms(1)] secret_key_kval [OF assms(1), of offset]
    by (auto simp: bind_res_Inr_iff blinding_zero_bytes split: if_splits)
  then show "cval k' = sum_list (map cval (kernels_committed c)) + kval offset"
    using secp_lawsD(1) [OF assms(1) commits(2)] k by simp
qed

definition oval :: "(nat \<Rightarrow> 'g) \<Rightarrow> i64 \<Rightarrow> 'g::ab_group_add" where
  "oval hval v = (if v < 0 then - hval (nat (- v)) else hval (nat v))"

lemma sum_commitments_cval:
  assumes "secp_laws S cval kval hval" and "sum_commitments S c overage = Some (Inr u)"
  shows "cval u = sum_list (map cval (outputs_committed c)) - sum_list (map cval (inputs_committed c)) + oval hval overage"
proof (cases "overage = 0")
  case True
  then show ?thesis using assms(2) sum_commits_cval [OF assms(1)] hval_0 [OF assms(1)] by (simp add: sum_commitments_def oval_def)
next
  case False
  then obtain oc where oc: "cval oc = hval (nat \<bar>overage\<bar>)"
    "(if overage < 0 then sum_commits S (outputs_committed c) (inputs_committed c @ [oc])
      else sum_commits S (outputs_committed c @ [oc]) (inputs_committed c)) = Inr u"
    using assms(2) secp_lawsD(4) [OF assms(1)] by (auto simp: sum_commitments_def split: if_splits sum.splits)
  show ?thesis
  proof (cases "overage < 0")
    case True
    then show ?thesis using sum_commits_cval [OF assms(1), of _ "inputs_committed c @ [oc]"] oc by (simp add: oval_def)
  next
    case False
    then show ?thesis using sum_commits_cval [OF assms(1), of "outputs_committed c @ [oc]"] oc by (simp add: oval_def)
  qed
qed

text \<open>The commitments balance: what the sums compare, as an equation of the group.\<close>

definition balanced :: "(commitment \<Rightarrow> 'g::ab_group_add) \<Rightarrow> (u8 list \<Rightarrow> 'g) \<Rightarrow> (nat \<Rightarrow> 'g) \<Rightarrow> committed \<Rightarrow> i64 \<Rightarrow> blinding_factor \<Rightarrow> bool" where
  "balanced cval kval hval c overage offset \<longleftrightarrow>
     sum_list (map cval (outputs_committed c)) - sum_list (map cval (inputs_committed c)) + oval hval overage =
     sum_list (map cval (kernels_committed c)) + kval offset"

lemma sum_commitments_from_sum:
  "sum_commitments S c overage = Some (Inr u) \<Longrightarrow> \<exists>ps ns. commit_sum S ps ns = Inr u"
  by (auto simp: sum_commitments_def sum_commits_def split: if_splits sum.splits)

lemma sum_kernel_excesses_from_sum:
  "sum_kernel_excesses S c offset = Inr (k, k') \<Longrightarrow> \<exists>ps ns. commit_sum S ps ns = Inr k'"
  by (auto simp: sum_kernel_excesses_def bind_res_Inr_iff)

lemma map_err_no_mismatch [simp]:
  "map_err CommittedSecp r \<noteq> Inl KernelSumMismatch" "map_err CommittedKeychain r \<noteq> Inl KernelSumMismatch"
  by (cases r; simp add: map_err_def)+

lemma sums_no_mismatch:
  "sum_kernel_excesses S c offset \<noteq> Inl KernelSumMismatch" "sum_commitments S c overage \<noteq> Some (Inl KernelSumMismatch)"
proof -
  have s: "sum_commits S ps ns \<noteq> Inl KernelSumMismatch" for ps ns by (simp add: sum_commits_def)
  show "sum_kernel_excesses S c offset \<noteq> Inl KernelSumMismatch"
    using s by (auto simp: sum_kernel_excesses_def bind_res_Inl_iff split: if_splits)
  show "sum_commitments S c overage \<noteq> Some (Inl KernelSumMismatch)"
    using s by (simp add: sum_commitments_def split: sum.split)
qed

text \<open>If the sums can be computed at all, they match exactly if the commitments balance.\<close>

lemma verify_kernel_sums_balanced:
  assumes L: "secp_laws S cval kval hval" and v: "verify_kernel_sums S c overage offset = Some r"
  shows "r = Inr s \<Longrightarrow> balanced cval kval hval c overage offset"
    and "balanced cval kval hval c overage offset \<Longrightarrow> r \<noteq> Inl KernelSumMismatch"
proof -
  obtain ru where ru: "sum_commitments S c overage = Some ru" using v by (auto simp: verify_kernel_sums_def)
  have r: "r = bind_res ru (\<lambda>utxo_sum. bind_res (sum_kernel_excesses S c offset) (\<lambda>(kernel_sum, kernel_sum_plus_offset).
         if utxo_sum \<noteq> kernel_sum_plus_offset then Inl KernelSumMismatch else Inr (utxo_sum, kernel_sum)))"
    using v ru by (simp add: verify_kernel_sums_def)
  have eq: "u = k' \<longleftrightarrow> balanced cval kval hval c overage offset"
    if "ru = Inr u" "sum_kernel_excesses S c offset = Inr (k, k')" for u k k'
  proof -
    have "cval u = cval k' \<longleftrightarrow> balanced cval kval hval c overage offset"
      using sum_commitments_cval [OF L, of c overage u] sum_kernel_excesses_cval [OF L that(2)] ru that
      by (simp add: balanced_def)
    moreover have "cval u = cval k' \<Longrightarrow> u = k'"
      using secp_lawsD(2) [OF L] sum_commitments_from_sum [of S c overage u] sum_kernel_excesses_from_sum [OF that(2)] ru that by blast
    ultimately show ?thesis by blast
  qed
  show "r = Inr s \<Longrightarrow> balanced cval kval hval c overage offset"
    using eq unfolding r by (auto simp: bind_res_Inr_iff split: if_splits)
  show "r \<noteq> Inl KernelSumMismatch" if b: "balanced cval kval hval c overage offset"
  proof (cases ru)
    case (Inl e)
    then show ?thesis using sums_no_mismatch(2) [of S c overage] ru unfolding r by simp
  next
    case (Inr u)
    show ?thesis
    proof (cases "sum_kernel_excesses S c offset")
      case (Inl e)
      then show ?thesis using sums_no_mismatch(1) [of S c offset] \<open>ru = Inr u\<close> unfolding r by simp
    next
      case (Inr kk)
      then show ?thesis using eq [of u "fst kk" "snd kk"] b \<open>ru = Inr u\<close> unfolding r by (cases kk) simp
    qed
  qed
qed

end
