(* ===== verification/Transaction.thy ===== *)
theory Transaction
  imports Committed "HOL-Library.Multiset"
begin

text \<open>
  Transactions, \<open>core/src/core/transaction.rs\<close>: building and validating them, cut-through, and the
  aggregation of several into one. Sorting is by the hashes of the items; items with equal hashes
  are equal to the source, so the order among them that its unstable sort leaves open does not
  matter.
\<close>

section \<open>Definitions\<close>

datatype tx_error =
    TxSecp string
  | TxKeychain string
  | TxKernelSumMismatch
  | TooHeavy
  | LockHeight u64
  | TxRangeProof
  | TxMerkleProof
  | InvalidProofMessage
  | TxCommitted committed_error
  | AggregationError
  | CutThrough
  | InvalidOutputFeatures
  | InvalidKernelFeatures
  | IncorrectSignature
  | Serialization ser_error

subsection \<open>Kernels\<close>

definition kernel_sig_msg :: "hash_fun \<Rightarrow> u64 \<Rightarrow> u64 \<Rightarrow> kernel_features \<Rightarrow> tx_error + u8 list" where
  "kernel_sig_msg hash f lh features =
     (let valid_features = (case features of
            CoinbaseKernel \<Rightarrow> f = 0 \<and> lh = 0
          | PlainKernel \<Rightarrow> lh = 0
          | HeightLocked \<Rightarrow> True)
      in if \<not> valid_features then Inl InvalidKernelFeatures
         else Inr (case features of
            CoinbaseKernel \<Rightarrow> hash (write_kernel_features features)
          | PlainKernel \<Rightarrow> hash (write_kernel_features features @ write_u64 f)
          | HeightLocked \<Rightarrow> hash (write_kernel_features features @ write_u64 f @ write_u64 lh)))"

definition msg_to_sign :: "hash_fun \<Rightarrow> tx_kernel \<Rightarrow> tx_error + u8 list" where
  "msg_to_sign hash k = kernel_sig_msg hash (fee k) (lock_height k) (k_features k)"

definition kernel_verify :: "secp \<Rightarrow> hash_fun \<Rightarrow> tx_kernel \<Rightarrow> tx_error + unit" where
  "kernel_verify S hash k =
     (if kernel_is_coinbase k \<and> fee k \<noteq> 0 \<or> \<not> kernel_is_height_locked k \<and> lock_height k \<noteq> 0
      then Inl InvalidKernelFeatures
      else bind_res (map_err TxSecp (to_pubkey S (excess k))) (\<lambda>pubkey.
           bind_res (msg_to_sign hash k) (\<lambda>msg.
           if \<not> verify_single S (excess_sig k) msg pubkey then Inl IncorrectSignature else Inr ())))"

subsection \<open>Bodies\<close>

text \<open>\<open>binary_search\<close> on an ascending vector, and \<open>insert\<close> at the place it reports.\<close>

definition insert_sorted :: "('a \<Rightarrow> 'k::linorder) \<Rightarrow> 'a \<Rightarrow> 'a list \<Rightarrow> 'a list" where
  "insert_sorted key x xs =
     (if key x \<in> key ` set xs then xs
      else takeWhile (\<lambda>y. key y < key x) xs @ x # dropWhile (\<lambda>y. key y < key x) xs)"

definition body_with_input :: "hash_fun \<Rightarrow> tx_body \<Rightarrow> tx_input \<Rightarrow> tx_body" where
  "body_with_input hash b i = b\<lparr>inputs := insert_sorted (input_hash hash) i (inputs b)\<rparr>"

definition body_with_output :: "hash_fun \<Rightarrow> tx_body \<Rightarrow> tx_output \<Rightarrow> tx_body" where
  "body_with_output hash b out = b\<lparr>outputs := insert_sorted (output_hash hash) out (outputs b)\<rparr>"

definition body_with_kernel :: "hash_fun \<Rightarrow> tx_body \<Rightarrow> tx_kernel \<Rightarrow> tx_body" where
  "body_with_kernel hash b k = b\<lparr>kernels := insert_sorted (kernel_hash hash) k (kernels b)\<rparr>"

definition body_fee :: "tx_body \<Rightarrow> u64" where
  "body_fee b = fold (\<lambda>k acc. u64_sat_add acc (fee k)) (kernels b) 0"

definition body_overage :: "tx_body \<Rightarrow> i64" where
  "body_overage b = i64_of_u64 (body_fee b)"

definition body_weight :: "tx_body \<Rightarrow> usize" where
  "body_weight b = tx_weight (length (inputs b)) (length (outputs b)) (length (kernels b))"

definition body_weight_as_block :: "tx_body \<Rightarrow> usize" where
  "body_weight_as_block b = weight_as_block (length (inputs b)) (length (outputs b)) (length (kernels b))"

definition body_lock_height :: "tx_body \<Rightarrow> u64" where
  "body_lock_height b = (if kernels b = [] then 0 else Max (set (map lock_height (kernels b))))"

datatype weighting = AsTransaction | AsLimitedTransaction usize | AsBlock | NoLimit

definition verify_weight :: "chain_types \<Rightarrow> tx_body \<Rightarrow> weighting \<Rightarrow> tx_error + unit" where
  "verify_weight ct b weighting =
     (let coinbase_weight = BLOCK_OUTPUT_WEIGHT + BLOCK_KERNEL_WEIGHT;
          check = (\<lambda>max_weight. if body_weight_as_block b > max_weight then Inl TooHeavy else Inr ())
      in case weighting of
           AsTransaction \<Rightarrow> check (u64_sat_sub (max_block_weight ct) coinbase_weight)
         | AsLimitedTransaction max_weight \<Rightarrow> check (u64_sat_sub (min (max_block_weight ct) max_weight) coinbase_weight)
         | AsBlock \<Rightarrow> check (max_block_weight ct)
         | NoLimit \<Rightarrow> Inr ())"

text \<open>The loop over the two sorted lists of hashes.\<close>

fun disjoint_sorted :: "'k::linorder list \<Rightarrow> 'k list \<Rightarrow> bool" where
  "disjoint_sorted (ih # is) (oh # os) =
     (if ih < oh then disjoint_sorted is (oh # os)
      else if ih > oh then disjoint_sorted (ih # is) os
      else False)"
| "disjoint_sorted _ _ = True"

definition verify_cut_through :: "hash_fun \<Rightarrow> tx_body \<Rightarrow> tx_error + unit" where
  "verify_cut_through hash b =
     (if disjoint_sorted (map (input_hash hash) (inputs b)) (map (output_hash hash) (outputs b))
      then Inr () else Inl CutThrough)"

definition verify_output_features :: "tx_body \<Rightarrow> tx_error + unit" where
  "verify_output_features b = (if list_ex output_is_coinbase (outputs b) then Inl InvalidOutputFeatures else Inr ())"

definition verify_kernel_features :: "tx_body \<Rightarrow> tx_error + unit" where
  "verify_kernel_features b = (if list_ex kernel_is_coinbase (kernels b) then Inl InvalidKernelFeatures else Inr ())"

definition verify_features :: "tx_body \<Rightarrow> tx_error + unit" where
  "verify_features b = bind_res (verify_output_features b) (\<lambda>_. verify_kernel_features b)"

definition body_validate_read :: "chain_types \<Rightarrow> hash_fun \<Rightarrow> tx_body \<Rightarrow> weighting \<Rightarrow> tx_error + unit" where
  "body_validate_read ct hash b weighting =
     bind_res (verify_weight ct b weighting) (\<lambda>_.
     bind_res (map_err Serialization (verify_sorted hash b)) (\<lambda>_.
     verify_cut_through hash b))"

fun verify_kernels :: "secp \<Rightarrow> hash_fun \<Rightarrow> tx_kernel list \<Rightarrow> tx_error + unit" where
  "verify_kernels S hash [] = Inr ()"
| "verify_kernels S hash (k # ks) = bind_res (kernel_verify S hash k) (\<lambda>_. verify_kernels S hash ks)"

definition batch_verify_proofs :: "secp \<Rightarrow> commitment list \<Rightarrow> u8 list list \<Rightarrow> tx_error + unit" where
  "batch_verify_proofs S commits proofs = map_err TxSecp (verify_bullet_proof_multi S commits proofs)"

definition body_validate :: "chain_types \<Rightarrow> secp \<Rightarrow> hash_fun \<Rightarrow> tx_body \<Rightarrow> weighting \<Rightarrow> tx_error + unit" where
  "body_validate ct S hash b weighting =
     bind_res (body_validate_read ct hash b weighting) (\<lambda>_.
     bind_res (if outputs b \<noteq> [] then batch_verify_proofs S (map o_commit (outputs b)) (map o_proof (outputs b)) else Inr ()) (\<lambda>_.
     verify_kernels S hash (kernels b)))"

definition body_committed :: "tx_body \<Rightarrow> committed" where
  "body_committed b = \<lparr>inputs_committed = map i_commit (inputs b), outputs_committed = map o_commit (outputs b),
     kernels_committed = map excess (kernels b)\<rparr>"

subsection \<open>Transactions\<close>

record transaction =
  t_offset :: blinding_factor
  t_body :: tx_body

definition tx_empty :: transaction where
  "tx_empty = \<lparr>t_offset = blinding_zero, t_body = body_empty\<rparr>"

definition tx_new :: "hash_fun \<Rightarrow> tx_input list \<Rightarrow> tx_output list \<Rightarrow> tx_kernel list \<Rightarrow> transaction" where
  "tx_new hash ins outs kers =
     \<lparr>t_offset = blinding_zero, t_body = body_sort hash \<lparr>inputs = ins, outputs = outs, kernels = kers\<rparr>\<rparr>"

definition tx_with_offset :: "transaction \<Rightarrow> blinding_factor \<Rightarrow> transaction" where
  "tx_with_offset t ofs = t\<lparr>t_offset := ofs\<rparr>"

definition tx_with_input :: "hash_fun \<Rightarrow> transaction \<Rightarrow> tx_input \<Rightarrow> transaction" where
  "tx_with_input hash t i = t\<lparr>t_body := body_with_input hash (t_body t) i\<rparr>"

definition tx_with_output :: "hash_fun \<Rightarrow> transaction \<Rightarrow> tx_output \<Rightarrow> transaction" where
  "tx_with_output hash t out = t\<lparr>t_body := body_with_output hash (t_body t) out\<rparr>"

definition tx_with_kernel :: "hash_fun \<Rightarrow> transaction \<Rightarrow> tx_kernel \<Rightarrow> transaction" where
  "tx_with_kernel hash t k = t\<lparr>t_body := body_with_kernel hash (t_body t) k\<rparr>"

definition tx_fee :: "transaction \<Rightarrow> u64" where "tx_fee t = body_fee (t_body t)"
definition tx_overage :: "transaction \<Rightarrow> i64" where "tx_overage t = body_overage (t_body t)"
definition tx_lock_height :: "transaction \<Rightarrow> u64" where "tx_lock_height t = body_lock_height (t_body t)"

definition fee_to_weight :: "transaction \<Rightarrow> u64" where
  "fee_to_weight t = u64_mul (tx_fee t) 1000 div body_weight (t_body t)"

definition tx_validate_read :: "chain_types \<Rightarrow> hash_fun \<Rightarrow> transaction \<Rightarrow> tx_error + unit" where
  "tx_validate_read ct hash t =
     bind_res (body_validate_read ct hash (t_body t) AsTransaction) (\<lambda>_. verify_features (t_body t))"

definition tx_validate :: "chain_types \<Rightarrow> secp \<Rightarrow> hash_fun \<Rightarrow> transaction \<Rightarrow> weighting \<Rightarrow> (tx_error + unit) option" where
  "tx_validate ct S hash t weighting =
     (case bind_res (body_validate ct S hash (t_body t) weighting) (\<lambda>_. verify_features (t_body t)) of
        Inl e \<Rightarrow> Some (Inl e)
      | Inr _ \<Rightarrow> map_option (\<lambda>r. bind_res (map_err TxCommitted r) (\<lambda>_. Inr ()))
          (verify_kernel_sums S (body_committed (t_body t)) (tx_overage t) (t_offset t)))"

definition write_tx :: "serialization_mode \<Rightarrow> transaction \<Rightarrow> u8 list" where
  "write_tx mode t = t_offset t @ write_body mode (t_body t)"

definition read_tx :: "chain_types \<Rightarrow> hash_fun \<Rightarrow> usize \<Rightarrow> transaction read" where
  "read_tx ct hash mps =
     read_bind read_blinding_factor (\<lambda>ofs.
     read_bind (read_body ct hash mps) (\<lambda>b.
       let t = \<lparr>t_offset = ofs, t_body = b\<rparr>
       in case tx_validate_read ct hash t of Inl _ \<Rightarrow> read_err CorruptedData | Inr _ \<Rightarrow> read_ok t))"

subsection \<open>Cut-through\<close>

function cut_loop :: "('a \<Rightarrow> 'k::linorder) \<Rightarrow> ('b \<Rightarrow> 'k) \<Rightarrow> 'a list \<Rightarrow> 'b list \<Rightarrow> nat \<Rightarrow> nat \<Rightarrow> nat \<Rightarrow> 'a list \<times> 'b list \<times> nat \<times> nat \<times> nat" where
  "cut_loop f g ins outs ii oi ncut =
     (if ii < length ins \<and> oi < length outs then
        let ih = f (ins ! ii); oh = g (outs ! oi) in
        if ih < oh then cut_loop f g (ins[ii - ncut := ins ! ii]) outs (ii + 1) oi ncut
        else if ih > oh then cut_loop f g ins (outs[oi - ncut := outs ! oi]) ii (oi + 1) ncut
        else cut_loop f g ins outs (ii + 1) (oi + 1) (ncut + 1)
      else (ins, outs, ii, oi, ncut))"
  by pat_completeness auto
termination
  by (relation "measure (\<lambda>(f, g, ins, outs, ii, oi, ncut). (length ins - ii) + (length outs - oi))") auto

declare cut_loop.simps [simp del]

definition cut_through :: "hash_fun \<Rightarrow> tx_input list \<Rightarrow> tx_output list \<Rightarrow> tx_error + tx_input list \<times> tx_output list" where
  "cut_through hash ins outs =
     (let outs1 = sort_key (output_hash hash) outs in
      if list_ex (\<lambda>i. output_hash hash (outs1 ! i) = output_hash hash (outs1 ! Suc i)) [0..<length outs1 - 1]
      then Inl AggregationError
      else let ins1 = sort_key (input_hash hash) ins;
               (ins2, outs2, ii, oi, ncut) = cut_loop (input_hash hash) (output_hash hash) ins1 outs1 0 0 0
           in Inr (take (ii - ncut) ins2 @ drop ii ins2, take (oi - ncut) outs2 @ drop oi outs2))"

subsection \<open>Aggregation\<close>

definition aggregate :: "secp \<Rightarrow> hash_fun \<Rightarrow> transaction list \<Rightarrow> tx_error + transaction" where
  "aggregate S hash txs =
     (if txs = [] then Inr tx_empty
      else if length txs = 1 then Inr (hd txs)
      else
        let kernel_offsets = map t_offset txs;
            ins = concat (map (\<lambda>t. inputs (t_body t)) txs);
            outs = concat (map (\<lambda>t. outputs (t_body t)) txs);
            kers = concat (map (\<lambda>t. kernels (t_body t)) txs)
        in bind_res (cut_through hash ins outs) (\<lambda>(ins, outs).
             bind_res (map_err TxCommitted (sum_kernel_offsets S kernel_offsets [])) (\<lambda>total_kernel_offset.
               Inr (tx_with_offset (tx_new hash ins outs (sort_key (kernel_hash hash) kers)) total_kernel_offset))))"

text \<open>The items of \<open>xs\<close> that are not in \<open>ys\<close>, each once, compared by their hashes.\<close>

fun retain_new :: "('a \<Rightarrow> 'k) \<Rightarrow> 'a list \<Rightarrow> 'a list \<Rightarrow> 'a list \<Rightarrow> 'a list" where
  "retain_new key ys acc [] = acc"
| "retain_new key ys acc (x # xs) =
     retain_new key ys (if key x \<notin> key ` set ys \<and> key x \<notin> key ` set acc then acc @ [x] else acc) xs"

definition deaggregate :: "secp \<Rightarrow> hash_fun \<Rightarrow> transaction \<Rightarrow> transaction list \<Rightarrow> tx_error + transaction" where
  "deaggregate S hash mk_tx txs =
     bind_res (aggregate S hash txs) (\<lambda>tx.
       let ins = retain_new (input_hash hash) (inputs (t_body tx)) [] (inputs (t_body mk_tx));
           outs = retain_new (output_hash hash) (outputs (t_body tx)) [] (outputs (t_body mk_tx));
           kers = retain_new (kernel_hash hash) (kernels (t_body tx)) [] (kernels (t_body mk_tx));
           positive_key = to_secrets S [t_offset mk_tx];
           negative_keys = to_secrets S [t_offset tx]
       in bind_res
            (if positive_key = [] \<and> negative_keys = [] then Inr blinding_zero
             else bind_res (map_err TxSecp (blind_sum S positive_key negative_keys)) (\<lambda>sm. Inr (blinding_from_slice sm)))
            (\<lambda>total_kernel_offset.
               Inr (tx_with_offset (tx_new hash (sort_key (input_hash hash) ins) (sort_key (output_hash hash) outs)
                 (sort_key (kernel_hash hash) kers)) total_kernel_offset)))"

section \<open>Cut-through on sorted lists\<close>

lemma disjoint_sorted_iff:
  "sorted is \<Longrightarrow> sorted os \<Longrightarrow> disjoint_sorted is os \<longleftrightarrow> set is \<inter> set os = {}"
proof (induction "is" os rule: disjoint_sorted.induct)
  case (1 ih "is" oh os)
  have "ih < oh \<Longrightarrow> ih \<notin> set (oh # os)" "oh < ih \<Longrightarrow> oh \<notin> set (ih # is)" using "1.prems" by auto
  then show ?case using 1 by (cases ih oh rule: linorder_cases) auto
qed auto

text \<open>The reference: a merge that drops matching pairs.\<close>

fun cut_merge :: "('a \<Rightarrow> 'k::linorder) \<Rightarrow> ('b \<Rightarrow> 'k) \<Rightarrow> 'a list \<Rightarrow> 'b list \<Rightarrow> 'a list \<times> 'b list" where
  "cut_merge f g (x # xs) (y # ys) =
     (if f x < g y then apfst ((#) x) (cut_merge f g xs (y # ys))
      else if f x > g y then apsnd ((#) y) (cut_merge f g (x # xs) ys)
      else cut_merge f g xs ys)"
| "cut_merge f g xs ys = (xs, ys)"

text \<open>The loop over one pair of vectors, which moves what is kept to the front, computes it.\<close>

lemma take_update_Suc: "i < length xs \<Longrightarrow> take (Suc i) (xs[i := x]) = take i xs @ [x]"
  by (simp add: take_Suc_conv_app_nth)

lemma cut_loop_merge:
  assumes "ncut \<le> ii" and "ncut \<le> oi" and "ii \<le> length ins" and "oi \<le> length outs"
  shows "(case cut_loop f g ins outs ii oi ncut of (ins2, outs2, ii', oi', n) \<Rightarrow>
      (take (ii' - n) ins2 @ drop ii' ins2, take (oi' - n) outs2 @ drop oi' outs2)) =
    (take (ii - ncut) ins @ fst (cut_merge f g (drop ii ins) (drop oi outs)),
     take (oi - ncut) outs @ snd (cut_merge f g (drop ii ins) (drop oi outs)))"
  using assms
proof (induction f g ins outs ii oi ncut rule: cut_loop.induct)
  case (1 f g ins outs ii oi ncut)
  show ?case
  proof (cases "ii < length ins \<and> oi < length outs")
    case False
    then have "drop ii ins = [] \<or> drop oi outs = []" using "1.prems" by auto
    then have "cut_merge f g (drop ii ins) (drop oi outs) = (drop ii ins, drop oi outs)"
      by (cases "drop ii ins") auto
    moreover have "cut_loop f g ins outs ii oi ncut = (ins, outs, ii, oi, ncut)"
      by (subst cut_loop.simps) (use False in \<open>simp only: if_False\<close>)
    ultimately show ?thesis by simp
  next
    case True
    let ?x = "ins ! ii" and ?y = "outs ! oi"
    have d: "drop ii ins = ?x # drop (Suc ii) ins" "drop oi outs = ?y # drop (Suc oi) outs"
      using True by (simp_all add: Cons_nth_drop_Suc)
    consider "f ?x < g ?y" | "g ?y < f ?x" | "f ?x = g ?y" by fastforce
    then show ?thesis
    proof cases
      case 1
      have "take (Suc ii - ncut) (ins[ii - ncut := ?x]) = take (ii - ncut) ins @ [?x]"
        using "1.prems" True take_update_Suc [of "ii - ncut" ins ?x] by (simp add: Suc_diff_le less_imp_diff_less)
      moreover have "drop (Suc ii) (ins[ii - ncut := ?x]) = drop (Suc ii) ins" by simp
      ultimately show ?thesis
        using "1.IH"(1) [OF True refl refl 1] "1.prems" True 1 d by (subst cut_loop.simps) simp
    next
      case 2
      have "take (Suc oi - ncut) (outs[oi - ncut := ?y]) = take (oi - ncut) outs @ [?y]"
        using "1.prems" True take_update_Suc [of "oi - ncut" outs ?y] by (simp add: Suc_diff_le less_imp_diff_less)
      moreover have "drop (Suc oi) (outs[oi - ncut := ?y]) = drop (Suc oi) outs" by simp
      ultimately show ?thesis
        using "1.IH"(2) [OF True refl refl] "1.prems" True 2 d by (subst cut_loop.simps) simp
    next
      case 3
      then show ?thesis
        using "1.IH"(3) [OF True refl refl] "1.prems" True d by (subst cut_loop.simps) simp
    qed
  qed
qed

lemma cut_merge_subset: "set (fst (cut_merge f g xs ys)) \<subseteq> set xs" "set (snd (cut_merge f g xs ys)) \<subseteq> set ys"
  by (induction f g xs ys rule: cut_merge.induct) auto

lemma cut_merge_sorted:
  "sorted (map f xs) \<Longrightarrow> sorted (map f (fst (cut_merge f g xs ys)))"
  "sorted_wrt (<) (map g ys) \<Longrightarrow> sorted_wrt (<) (map g (snd (cut_merge f g xs ys)))"
proof (induction f g xs ys rule: cut_merge.induct)
  case (1 f g x xs y ys)
  { case 1
    then show ?case using "1.IH" cut_merge_subset(1) [of f g xs "y # ys"] by auto
  next
    case 2
    then show ?case using "1.IH" cut_merge_subset(2) [of f g "x # xs" ys] by auto
  }
qed simp_all

lemma cut_merge_disjoint:
  assumes "sorted (map f xs)" and "sorted_wrt (<) (map g ys)"
  shows "f ` set (fst (cut_merge f g xs ys)) \<inter> g ` set (snd (cut_merge f g xs ys)) = {}"
  using assms
proof (induction f g xs ys rule: cut_merge.induct)
  case (1 f g x xs y ys)
  have x: "f x \<notin> g ` set (y # ys)" if "f x < g y" using that "1.prems"(2) by auto
  have y: "g y \<notin> f ` set (x # xs)" if "g y < f x" using that "1.prems"(1) by auto
  show ?case
  proof (cases "f x" "g y" rule: linorder_cases)
    case less
    then show ?thesis using 1 x cut_merge_subset(2) [of f g xs "y # ys"] by auto
  next
    case equal
    then show ?thesis using 1 by simp
  next
    case greater
    then show ?thesis using 1 y cut_merge_subset(1) [of f g "x # xs" ys] by auto
  qed
qed auto

text \<open>What is dropped are pairs of an input and an output with the same key.\<close>

lemma cut_merge_pairs:
  "\<exists>ps. mset xs = mset (map fst ps) + mset (fst (cut_merge f g xs ys)) \<and>
     mset ys = mset (map snd ps) + mset (snd (cut_merge f g xs ys)) \<and> (\<forall>(a, b) \<in> set ps. f a = g b)"
proof (induction f g xs ys rule: cut_merge.induct)
  case (1 f g x xs y ys)
  show ?case
  proof (cases "f x" "g y" rule: linorder_cases)
    case less
    then show ?thesis using 1(1) by auto
  next
    case equal
    then obtain ps where "mset xs = mset (map fst ps) + mset (fst (cut_merge f g xs ys))"
      "mset ys = mset (map snd ps) + mset (snd (cut_merge f g xs ys))" "\<forall>(a, b) \<in> set ps. f a = g b"
      using 1(3) by auto
    then show ?thesis using equal by (intro exI [of _ "(x, y) # ps"]) simp
  next
    case greater
    then show ?thesis using 1(2) by auto
  qed
qed (rule exI [of _ "[]"], simp)+

lemma adjacent_distinct:
  fixes ks :: "'k::linorder list"
  assumes "sorted ks"
  shows "(\<forall>i < length ks - 1. ks ! i \<noteq> ks ! Suc i) \<longleftrightarrow> sorted_wrt (<) ks"
proof
  assume "sorted_wrt (<) ks"
  then have "ks ! i < ks ! Suc i" if "i < length ks - 1" for i
    using that by (simp add: sorted_wrt_iff_nth_less)
  then show "\<forall>i < length ks - 1. ks ! i \<noteq> ks ! Suc i" by fastforce
next
  assume a: "\<forall>i < length ks - 1. ks ! i \<noteq> ks ! Suc i"
  have "ks ! i < ks ! Suc i" if "Suc i < length ks" for i
  proof -
    have "ks ! i \<le> ks ! Suc i" using that assms by (simp add: sorted_iff_nth_Suc)
    moreover have "ks ! i \<noteq> ks ! Suc i" using that a by simp
    ultimately show ?thesis by simp
  qed
  then show "sorted_wrt (<) ks" by (subst sorted_wrt_iff_nth_Suc_transp) auto
qed

lemma mset_map_sort_key: "mset (map key (sort_key key xs)) = mset (map key xs)"
  by simp

lemma sort_key_strict:
  "sorted_wrt (<) (map key (sort_key key xs)) \<longleftrightarrow> distinct (map key xs)" for key :: "'a \<Rightarrow> 'k::linorder"
  unfolding strict_sorted_iff
  using mset_eq_imp_distinct_iff [OF mset_map_sort_key [of key xs]] by simp

lemma cut_through_eq:
  "cut_through hash ins outs =
     (if distinct (map (output_hash hash) outs)
      then Inr (cut_merge (input_hash hash) (output_hash hash) (sort_key (input_hash hash) ins) (sort_key (output_hash hash) outs))
      else Inl AggregationError)"
proof -
  let ?o = "sort_key (output_hash hash) outs" and ?i = "sort_key (input_hash hash) ins"
  have "list_ex (\<lambda>i. output_hash hash (?o ! i) = output_hash hash (?o ! Suc i)) [0..<length ?o - 1] \<longleftrightarrow>
      \<not> distinct (map (output_hash hash) outs)"
    using adjacent_distinct [of "map (output_hash hash) ?o"] sort_key_strict [of "output_hash hash" outs]
    by (auto simp: list_ex_iff)
  moreover have "(case cut_loop (input_hash hash) (output_hash hash) ?i ?o 0 0 0 of (ins2, outs2, ii, oi, ncut) \<Rightarrow>
      Inr (take (ii - ncut) ins2 @ drop ii ins2, take (oi - ncut) outs2 @ drop oi outs2)) =
    (Inr (cut_merge (input_hash hash) (output_hash hash) ?i ?o) :: tx_error + _)"
    using cut_loop_merge [of 0 0 0 ?i ?o "input_hash hash" "output_hash hash"]
    by (simp add: case_prod_unfold prod_eq_iff)
  ultimately show ?thesis by (simp add: cut_through_def Let_def)
qed

section \<open>Sums over transactions\<close>

lemma sum_list_mset_eq: "mset xs = mset ys \<Longrightarrow> sum_list xs = sum_list (ys :: 'g::ab_group_add list)"
  by (metis sum_mset_sum_list)

lemma sum_list_map_mset: "mset xs = mset ys \<Longrightarrow> sum_list (map f xs) = (sum_list (map f ys) :: 'g::ab_group_add)"
  by (rule sum_list_mset_eq) simp

lemma sum_list_map_union:
  "mset xs = mset ys + mset zs \<Longrightarrow> sum_list (map f xs) = sum_list (map f ys) + (sum_list (map f zs) :: 'g::ab_group_add)"
  using sum_list_map_mset [of xs "ys @ zs" f] by simp

text \<open>An input and the output it spends have the same hash exactly because they are the same
  bytes.\<close>

lemma same_hash_same_commit:
  assumes "inj_on hash (write_input ` I \<union> write_output Hash ` U)" and "i \<in> I" and "u \<in> U" and "input_hash hash i = output_hash hash u"
  shows "i_commit i = o_commit u"
proof -
  have "write_input i = write_output Hash u" using assms by (auto dest: inj_onD)
  then show ?thesis by (simp add: write_input_def write_output_def write_output_features_def write_u8_def)
qed

lemma cut_through_sums:
  fixes cval :: "commitment \<Rightarrow> 'g::ab_group_add"
  assumes "cut_through hash ins outs = Inr (ins', outs')"
    and "inj_on hash (write_input ` set ins \<union> write_output Hash ` set outs)"
  shows "sum_list (map (cval \<circ> o_commit) outs') - sum_list (map (cval \<circ> i_commit) ins') =
    sum_list (map (cval \<circ> o_commit) outs) - sum_list (map (cval \<circ> i_commit) ins)"
proof -
  let ?f = "input_hash hash" and ?g = "output_hash hash"
  have r: "(ins', outs') = cut_merge ?f ?g (sort_key ?f ins) (sort_key ?g outs)"
    using assms(1) by (auto simp: cut_through_eq split: if_splits)
  then obtain ps where ps: "mset ins = mset (map fst ps) + mset ins'" "mset outs = mset (map snd ps) + mset outs'"
      "\<forall>(a, b) \<in> set ps. ?f a = ?g b"
    using cut_merge_pairs [of "sort_key ?f ins" ?f ?g "sort_key ?g outs"] by (auto simp: prod_eq_iff)
  have "map (cval \<circ> i_commit) (map fst ps) = map (cval \<circ> o_commit) (map snd ps)"
  proof (unfold map_map, rule map_cong [OF refl])
    fix p assume p: "p \<in> set ps"
    have "set ins = fst ` set ps \<union> set ins'" "set outs = snd ` set ps \<union> set outs'"
      using ps(1,2) by (metis set_map set_mset_mset mset_append set_append)+
    then have "fst p \<in> set ins" "snd p \<in> set outs" using p by blast+
    moreover have "?f (fst p) = ?g (snd p)" using bspec [OF ps(3) p] by (simp add: case_prod_unfold)
    ultimately have "i_commit (fst p) = o_commit (snd p)" by (rule same_hash_same_commit [OF assms(2)])
    then show "((cval \<circ> i_commit) \<circ> fst) p = ((cval \<circ> o_commit) \<circ> snd) p" by simp
  qed
  then have "sum_list (map (cval \<circ> i_commit) (map fst ps)) = sum_list (map (cval \<circ> o_commit) (map snd ps))" by (rule arg_cong)
  then show ?thesis
    unfolding sum_list_map_union [OF ps(1)] sum_list_map_union [OF ps(2)] by (simp only: add_diff_cancel_left)
qed

lemma body_fee_sum: "body_fee b = min (sum_list (map fee (kernels b))) u64_max"
proof -
  have "fold (\<lambda>k acc. u64_sat_add acc (fee k)) ks a = min (a + sum_list (map fee ks)) u64_max" if "a \<le> u64_max" for ks :: "tx_kernel list" and a
    using that by (induction ks arbitrary: a) (auto simp: u64_sat_add_def)
  then show ?thesis by (simp add: body_fee_def)
qed

lemma tx_overage_exact:
  assumes "sum_list (map fee (kernels (t_body t))) < 9223372036854775808"
  shows "tx_overage t = int (sum_list (map fee (kernels (t_body t))))"
  using assms by (simp add: tx_overage_def body_overage_def body_fee_sum width)

lemma oval_int: "oval hval (int n) = hval n"
  by (simp add: oval_def)

lemma hval_sum_list: "secp_laws S cval kval hval \<Longrightarrow> hval (sum_list ns) = sum_list (map hval ns)"
  by (induction ns) (simp_all add: hval_0 secp_lawsD(8))

lemma sum_kernel_offsets_kval:
  assumes L: "secp_laws S cval kval hval" and "\<forall>x \<in> set offs. x \<noteq> blinding_zero \<longrightarrow> (\<exists>k. secret_key S x = Inr k)"
    and "sum_kernel_offsets S offs [] = Inr r"
  shows "kval r = sum_list (map kval offs)"
proof -
  have "to_secrets S offs = filter (\<lambda>x. x \<noteq> blinding_zero) offs"
    using assms(2)
  proof (induction offs)
    case (Cons x offs)
    then show ?case using secret_key_kval [OF L, of x] by (fastforce simp: to_secrets_def List.map_filter_simps)
  qed (simp add: to_secrets_def List.map_filter_simps)
  moreover have "sum_list (map kval (filter (\<lambda>x. x \<noteq> blinding_zero) offs)) = sum_list (map kval offs)"
    using secp_lawsD(10) [OF L] by (induction offs) (auto simp: blinding_zero_bytes)
  moreover have "blinding_from_slice k = k" if "length k = SECRET_KEY_SIZE" for k
    using that by (simp add: blinding_from_slice_def)
  ultimately show ?thesis
    using assms(3) secp_lawsD(5,6) [OF L] secp_lawsD(10) [OF L]
    by (auto simp: sum_kernel_offsets_def Let_def bind_res_Inr_iff to_secrets_def [of S "[]"] List.map_filter_simps blinding_zero_bytes split: if_splits)
qed

lemma balanced_tx:
  "balanced cval kval hval (body_committed b) ov ofs \<longleftrightarrow>
     sum_list (map (cval \<circ> o_commit) (outputs b)) - sum_list (map (cval \<circ> i_commit) (inputs b)) + oval hval ov =
     sum_list (map (cval \<circ> excess) (kernels b)) + kval ofs"
  by (simp add: balanced_def body_committed_def)

text \<open>The result of aggregating several transactions, up to the order of its items.\<close>

lemma aggregate_parts:
  assumes "aggregate S hash txs = Inr t" and "1 < length txs"
  shows "\<exists>ins outs. cut_through hash (concat (map (\<lambda>t. inputs (t_body t)) txs)) (concat (map (\<lambda>t. outputs (t_body t)) txs)) = Inr (ins, outs) \<and>
    t_body t = body_sort hash \<lparr>inputs = ins, outputs = outs,
      kernels = sort_key (kernel_hash hash) (concat (map (\<lambda>t. kernels (t_body t)) txs))\<rparr> \<and>
    sum_kernel_offsets S (map t_offset txs) [] = Inr (t_offset t)"
proof -
  have "txs \<noteq> []" "length txs \<noteq> 1" using assms(2) by auto
  then show ?thesis using assms(1)
    by (auto simp: aggregate_def Let_def bind_res_Inr_iff tx_with_offset_def tx_new_def)
qed

lemma sum_concat: "sum_list (map f (concat (map g xs))) = (\<Sum>x\<leftarrow>xs. sum_list (map f (g x)))" for f :: "'a \<Rightarrow> 'g::comm_monoid_add"
  by (induction xs) simp_all

lemma aggregate_balances:
  assumes L: "secp_laws S cval kval hval" and agg: "aggregate S hash txs = Inr t"
    and each: "\<forall>t \<in> set txs. balanced cval kval hval (body_committed (t_body t)) (tx_overage t) (t_offset t)"
    and offsets: "\<forall>t \<in> set txs. t_offset t \<noteq> blinding_zero \<longrightarrow> (\<exists>k. secret_key S (t_offset t) = Inr k)"
    and fees: "sum_list (map fee (concat (map (\<lambda>t. kernels (t_body t)) txs))) < 9223372036854775808"
    and inj: "inj_on hash (write_input ` set (concat (map (\<lambda>t. inputs (t_body t)) txs)) \<union>
      write_output Hash ` set (concat (map (\<lambda>t. outputs (t_body t)) txs)))"
  shows "balanced cval kval hval (body_committed (t_body t)) (tx_overage t) (t_offset t)"
proof (cases "1 < length txs")
  case False
  then consider "txs = []" | u where "txs = [u]" by (cases txs) (auto simp: Suc_lessI)
  then show ?thesis
  proof cases
    case 1
    then have t: "t = tx_empty" using agg by (simp add: aggregate_def)
    show ?thesis
      unfolding t by (simp add: balanced_tx tx_empty_def body_empty_def tx_overage_def body_overage_def body_fee_def
          oval_def hval_0 [OF L] secp_lawsD(10) [OF L] blinding_zero_bytes width)
  next
    case 2
    then show ?thesis using agg each by (simp add: aggregate_def)
  qed
next
  case True
  let ?ins = "concat (map (\<lambda>t. inputs (t_body t)) txs)" and ?outs = "concat (map (\<lambda>t. outputs (t_body t)) txs)"
    and ?kers = "concat (map (\<lambda>t. kernels (t_body t)) txs)"
  obtain ins outs where p: "cut_through hash ?ins ?outs = Inr (ins, outs)"
      "t_body t = body_sort hash \<lparr>inputs = ins, outputs = outs, kernels = sort_key (kernel_hash hash) ?kers\<rparr>"
      "sum_kernel_offsets S (map t_offset txs) [] = Inr (t_offset t)"
    using aggregate_parts [OF agg True] by blast
  have m: "mset (inputs (t_body t)) = mset ins" "mset (outputs (t_body t)) = mset outs" "mset (kernels (t_body t)) = mset ?kers"
    by (simp_all add: p(2) body_sort_def)
  have fee_t: "sum_list (map fee (kernels (t_body t))) = sum_list (map fee ?kers)"
    by (simp only: sum_mset_sum_list [symmetric] mset_map m(3))
  have small: "sum_list (map fee (kernels (t_body u))) < 9223372036854775808" if "u \<in> set txs" for u
    using member_le_sum_list [of "sum_list (map fee (kernels (t_body u)))" "map (\<lambda>u. sum_list (map fee (kernels (t_body u)))) txs"]
      that fees by (simp add: sum_concat)
  have "(\<Sum>u\<leftarrow>txs. sum_list (map (cval \<circ> o_commit) (outputs (t_body u))) - sum_list (map (cval \<circ> i_commit) (inputs (t_body u))) +
      hval (sum_list (map fee (kernels (t_body u))))) =
    (\<Sum>u\<leftarrow>txs. sum_list (map (cval \<circ> excess) (kernels (t_body u))) + kval (t_offset u))"
    using each small by (intro arg_cong [of _ _ sum_list] map_cong refl) (auto simp: balanced_tx tx_overage_exact oval_int)
  then have sums: "sum_list (map (cval \<circ> o_commit) ?outs) - sum_list (map (cval \<circ> i_commit) ?ins) + hval (sum_list (map fee ?kers)) =
      sum_list (map (cval \<circ> excess) ?kers) + sum_list (map kval (map t_offset txs))"
    by (simp add: sum_list_addf sum_list_subtractf sum_concat hval_sum_list [OF L] comp_def)
  have "kval (t_offset t) = sum_list (map kval (map t_offset txs))"
    using sum_kernel_offsets_kval [OF L _ p(3)] offsets by auto
  then show ?thesis
    unfolding balanced_tx sum_list_map_mset [OF m(1)] sum_list_map_mset [OF m(2)] sum_list_map_mset [OF m(3)]
      cut_through_sums [OF p(1) inj] tx_overage_exact [of t, unfolded fee_t, OF fees] oval_int
    using sums by simp
qed

section \<open>Taking an aggregate apart\<close>

lemma cut_merge_none: "f ` set xs \<inter> g ` set ys = {} \<Longrightarrow> cut_merge f g xs ys = (xs, ys)"
  by (induction f g xs ys rule: cut_merge.induct) auto

lemma retain_new_filter:
  "distinct (map key xs) \<Longrightarrow> key ` set acc \<inter> key ` set xs = {} \<Longrightarrow>
   retain_new key ys acc xs = acc @ filter (\<lambda>x. key x \<notin> key ` set ys) xs"
proof (induction xs arbitrary: acc)
  case (Cons x xs)
  then have "key x \<notin> key ` set acc" "key x \<notin> key ` set xs" by auto
  with Cons show ?case by auto
qed simp

lemma retain_new_sorted:
  fixes key :: "'a \<Rightarrow> 'k::linorder"
  assumes "sorted_wrt (<) (map key xs)" and "distinct (map key ys)" and "key ` set xs \<inter> key ` set ys = {}"
  shows "sort_key key (retain_new key ys [] (sort_key key (sort_key key (xs @ ys)))) = xs"
proof -
  have "sorted (map key xs)" "distinct (map key xs)" using assms(1) by (simp_all add: strict_sorted_iff)
  moreover have "distinct (map key (sort_key key (sort_key key (xs @ ys))))"
    using assms calculation(2) mset_eq_imp_distinct_iff [of "map key (sort_key key (sort_key key (xs @ ys)))" "map key (xs @ ys)"]
    by auto
  moreover have "filter (\<lambda>x. key x \<notin> key ` set ys) xs = xs" "filter (\<lambda>x. key x \<notin> key ` set ys) ys = []"
    using assms(3) by (auto simp: filter_id_conv filter_empty_conv)
  ultimately show ?thesis
    using retain_new_filter [of key "sort_key key (sort_key key (xs @ ys))" "[]" ys]
    by (simp add: filter_sort sort_key_id_if_sorted)
qed

lemma sorted_bodies:
  "verify_sorted hash b = Inr () \<longleftrightarrow> sorted_wrt (<) (map (input_hash hash) (inputs b)) \<and>
     sorted_wrt (<) (map (output_hash hash) (outputs b)) \<and> sorted_wrt (<) (map (kernel_hash hash) (kernels b))"
  by (auto simp: verify_sorted_def bind_res_Inr_iff verify_sorted_iff)

lemma to_secrets_kval:
  assumes "secp_laws S cval kval hval" and "x \<noteq> blinding_zero \<longrightarrow> (\<exists>k. secret_key S x = Inr k)"
  shows "sum_list (map kval (to_secrets S [x])) = kval x"
  using assms(2) secret_key_kval [OF assms(1), of x] secp_lawsD(10) [OF assms(1)]
  by (auto simp: to_secrets_def List.map_filter_simps blinding_zero_bytes)

section \<open>Reading\<close>

lemma weight_as_block_coinbase:
  assumes "weight_as_block i u k \<le> m - 24" and "24 \<le> m" and "m \<le> 40000"
  shows "weight_as_block i (u + 1) (k + 1) \<le> m"
proof -
  have "i + u * 21 + k * 3 \<le> m - 24"
    using assms by (simp add: weight_as_block_def BLOCK_INPUT_WEIGHT_def BLOCK_OUTPUT_WEIGHT_def BLOCK_KERNEL_WEIGHT_def
        u64_sat_add_def u64_sat_mul_def min_def split: if_splits)
  then have "i + (u + 1) * 21 + (k + 1) * 3 \<le> m" using assms(2) by simp
  moreover from this have "weight_as_block i (u + 1) (k + 1) = i + (u + 1) * 21 + (k + 1) * 3"
    using assms(3) by (simp add: weight_as_block_def BLOCK_INPUT_WEIGHT_def BLOCK_OUTPUT_WEIGHT_def BLOCK_KERNEL_WEIGHT_def width)
  ultimately show ?thesis by simp
qed

definition tx_ok :: "chain_types \<Rightarrow> hash_fun \<Rightarrow> usize \<Rightarrow> transaction \<Rightarrow> bool" where
  "tx_ok ct hash mps t \<longleftrightarrow> length (t_offset t) = SECRET_KEY_SIZE \<and> body_ok ct hash mps (t_body t) \<and> tx_validate_read ct hash t = Inr ()"

lemma tx_eta: "\<lparr>t_offset = t_offset t, t_body = t_body t\<rparr> = (t :: transaction)"
  by simp

interpretation tx_codec: codec "write_tx Full" "read_tx ct hash mps" "tx_ok ct hash mps"
  by unfold_locales (unfold write_tx_def read_tx_def tx_ok_def Let_def,
      intro reads_bind [OF reads_blinding_factor] reads_last [OF body_codec.reads_put], auto simp: tx_eta reads_ok)

section \<open>A group of integers\<close>

text \<open>An instance of the library's laws on integers, to evaluate on: a commitment and a key are the sign
  and the absolute value of an integer.\<close>

definition enc_int :: "int \<Rightarrow> u8 list" where
  "enc_int v = (if v < 0 then [1, nat (- v)] else [0, nat v])"

fun dec_int :: "u8 list \<Rightarrow> int" where
  "dec_int (s # n # _) = (if s = 0 then int n else - int n)"
| "dec_int _ = 0"

definition int_secp :: secp where
  "int_secp = \<lparr>
     commit_sum = (\<lambda>ps ns. Inr (enc_int (sum_list (map dec_int ps) - sum_list (map dec_int ns)))),
     commit_key = (\<lambda>v k. Inr (enc_int (int v + dec_int k))),
     commit_value = (\<lambda>v. Inr (enc_int (int v))),
     blind_sum = (\<lambda>ps ns. Inr (enc_int (sum_list (map dec_int ps) - sum_list (map dec_int ns)) @ replicate 30 0)),
     key_from_slice = Inr,
     to_pubkey = Inr,
     verify_single = (\<lambda>_ _ _. True),
     verify_bullet_proof_multi = (\<lambda>_ _. Inr ())\<rparr>"

lemma dec_enc_int [simp]: "dec_int (enc_int v) = v" "dec_int (enc_int v @ bs) = v"
  by (simp_all add: enc_int_def)

lemma dec_zeros: "dec_int (replicate n 0) = 0"
  by (cases n; cases "n - 1") auto

lemma int_secp_laws: "secp_laws int_secp dec_int dec_int int"
proof -
  have "length (enc_int v @ replicate 30 0) = 32" for v by (simp add: enc_int_def)
  then show ?thesis
    unfolding secp_laws_def commit_to_zero_value_def ZERO_KEY_def dec_zeros SECRET_KEY_SIZE_def
    by (auto simp: int_secp_def)
qed

lemma not_zero_commit [simp]: "x # y # [] \<noteq> commit_to_zero_value"
proof
  assume "x # y # [] = commit_to_zero_value"
  then have "length [x, y] = 33" unfolding commit_to_zero_value_def PEDERSEN_COMMITMENT_SIZE_def by (metis length_replicate)
  then show False by simp
qed

lemma not_zero_blinding [simp]: "x # Suc y # bs \<noteq> blinding_zero"
  by (simp add: blinding_zero_bytes ZERO_KEY_def SECRET_KEY_SIZE_def numeral_eq_Suc)

definition example_tx :: "nat \<Rightarrow> nat \<Rightarrow> nat \<Rightarrow> transaction" where
  "example_tx spent created f = \<lparr>t_offset = [0, Suc 0] @ replicate 30 0, t_body = \<lparr>
     inputs = [\<lparr>i_features = PlainOutput, i_commit = [0, spent]\<rparr>],
     outputs = [\<lparr>o_features = PlainOutput, o_commit = [0, created], o_proof = []\<rparr>],
     kernels = [\<lparr>k_features = PlainKernel, fee = f, lock_height = 0, excess = [1, 1], excess_sig = []\<rparr>]\<rparr>\<rparr>"

lemma example_tx_verifies:
  assumes "spent = created + f" and "f < 100" and "0 < f"
  shows "verify_kernel_sums int_secp (body_committed (t_body (example_tx spent created f)))
      (tx_overage (example_tx spent created f)) (t_offset (example_tx spent created f)) = Some (Inr ([0, 0], [1, 1]))"
proof -
  have "tx_overage (example_tx spent created f) = int f"
    using assms by (simp add: example_tx_def tx_overage_exact)
  then show ?thesis using assms
    by (simp add: verify_kernel_sums_def sum_commitments_def sum_commits_def sum_kernel_excesses_def secret_key_def
        int_secp_def body_committed_def example_tx_def map_err_def enc_int_def)
qed

section \<open>Properties\<close>


text \<open>C9: aggregating transactions preserves the balance of their commitments. If the kernel sums of
  every transaction verify and all fees together fit a signed integer, then verifying the sums of the
  aggregate, after cut-through and with the summed offset, does not report a mismatch.\<close>

theorem aggregate_keeps_balance:
  fixes cval :: "commitment \<Rightarrow> 'g::ab_group_add"
  assumes L: "secp_laws S cval kval hval" and agg: "aggregate S hash txs = Inr t"
    and each: "\<forall>t \<in> set txs. \<exists>s. verify_kernel_sums S (body_committed (t_body t)) (tx_overage t) (t_offset t) = Some (Inr s)"
    and fees: "sum_list (map fee (concat (map (\<lambda>t. kernels (t_body t)) txs))) < 9223372036854775808"
    and inj: "inj_on hash (write_input ` set (concat (map (\<lambda>t. inputs (t_body t)) txs)) \<union>
      write_output Hash ` set (concat (map (\<lambda>t. outputs (t_body t)) txs)))"
  shows "verify_kernel_sums S (body_committed (t_body t)) (tx_overage t) (t_offset t) \<noteq> Some (Inl KernelSumMismatch)"
proof -
  have "\<forall>t \<in> set txs. balanced cval kval hval (body_committed (t_body t)) (tx_overage t) (t_offset t)"
    using each verify_kernel_sums_balanced(1) [OF L] by blast
  moreover have "\<forall>t \<in> set txs. t_offset t \<noteq> blinding_zero \<longrightarrow> (\<exists>k. secret_key S (t_offset t) = Inr k)"
    using each by (fastforce simp: verify_kernel_sums_def sum_kernel_excesses_def bind_res_Inr_iff)
  ultimately have "balanced cval kval hval (body_committed (t_body t)) (tx_overage t) (t_offset t)"
    using aggregate_balances [OF L agg _ _ fees inj] by blast
  then show ?thesis using verify_kernel_sums_balanced(2) [OF L] by blast
qed

theorem aggregate_keeps_balance_witness:
  "\<exists>t. aggregate int_secp id [example_tx 10 7 3, example_tx 7 5 2] = Inr t \<and>
     map i_commit (inputs (t_body t)) = [[0, 10]] \<and> map o_commit (outputs (t_body t)) = [[0, 5]] \<and>
     verify_kernel_sums int_secp (body_committed (t_body t)) (tx_overage t) (t_offset t) \<noteq> Some (Inl KernelSumMismatch)"
proof -
  let ?txs = "[example_tx 10 7 3, example_tx 7 5 2]"
  obtain t where t: "aggregate int_secp id ?txs = Inr t" "map i_commit (inputs (t_body t)) = [[0, 10]]" "map o_commit (outputs (t_body t)) = [[0, 5]]"
    by (simp add: aggregate_def Let_def cut_through_eq example_tx_def write_input_def write_output_def write_output_features_def write_u8_def
        sum_kernel_offsets_def to_secrets_def List.map_filter_simps secret_key_def int_secp_def map_err_def
        tx_with_offset_def tx_new_def body_sort_def)
  have "verify_kernel_sums int_secp (body_committed (t_body t)) (tx_overage t) (t_offset t) \<noteq> Some (Inl KernelSumMismatch)"
    by (rule aggregate_keeps_balance [OF int_secp_laws t(1)])
      (use example_tx_verifies [of 10 7 3] example_tx_verifies [of 7 5 2] in \<open>simp_all add: example_tx_def\<close>)
  with t show ?thesis by (intro exI [of _ t]) (rule conjI | assumption)+
qed



text \<open>C12: whatever bytes arrive, a transaction that is read has strictly ascending inputs, outputs and
  kernels, spends none of its own outputs, has no coinbase output or kernel, and leaves room for the
  coinbase in a block.\<close>

theorem read_tx_valid:
  assumes "read_tx ct hash mps r = Some (Inr t, r')"
  shows "sorted_wrt (<) (map (input_hash hash) (inputs (t_body t))) \<and> sorted_wrt (<) (map (output_hash hash) (outputs (t_body t))) \<and>
    sorted_wrt (<) (map (kernel_hash hash) (kernels (t_body t))) \<and>
    input_hash hash ` set (inputs (t_body t)) \<inter> output_hash hash ` set (outputs (t_body t)) = {} \<and>
    \<not> list_ex output_is_coinbase (outputs (t_body t)) \<and> \<not> list_ex kernel_is_coinbase (kernels (t_body t)) \<and>
    weight_as_block (length (inputs (t_body t))) (length (outputs (t_body t)) + 1) (length (kernels (t_body t)) + 1) \<le> max_block_weight ct"
proof -
  have v: "tx_validate_read ct hash t = Inr ()"
  proof -
    obtain ofs b r1 where "(case tx_validate_read ct hash \<lparr>t_offset = ofs, t_body = b\<rparr> of Inl _ \<Rightarrow> read_err CorruptedData
        | Inr _ \<Rightarrow> read_ok \<lparr>t_offset = ofs, t_body = b\<rparr>) r1 = Some (Inr t, r')"
      using assms unfolding read_tx_def read_bind_ok Let_def by blast
    then show ?thesis
      by (cases "tx_validate_read ct hash \<lparr>t_offset = ofs, t_body = b\<rparr>") (auto simp: read_err_def read_ok_def)
  qed
  then have w: "body_weight_as_block (t_body t) \<le> max_block_weight ct - 24" and srt: "verify_sorted hash (t_body t) = Inr ()"
    and c: "verify_cut_through hash (t_body t) = Inr ()" and f: "verify_features (t_body t) = Inr ()"
    by (auto simp: tx_validate_read_def body_validate_read_def bind_res_Inr_iff verify_weight_def Let_def width
        BLOCK_OUTPUT_WEIGHT_def BLOCK_KERNEL_WEIGHT_def split: if_splits)
  have "24 \<le> max_block_weight ct" "max_block_weight ct \<le> 40000" by (cases ct; simp add: max_block_weight_def)+
  then have "weight_as_block (length (inputs (t_body t))) (length (outputs (t_body t)) + 1) (length (kernels (t_body t)) + 1) \<le> max_block_weight ct"
    using w weight_as_block_coinbase [of "length (inputs (t_body t))" "length (outputs (t_body t))" "length (kernels (t_body t))" "max_block_weight ct"]
    by (simp add: body_weight_as_block_def)
  moreover have "input_hash hash ` set (inputs (t_body t)) \<inter> output_hash hash ` set (outputs (t_body t)) = {}"
    using c srt disjoint_sorted_iff [of "map (input_hash hash) (inputs (t_body t))" "map (output_hash hash) (outputs (t_body t))"]
    by (auto simp: verify_cut_through_def sorted_bodies strict_sorted_iff split: if_splits)
  ultimately show ?thesis
    using srt f by (auto simp: sorted_bodies verify_features_def verify_output_features_def verify_kernel_features_def
        bind_res_Inr_iff split: if_splits)
qed

theorem read_tx_valid_witness:
  "\<exists>t r. read_tx AutomatedTesting id 1 (BinReader (replicate 32 0 @ write_u64 1 @ write_u64 0 @ write_u64 0 @ 0 # replicate 33 7)) =
       Some (Inr t, r) \<and> length (inputs (t_body t)) = 1 \<and>
     input_hash id ` set (inputs (t_body t)) \<inter> output_hash id ` set (outputs (t_body t)) = {} \<and>
     weight_as_block 1 1 1 \<le> max_block_weight AutomatedTesting"
proof -
  define t where "t = \<lparr>t_offset = replicate 32 0, t_body = \<lparr>inputs = [\<lparr>i_features = PlainOutput, i_commit = replicate 33 7\<rparr>], outputs = [], kernels = []\<rparr>\<rparr>"
  have "tx_ok AutomatedTesting id 1 t"
    by (simp add: t_def tx_ok_def body_ok_def SECRET_KEY_SIZE_def PEDERSEN_COMMITMENT_SIZE_def weight_as_block_def verify_sorted_def
        BLOCK_INPUT_WEIGHT_def BLOCK_OUTPUT_WEIGHT_def BLOCK_KERNEL_WEIGHT_def width max_block_weight_def tx_validate_read_def
        body_validate_read_def verify_weight_def body_weight_as_block_def verify_cut_through_def map_err_def
        verify_features_def verify_output_features_def verify_kernel_features_def)
  then obtain r where r: "read_tx AutomatedTesting id 1 (BinReader (write_tx Full t)) = Some (Inr t, r)"
    using tx_codec.reads_put [of AutomatedTesting id 1 t] unfolding reads_def
    by (auto dest!: spec [of _ "BinReader (write_tx Full t)"])
  moreover have "write_tx Full t = replicate 32 0 @ write_u64 1 @ write_u64 0 @ write_u64 0 @ 0 # replicate 33 7"
    by (simp add: t_def write_tx_def write_body_def write_vec_def write_input_def write_output_features_def write_u8_def)
  ultimately show ?thesis using read_tx_valid [OF r] by (intro exI [of _ t] exI [of _ r]) (simp add: t_def)
qed

end
