(* ===== verification/Bitmap.thy ===== *)
theory Bitmap
  imports Prelude
begin

text \<open>
  Bitmaps. The sets of positions of \<open>store/src\<close> and of the chain are \<open>croaring::Bitmap\<close>, an
  external library, so its operations are a record that the definitions using them take as a
  parameter \<open>K\<close>. \<open>bitmap_laws K\<close> states the documented behaviour of the library: a bitmap is a
  set of 32-bit integers, enumerated in ascending order. \<open>list_bitmap\<close> is an implementation on
  sorted lists that keeps the laws, used to evaluate on concrete inputs.
\<close>

section \<open>Operations and laws\<close>

record 'bm bitmap_ops =
  bm_create :: 'bm
  bm_add :: "'bm \<Rightarrow> u32 \<Rightarrow> 'bm"
  bm_remove :: "'bm \<Rightarrow> u32 \<Rightarrow> 'bm"
  bm_contains :: "'bm \<Rightarrow> u32 \<Rightarrow> bool"
  bm_iter :: "'bm \<Rightarrow> u32 list"
  bm_maximum :: "'bm \<Rightarrow> u32"
  bm_rank :: "'bm \<Rightarrow> u32 \<Rightarrow> u64"
  bm_is_empty :: "'bm \<Rightarrow> bool"
  bm_cardinality :: "'bm \<Rightarrow> u64"
  bm_andnot :: "'bm \<Rightarrow> 'bm \<Rightarrow> 'bm"
  bm_or :: "'bm \<Rightarrow> 'bm \<Rightarrow> 'bm"
  bm_and :: "'bm \<Rightarrow> 'bm \<Rightarrow> 'bm"
  bm_flip :: "'bm \<Rightarrow> u64 \<Rightarrow> u64 \<Rightarrow> 'bm"
  bm_collect :: "u32 list \<Rightarrow> 'bm"

definition elems :: "'bm bitmap_ops \<Rightarrow> 'bm \<Rightarrow> u32 set" where
  "elems K b = set (bm_iter K b)"

definition bitmap_laws :: "'bm bitmap_ops \<Rightarrow> bool" where
  "bitmap_laws K \<longleftrightarrow>
     (\<forall>b. sorted_wrt (<) (bm_iter K b)) \<and>
     elems K (bm_create K) = {} \<and>
     (\<forall>b x. elems K (bm_add K b x) = insert x (elems K b)) \<and>
     (\<forall>b x. elems K (bm_remove K b x) = elems K b - {x}) \<and>
     (\<forall>b x. bm_contains K b x \<longleftrightarrow> x \<in> elems K b) \<and>
     (\<forall>b. bm_maximum K b = (if elems K b = {} then 0 else Max (elems K b))) \<and>
     (\<forall>b x. bm_rank K b x = card {y \<in> elems K b. y \<le> x}) \<and>
     (\<forall>b. bm_is_empty K b \<longleftrightarrow> elems K b = {}) \<and>
     (\<forall>b. bm_cardinality K b = card (elems K b)) \<and>
     (\<forall>b c. elems K (bm_andnot K b c) = elems K b - elems K c) \<and>
     (\<forall>b c. elems K (bm_or K b c) = elems K b \<union> elems K c) \<and>
     (\<forall>b c. elems K (bm_and K b c) = elems K b \<inter> elems K c) \<and>
     (\<forall>b l h. elems K (bm_flip K b l h) = (elems K b - {l..<h}) \<union> ({l..<h} - elems K b)) \<and>
     (\<forall>xs. elems K (bm_collect K xs) = set xs)"

lemma bitmap_sorted: "bitmap_laws K \<Longrightarrow> sorted_wrt (<) (bm_iter K b)"
  by (simp add: bitmap_laws_def)

lemma set_iter [simp]: "set (bm_iter K b) = elems K b"
  by (simp add: elems_def)

lemma finite_elems [simp]: "finite (elems K b)"
  unfolding elems_def by (rule finite_set)

lemma bitmap_elems:
  assumes "bitmap_laws K"
  shows "elems K (bm_create K) = {}"
    and "elems K (bm_add K b x) = insert x (elems K b)"
    and "elems K (bm_remove K b x) = elems K b - {x}"
    and "elems K (bm_andnot K b c) = elems K b - elems K c"
    and "elems K (bm_or K b c) = elems K b \<union> elems K c"
    and "elems K (bm_and K b c) = elems K b \<inter> elems K c"
    and "elems K (bm_flip K b l h) = (elems K b - {l..<h}) \<union> ({l..<h} - elems K b)"
    and "elems K (bm_collect K xs) = set xs"
  using assms by (simp_all add: bitmap_laws_def)

lemma bitmap_queries:
  assumes "bitmap_laws K"
  shows "bm_contains K b x \<longleftrightarrow> x \<in> elems K b"
    and "bm_maximum K b = (if elems K b = {} then 0 else Max (elems K b))"
    and "bm_rank K b x = card {y \<in> elems K b. y \<le> x}"
    and "bm_is_empty K b \<longleftrightarrow> elems K b = {}"
    and "bm_cardinality K b = card (elems K b)"
  using assms by (simp_all add: bitmap_laws_def)

section \<open>An implementation\<close>

definition list_bitmap :: "u32 list bitmap_ops" where
  "list_bitmap = \<lparr>
     bm_create = [],
     bm_add = (\<lambda>b x. sort (remdups (x # b))),
     bm_remove = (\<lambda>b x. sort (remdups (removeAll x b))),
     bm_contains = (\<lambda>b x. x \<in> set b),
     bm_iter = (\<lambda>b. sort (remdups b)),
     bm_maximum = (\<lambda>b. if b = [] then 0 else Max (set b)),
     bm_rank = (\<lambda>b x. length (filter (\<lambda>y. y \<le> x) (remdups b))),
     bm_is_empty = (\<lambda>b. b = []),
     bm_cardinality = (\<lambda>b. length (remdups b)),
     bm_andnot = (\<lambda>b c. filter (\<lambda>x. x \<notin> set c) b),
     bm_or = (\<lambda>b c. b @ c),
     bm_and = (\<lambda>b c. filter (\<lambda>x. x \<in> set c) b),
     bm_flip = (\<lambda>b l h. filter (\<lambda>x. \<not> (l \<le> x \<and> x < h)) b @ filter (\<lambda>x. x \<notin> set b) [l..<h]),
     bm_collect = (\<lambda>xs. xs)\<rparr>"

lemma list_bitmap_elems: "elems list_bitmap b = set b"
  unfolding elems_def list_bitmap_def by simp

lemma list_bitmap_laws: "bitmap_laws list_bitmap"
proof -
  have sorted: "sorted_wrt (<) (sort (remdups xs))" for xs :: "nat list" by (simp add: strict_sorted_iff)
  have rank: "length (filter (\<lambda>y. y \<le> x) (remdups xs)) = card {y \<in> set xs. y \<le> x}" for xs :: "nat list" and x
    using distinct_card [of "filter (\<lambda>y. y \<le> x) (remdups xs)"] by simp
  have cardinality: "length (remdups xs) = card (set xs)" for xs :: "nat list"
    by (simp add: length_remdups_card_conv)
  show ?thesis
    unfolding bitmap_laws_def list_bitmap_elems
    by (intro conjI allI; simp only: list_bitmap_def bitmap_ops.simps sorted rank cardinality; auto)
qed

end
