(* ===== verification/Prune_List.thy ===== *)
theory Prune_List
  imports Pmmr_Pos Bitmap
begin

text \<open>
  The prune list, \<open>store/src/prune_list.rs\<close>: the roots of the pruned subtrees of a range, with the
  set of all pruned positions and the shifts of the positions behind them as caches. Reading a
  cache by an index out of bounds panics and is \<open>None\<close>. Writing the bitmap to its file is not
  modelled.
\<close>

section \<open>Definitions\<close>

record 'bm prune_list =
  pl_bitmap :: 'bm
  pl_pruned_cache :: 'bm
  pl_shift_cache :: "u64 list"
  pl_leaf_shift_cache :: "u64 list"

definition prune_list_new :: "'bm bitmap_ops \<Rightarrow> 'bm prune_list" where
  "prune_list_new K = \<lparr>pl_bitmap = bm_create K, pl_pruned_cache = bm_create K, pl_shift_cache = [], pl_leaf_shift_cache = []\<rparr>"

definition read_shift :: "'bm bitmap_ops \<Rightarrow> 'bm \<Rightarrow> u64 list \<Rightarrow> u64 \<Rightarrow> u64 option" where
  "read_shift K bitmap cache pos =
     (if bm_is_empty K bitmap then Some 0
      else let idx = bm_rank K bitmap (as_u32 pos) in
        if idx = 0 then Some 0
        else if idx > length cache then (if cache = [] then None else Some (cache ! (length cache - 1)))
        else Some (cache ! (idx - 1)))"

definition get_shift :: "'bm bitmap_ops \<Rightarrow> 'bm prune_list \<Rightarrow> u64 \<Rightarrow> u64 option" where
  "get_shift K pl pos = read_shift K (pl_bitmap pl) (pl_shift_cache pl) pos"

definition get_leaf_shift :: "'bm bitmap_ops \<Rightarrow> 'bm prune_list \<Rightarrow> u64 \<Rightarrow> u64 option" where
  "get_leaf_shift K pl pos = read_shift K (pl_bitmap pl) (pl_leaf_shift_cache pl) pos"

definition get_total_shift :: "'bm bitmap_ops \<Rightarrow> 'bm prune_list \<Rightarrow> u64 option" where
  "get_total_shift K pl = get_shift K pl (bm_maximum K (pl_bitmap pl))"

definition get_total_leaf_shift :: "'bm bitmap_ops \<Rightarrow> 'bm prune_list \<Rightarrow> u64 option" where
  "get_total_leaf_shift K pl = get_leaf_shift K pl (bm_maximum K (pl_bitmap pl))"

definition is_pruned :: "'bm bitmap_ops \<Rightarrow> 'bm prune_list \<Rightarrow> u64 \<Rightarrow> bool" where
  "is_pruned K pl pos = bm_contains K (pl_pruned_cache pl) (as_u32 pos)"

definition is_pruned_root :: "'bm bitmap_ops \<Rightarrow> 'bm prune_list \<Rightarrow> u64 \<Rightarrow> bool" where
  "is_pruned_root K pl pos = bm_contains K (pl_bitmap pl) (as_u32 pos)"

text \<open>The loops that fill the two caches read them through \<open>get_shift\<close> while they grow.\<close>

definition root_shift :: "u64 \<Rightarrow> u64" where
  "root_shift pos = 2 * (2 ^ bintree_postorder_height pos - 1)"

definition root_leaf_shift :: "u64 \<Rightarrow> u64" where
  "root_leaf_shift pos =
     (let height = bintree_postorder_height pos in if height = 0 then 0 else 2 ^ height)"

fun fill_cache :: "'bm bitmap_ops \<Rightarrow> 'bm \<Rightarrow> (u64 \<Rightarrow> u64) \<Rightarrow> u64 list \<Rightarrow> u32 list \<Rightarrow> u64 list option" where
  "fill_cache K bitmap shift cache [] = Some cache"
| "fill_cache K bitmap shift cache (pos # ps) =
     (case read_shift K bitmap cache (u64_sub pos 1) of None \<Rightarrow> None
      | Some prev_shift \<Rightarrow>
          let curr_shift = (if bm_contains K bitmap (as_u32 pos) then shift pos else 0)
          in fill_cache K bitmap shift (cache @ [prev_shift + curr_shift]) ps)"

definition build_shift_cache :: "'bm bitmap_ops \<Rightarrow> 'bm prune_list \<Rightarrow> 'bm prune_list option" where
  "build_shift_cache K pl =
     (if bm_is_empty K (pl_bitmap pl) then Some pl
      else map_option (\<lambda>c. pl\<lparr>pl_shift_cache := c\<rparr>)
        (fill_cache K (pl_bitmap pl) root_shift [] (bm_iter K (pl_bitmap pl))))"

definition build_leaf_shift_cache :: "'bm bitmap_ops \<Rightarrow> 'bm prune_list \<Rightarrow> 'bm prune_list option" where
  "build_leaf_shift_cache K pl =
     (if bm_is_empty K (pl_bitmap pl) then Some pl
      else map_option (\<lambda>c. pl\<lparr>pl_leaf_shift_cache := c\<rparr>)
        (fill_cache K (pl_bitmap pl) root_leaf_shift [] (bm_iter K (pl_bitmap pl))))"

definition build_pruned_cache :: "'bm bitmap_ops \<Rightarrow> 'bm prune_list \<Rightarrow> 'bm prune_list" where
  "build_pruned_cache K pl =
     (if bm_is_empty K (pl_bitmap pl) then pl
      else let mx = bm_maximum K (pl_bitmap pl) in
        pl\<lparr>pl_pruned_cache := fold (\<lambda>pos c.
             if list_ex (\<lambda>x. bm_contains K (pl_bitmap pl) (as_u32 x)) (path pos mx)
             then bm_add K c pos else c) [1..<mx + 1] (bm_create K)\<rparr>)"

definition init_caches :: "'bm bitmap_ops \<Rightarrow> 'bm prune_list \<Rightarrow> 'bm prune_list option" where
  "init_caches K pl = do {
     pl1 \<leftarrow> build_shift_cache K pl;
     pl2 \<leftarrow> build_leaf_shift_cache K pl1;
     Some (build_pruned_cache K pl2) }"

text \<open>\<open>open\<close> on the bitmap read from the file, and \<open>flush\<close>.\<close>

definition prune_list_open :: "'bm bitmap_ops \<Rightarrow> 'bm \<Rightarrow> 'bm prune_list option" where
  "prune_list_open K bitmap = init_caches K
     \<lparr>pl_bitmap = bitmap, pl_pruned_cache = bm_create K, pl_shift_cache = [], pl_leaf_shift_cache = []\<rparr>"

definition prune_list_flush :: "'bm bitmap_ops \<Rightarrow> 'bm prune_list \<Rightarrow> 'bm prune_list option" where
  "prune_list_flush K pl = init_caches K pl"

text \<open>The loop of \<open>add\<close>; \<open>None\<close> if it does not end.\<close>

partial_function (option) add_loop :: "'bm bitmap_ops \<Rightarrow> 'bm \<Rightarrow> 'bm \<Rightarrow> u64 \<Rightarrow> ('bm \<times> 'bm) option" where
  "add_loop K bitmap cache current =
     (let (parent, sibling) = family current in
      if bm_contains K bitmap (as_u32 sibling) \<or> bm_contains K cache (as_u32 sibling)
      then add_loop K (bm_remove K bitmap (as_u32 sibling)) (bm_add K cache (as_u32 current)) parent
      else Some (bm_add K bitmap (as_u32 current), bm_add K cache (as_u32 current)))"

definition prune_list_add :: "'bm bitmap_ops \<Rightarrow> 'bm prune_list \<Rightarrow> u64 \<Rightarrow> 'bm prune_list option" where
  "prune_list_add K pl pos =
     map_option (\<lambda>(b, c). pl\<lparr>pl_bitmap := b, pl_pruned_cache := c\<rparr>)
       (add_loop K (pl_bitmap pl) (pl_pruned_cache pl) pos)"

definition prune_list_len :: "'bm bitmap_ops \<Rightarrow> 'bm prune_list \<Rightarrow> u64" where
  "prune_list_len K pl = bm_cardinality K (pl_bitmap pl)"

definition prune_list_is_empty :: "'bm bitmap_ops \<Rightarrow> 'bm prune_list \<Rightarrow> bool" where
  "prune_list_is_empty K pl = bm_is_empty K (pl_bitmap pl)"

definition prune_list_to_vec :: "'bm bitmap_ops \<Rightarrow> 'bm prune_list \<Rightarrow> u64 list" where
  "prune_list_to_vec K pl = bm_iter K (pl_bitmap pl)"

section \<open>Subtrees\<close>

definition parent_of :: "nat \<Rightarrow> nat" where "parent_of q = fst (family q)"
definition sibling_of :: "nat \<Rightarrow> nat" where "sibling_of q = snd (family q)"

text \<open>\<open>beneath q r\<close>: the position \<open>q\<close> is \<open>r\<close> or lies in the subtree of \<open>r\<close>.\<close>

definition beneath :: "nat \<Rightarrow> nat \<Rightarrow> bool" where
  "beneath q r \<longleftrightarrow> (\<exists>k. (parent_of ^^ k) q = r)"

lemma parent_gt: "0 < q \<Longrightarrow> q < parent_of q"
proof -
  assume "0 < q"
  then obtain m h where "node m h" "q = node_pos m h" using node_cases by blast
  then show ?thesis by (simp add: parent_of_def family_node node_pos_par)
qed

lemma sibling_facts:
  assumes "0 < q"
  shows "sibling_of (sibling_of q) = q" and "parent_of (sibling_of q) = parent_of q"
    and "sibling_of q \<noteq> q" and "0 < sibling_of q"
    and "bintree_postorder_height (sibling_of q) = bintree_postorder_height q"
    and "bintree_postorder_height (parent_of q) = Suc (bintree_postorder_height q)"
proof -
  obtain m h where q: "node m h" "q = node_pos m h" using node_cases [OF assms] .
  have s: "sibling_of q = node_pos (sib m h) h" "parent_of q = node_pos (par m h) (Suc h)"
    using q by (simp_all add: sibling_of_def parent_of_def family_node)
  show "sibling_of (sibling_of q) = q" "parent_of (sibling_of q) = parent_of q" "0 < sibling_of q"
    unfolding s by (simp_all add: sibling_of_def parent_of_def family_node node_sib q)
  show "sibling_of q \<noteq> q"
    unfolding s using node_pos_inj [OF node_sib [OF q(1)] q(1)] bit_sib [of m h] q(2) by metis
  show "bintree_postorder_height (sibling_of q) = bintree_postorder_height q"
    "bintree_postorder_height (parent_of q) = Suc (bintree_postorder_height q)"
    unfolding s using q(2) by (simp_all add: postorder_height_node node_sib node_par q(1))
qed

lemma same_parent:
  assumes "0 < q" and "0 < r" and "parent_of q = parent_of r"
  shows "r = q \<or> r = sibling_of q"
proof -
  obtain m h where q: "node m h" "q = node_pos m h" using node_cases [OF assms(1)] .
  obtain m' h' where r: "node m' h'" "r = node_pos m' h'" using node_cases [OF assms(2)] .
  have "node_pos (par m h) (Suc h) = node_pos (par m' h') (Suc h')"
    using assms(3) by (simp add: parent_of_def q r family_node)
  from node_pos_inj [OF node_par [OF q(1)] node_par [OF r(1)] this]
  have hh: "par m h = par m' h' \<and> h = h'" by auto
  then have "m' = m \<or> m' = sib m h" using bit_ge [of m h] bit_ge [of m' h]
    by (auto simp: par_def sib_def split: if_splits)
  then show ?thesis using q r hh by (auto simp: sibling_of_def family_node)
qed

lemma under_refl [simp]: "beneath q q"
  unfolding beneath_def by (rule exI [of _ 0]) simp

lemma under_step: "beneath q r \<longleftrightarrow> q = r \<or> beneath (parent_of q) r"
  unfolding beneath_def by (metis funpow_0 funpow_simps_right(2) comp_apply not0_implies_Suc)

lemma under_parent: "beneath q (parent_of q)"
  unfolding beneath_def by (rule exI [of _ 1]) simp

lemma under_trans: "beneath q r \<Longrightarrow> beneath r s \<Longrightarrow> beneath q s"
  unfolding beneath_def by (metis comp_apply funpow_add)

lemma under_le: "0 < q \<Longrightarrow> beneath q r \<Longrightarrow> q \<le> r"
proof -
  assume "0 < q" "beneath q r"
  then obtain k where k: "(parent_of ^^ k) q = r" unfolding beneath_def by blast
  have "q \<le> (parent_of ^^ k) q"
  proof (induction k)
    case (Suc k)
    then have "0 < (parent_of ^^ k) q" using \<open>0 < q\<close> by simp
    from parent_gt [OF this] Suc show ?case by simp
  qed simp
  with k show ?thesis by simp
qed

lemma height_under:
  assumes "0 < q" and "beneath q r"
  shows "bintree_postorder_height q \<le> bintree_postorder_height r"
    and "bintree_postorder_height q = bintree_postorder_height r \<Longrightarrow> q = r"
proof -
  have k: "bintree_postorder_height ((parent_of ^^ k) q) = bintree_postorder_height q + k" for k
  proof (induction k)
    case (Suc k)
    have "beneath q ((parent_of ^^ k) q)" unfolding beneath_def by blast
    then have "0 < (parent_of ^^ k) q" using under_le [OF assms(1)] assms(1) by fastforce
    from sibling_facts(6) [OF this] Suc show ?case by simp
  qed simp
  obtain j where j: "(parent_of ^^ j) q = r" using assms(2) unfolding beneath_def by blast
  from k [of j] j show "bintree_postorder_height q \<le> bintree_postorder_height r" by simp
  assume "bintree_postorder_height q = bintree_postorder_height r"
  then have "j = 0" using k [of j] j by simp
  with j show "q = r" by simp
qed

lemma under_antisym: "0 < q \<Longrightarrow> beneath q r \<Longrightarrow> beneath r q \<Longrightarrow> q = r"
  using under_le [of q r] under_le [of r q] by force

lemma under_comparable:
  assumes "beneath q a" and "beneath q b"
  shows "beneath a b \<or> beneath b a"
proof -
  obtain i j where ij: "(parent_of ^^ i) q = a" "(parent_of ^^ j) q = b" using assms unfolding beneath_def by blast
  show ?thesis
  proof (cases "i \<le> j")
    case True
    then have "(parent_of ^^ (j - i)) a = b" using ij by (metis comp_apply funpow_add le_add_diff_inverse2)
    then show ?thesis unfolding beneath_def by blast
  next
    case False
    then have "(parent_of ^^ (i - j)) b = a" using ij by (metis comp_apply funpow_add le_add_diff_inverse2 nat_le_linear)
    then show ?thesis unfolding beneath_def by blast
  qed
qed

text \<open>Below a node other than itself is below one of its two children.\<close>

lemma under_children:
  assumes "0 < q" and "0 < c" and "beneath q (parent_of c)"
  shows "q = parent_of c \<or> beneath q c \<or> beneath q (sibling_of c)"
proof -
  obtain k where k: "(parent_of ^^ k) q = parent_of c" using assms(3) unfolding beneath_def by blast
  show ?thesis
  proof (cases k)
    case 0
    then show ?thesis using k by simp
  next
    case (Suc j)
    let ?d = "(parent_of ^^ j) q"
    have "beneath q ?d" unfolding beneath_def by blast
    then have "0 < ?d" using under_le [OF assms(1)] assms(1) by fastforce
    moreover have "parent_of c = parent_of ?d" using k Suc by simp
    ultimately have "?d = c \<or> ?d = sibling_of c" using same_parent [OF assms(2)] by simp
    then show ?thesis unfolding beneath_def by blast
  qed
qed

section \<open>Adding a position\<close>

text \<open>The positions covered by a set of roots, and the invariant of the two sets of a prune list:
  the cache is what the roots cover, and the sibling of a root is not covered.\<close>

definition covered :: "nat set \<Rightarrow> nat set" where
  "covered R = {q. 0 < q \<and> (\<exists>r \<in> R. beneath q r)}"

definition antichain :: "nat set \<Rightarrow> bool" where
  "antichain R \<longleftrightarrow> 0 \<notin> R \<and> (\<forall>r \<in> R. \<forall>s \<in> R. beneath r s \<longrightarrow> r = s)"

definition prune_inv :: "nat set \<Rightarrow> nat set \<Rightarrow> bool" where
  "prune_inv R C \<longleftrightarrow> antichain R \<and> C = covered R \<and> (\<forall>r \<in> R. sibling_of r \<notin> C)"

text \<open>The invariant of the loop at the position \<open>cur\<close>, started on the sets \<open>R0\<close> and \<open>C0\<close>: what is
  strictly below \<open>cur\<close> is in the cache and holds no root; apart from it nothing has changed.\<close>

definition add_inv :: "nat set \<Rightarrow> nat set \<Rightarrow> nat \<Rightarrow> nat set \<Rightarrow> nat set \<Rightarrow> bool" where
  "add_inv R0 C0 cur R C \<longleftrightarrow> 0 < cur \<and>
     (\<forall>q. 0 < q \<and> beneath q cur \<and> q \<noteq> cur \<longrightarrow> q \<in> C \<and> q \<notin> R) \<and>
     (\<forall>q. \<not> beneath q cur \<or> q = cur \<longrightarrow> (q \<in> C \<longleftrightarrow> q \<in> C0) \<and> (q \<in> R \<longleftrightarrow> q \<in> R0)) \<and> 0 \<notin> R \<and> 0 \<notin> C"

lemma covered_down: "q \<in> covered R \<Longrightarrow> 0 < p \<Longrightarrow> beneath p q \<Longrightarrow> p \<in> covered R"
  by (auto simp: covered_def intro: under_trans)

lemma under_pos: "0 < q \<Longrightarrow> beneath q r \<Longrightarrow> 0 < r"
  using under_le by (metis not_gr_zero le_zero_eq)

lemma not_under_sibling: "0 < q \<Longrightarrow> \<not> beneath (sibling_of q) q"
proof
  assume q: "0 < q" "beneath (sibling_of q) q"
  then have "beneath (parent_of q) q" using under_step [of "sibling_of q" q] sibling_facts [OF q(1)] by auto
  then show False using under_le [of "parent_of q" q] parent_gt [OF q(1)] by simp
qed

lemma add_inv_climb:
  assumes inv: "prune_inv R0 C0" and a: "add_inv R0 C0 cur R C" and s: "sibling_of cur \<in> R \<or> sibling_of cur \<in> C"
  shows "add_inv R0 C0 (parent_of cur) (R - {sibling_of cur}) (insert cur C)"
proof -
  let ?s = "sibling_of cur"
  have cur: "0 < cur" using a by (simp add: add_inv_def)
  note sf = sibling_facts [OF cur]
  have C0: "C0 = covered R0" and ac: "antichain R0" and sibs: "\<forall>r \<in> R0. sibling_of r \<notin> C0"
    using inv unfolding prune_inv_def by blast+
  have R0C0: "R0 \<subseteq> C0" using ac unfolding C0 covered_def antichain_def by (auto intro: under_refl gr0I)
  have "\<not> beneath ?s cur" by (rule not_under_sibling [OF cur])
  then have sC0: "?s \<in> C0" using a s R0C0 by (auto simp: add_inv_def)
  have curR0: "cur \<notin> R0" using sibs sC0 by blast
  have below_s: "q \<in> C0" "q \<noteq> ?s \<Longrightarrow> q \<notin> R0" if "0 < q" "beneath q ?s" for q
  proof -
    show "q \<in> C0" using sC0 that unfolding C0 by (blast intro: covered_down)
    obtain r where r: "r \<in> R0" "beneath ?s r" using sC0 unfolding C0 covered_def by blast
    assume "q \<noteq> ?s"
    show "q \<notin> R0"
    proof
      assume "q \<in> R0"
      then have "q = r" using ac r under_trans [OF that(2) r(2)] by (auto simp: antichain_def)
      then have "q = ?s" using under_antisym [OF that(1,2)] r(2) by simp
      with \<open>q \<noteq> ?s\<close> show False by simp
    qed
  qed
  have not_both: "\<not> beneath q cur" if "beneath q ?s" for q
    using under_comparable [OF that, of cur] not_under_sibling [OF cur] not_under_sibling [OF sf(4)] sf(1) by auto
  have old: "\<not> beneath q cur \<and> q \<noteq> cur \<and> q \<noteq> ?s" if "\<not> beneath q (parent_of cur) \<or> q = parent_of cur" for q
  proof -
    have "\<not> beneath (parent_of cur) cur" "\<not> beneath (parent_of cur) ?s"
      using under_le parent_gt [OF cur] parent_gt [OF sf(4)] sf(2) cur by (metis leD less_trans)+
    moreover have "beneath cur (parent_of cur)" "beneath ?s (parent_of cur)"
      using under_parent [of cur] under_parent [of ?s] sf(2) by simp_all
    ultimately show ?thesis using that by (metis under_refl under_trans)
  qed
  show ?thesis unfolding add_inv_def
  proof (intro conjI allI impI)
    show "0 < parent_of cur" using parent_gt [OF cur] cur by simp
    fix q assume q: "0 < q \<and> beneath q (parent_of cur) \<and> q \<noteq> parent_of cur"
    then have "beneath q cur \<or> beneath q ?s" using under_children [OF _ cur] by blast
    then show "q \<in> insert cur C" "q \<notin> R - {?s}"
      using q a below_s not_both curR0 by (auto simp: add_inv_def)
  next
    fix q assume q: "\<not> beneath q (parent_of cur) \<or> q = parent_of cur"
    then show "(q \<in> insert cur C) = (q \<in> C0)" "(q \<in> R - {?s}) = (q \<in> R0)"
      using old [OF q] a by (simp_all add: add_inv_def)
  qed (use a cur in \<open>simp_all add: add_inv_def\<close>)
qed

lemma add_inv_stop:
  assumes inv: "prune_inv R0 C0" and a: "add_inv R0 C0 cur R C" and s: "sibling_of cur \<notin> R" "sibling_of cur \<notin> C"
  shows "prune_inv (insert cur R) (insert cur C)"
proof -
  have cur: "0 < cur" using a by (simp add: add_inv_def)
  have C0: "C0 = covered R0" and ac: "antichain R0" and sibs: "\<forall>r \<in> R0. sibling_of r \<notin> C0"
    using inv unfolding prune_inv_def by blast+
  have inside: "q \<in> C \<and> q \<notin> R" if "0 < q" "beneath q cur" "q \<noteq> cur" for q using a that by (simp add: add_inv_def)
  have outside: "(q \<in> C \<longleftrightarrow> q \<in> C0) \<and> (q \<in> R \<longleftrightarrow> q \<in> R0)" if "\<not> beneath q cur \<or> q = cur" for q
    using a that by (simp add: add_inv_def)
  have R: "0 < r \<and> r \<in> R0 \<and> (beneath r cur \<longrightarrow> r = cur)" if "r \<in> R" for r
    using inside [of r] outside [of r] that a by (metis add_inv_def gr0I)
  have up: "r = cur" if "r \<in> R0" "beneath cur r" for r
  proof (rule ccontr)
    assume "r \<noteq> cur"
    then have "beneath (parent_of cur) r" using that(2) under_step [of cur r] by simp
    then have "beneath (sibling_of cur) r"
      using under_parent [of "sibling_of cur"] under_trans sibling_facts(2) [OF cur] by metis
    then have "sibling_of cur \<in> C0" unfolding C0 covered_def using that(1) sibling_facts(4) [OF cur] by blast
    with outside [of "sibling_of cur"] not_under_sibling [OF cur] s show False by blast
  qed
  have "antichain (insert cur R)"
    using ac R up a cur unfolding antichain_def by (metis add_inv_def insert_iff not_gr0)
  moreover have "insert cur C = covered (insert cur R)"
  proof (intro set_eqI iffI)
    fix q assume q: "q \<in> insert cur C"
    then have q0: "0 < q" using a cur by (metis add_inv_def gr0I insert_iff)
    show "q \<in> covered (insert cur R)"
    proof (cases "beneath q cur")
      case False
      then have "q \<in> C0" using q outside [of q] by auto
      then obtain r where r: "r \<in> R0" "beneath q r" unfolding C0 covered_def by blast
      then have "\<not> beneath r cur" using False under_trans by blast
      then have "r \<in> R" using outside [of r] r(1) by blast
      then show ?thesis using r(2) q0 by (auto simp: covered_def)
    qed (use q0 in \<open>auto simp: covered_def\<close>)
  next
    fix q assume "q \<in> covered (insert cur R)"
    then obtain r where r: "0 < q" "beneath q r" "r = cur \<or> r \<in> R" unfolding covered_def by blast
    show "q \<in> insert cur C"
    proof (cases "beneath q cur")
      case True
      then show ?thesis using inside r(1) by blast
    next
      case False
      then have "q \<in> C0" using R r unfolding C0 covered_def by blast
      then show ?thesis using outside [of q] False by blast
    qed
  qed
  moreover have "sibling_of r \<notin> insert cur C" if r: "r \<in> insert cur R" for r
  proof (cases "r = cur")
    case True
    then show ?thesis using s sibling_facts(3) [OF cur] by simp
  next
    case False
    then have r: "r \<in> R" "r \<in> R0" "0 < r" "\<not> beneath r cur" using r R [of r] by auto
    have "\<not> beneath (sibling_of r) cur"
    proof
      assume "beneath (sibling_of r) cur"
      then have "sibling_of r = cur \<or> beneath (parent_of r) cur"
        using under_step [of "sibling_of r" cur] sibling_facts(2) [OF r(3)] by auto
      then show False using r s(1) sibling_facts(1) [OF r(3)] under_parent [of r] under_trans by metis
    qed
    then show ?thesis using outside [of "sibling_of r"] sibs r(2) by (metis insertE under_refl)
  qed
  ultimately show ?thesis by (simp add: prune_inv_def)
qed

lemma add_inv_start:
  assumes "prune_inv R C" and "0 < pos" and "is_leaf pos"
  shows "add_inv R C pos R C"
proof -
  have "q = pos" if "0 < q" "beneath q pos" for q
    using height_under [OF that] assms(3) unfolding is_leaf_def by simp
  moreover have "0 \<notin> R" "0 \<notin> C" using assms(1) by (auto simp: prune_inv_def antichain_def covered_def)
  ultimately show ?thesis using assms(2) by (auto simp: add_inv_def)
qed

section \<open>Bounds\<close>

lemma node_pos_ge: "node m h \<Longrightarrow> 2 * 2 ^ h \<le> node_pos m h + 1"
proof -
  assume n: "node m h"
  have d: "2 ^ h dvd Suc m" using n by (simp add: node_def)
  then have "2 ^ h \<le> Suc m" by (rule dvd_imp_le) simp
  then have "mmr_size (2 ^ h - 1) \<le> mmr_size m" by (simp add: mmr_size_le_iff)
  moreover have "\<not> (2::nat) ^ Suc h dvd 2 ^ h" by (rule nat_dvd_not_less) simp_all
  then have "\<not> node (2 ^ h - 1) (Suc h)" "node (2 ^ h - 1) h" by (simp_all add: node_def)
  then have "mmr_size (2 ^ h) = mmr_size (2 ^ h - 1) + h + 1"
    using mmr_size_carry_exact [of "2 ^ h - 1" h] by simp
  ultimately show ?thesis using mmr_size_pow2 [of h] by (simp add: node_pos_def)
qed

lemma sibling_bound: "0 < q \<Longrightarrow> sibling_of q \<le> 2 * q"
proof -
  assume "0 < q"
  then obtain m h where q: "node m h" "q = node_pos m h" using node_cases by blast
  have "sibling_of q = node_pos (sib m h) h" using q by (simp add: sibling_of_def family_node)
  then show ?thesis
    using node_pos_set_bit [of m h] node_pos_clear_bit [of m h] node_pos_ge [OF q(1)] node_pos_gt_0 [of m h] q(2)
    unfolding sib_def by (cases "bit m h"; simp only: if_True if_False simp_thms; linarith)
qed

lemma parent_bound:
  assumes "0 < q" and "q \<le> mmr_size n" and "sibling_of q \<le> mmr_size n"
  shows "parent_of q \<le> mmr_size n"
proof -
  obtain m h where q: "node m h" "q = node_pos m h" using node_cases [OF assms(1)] .
  have "m < n" "sib m h < n"
    using assms(2,3) node_pos_le_size [OF q(1)] node_pos_le_size [OF node_sib [OF q(1)]] q
    by (simp_all add: sibling_of_def family_node)
  then have "par m h < n" by (auto simp: par_def sib_def split: if_splits)
  then show ?thesis using node_pos_le_size [OF node_par [OF q(1)]] q by (simp add: parent_of_def family_node)
qed

lemma add_loop_returns:
  assumes K: "bitmap_laws K" and inv: "prune_inv R0 C0" and size: "2 * mmr_size n < u32_size"
    and C0: "C0 \<subseteq> {..mmr_size n}"
    and a: "add_inv R0 C0 cur (elems K b) (elems K c)" and cur: "cur \<le> mmr_size n"
    and leaves: "\<forall>q. is_leaf q \<longrightarrow> (q \<in> insert cur (elems K c) \<longleftrightarrow> q \<in> C0 \<or> q = pos)"
    and c: "elems K c \<subseteq> {..mmr_size n}"
  shows "\<exists>b' c'. add_loop K b c cur = Some (b', c') \<and> prune_inv (elems K b') (elems K c') \<and>
    (\<forall>q. is_leaf q \<longrightarrow> (q \<in> elems K c' \<longleftrightarrow> q \<in> C0 \<or> q = pos)) \<and> elems K c' \<subseteq> {..mmr_size n}"
  using a cur leaves c
proof (induction "mmr_size n - cur" arbitrary: cur b c rule: less_induct)
  case less
  have pos: "0 < cur" using less.prems(1) by (simp add: add_inv_def)
  have f: "family cur = (parent_of cur, sibling_of cur)" by (simp add: parent_of_def sibling_of_def)
  have u: "as_u32 (sibling_of cur) = sibling_of cur" "as_u32 cur = cur"
    using sibling_bound [OF pos] less.prems(2) size by (simp_all add: width)
  show ?case
  proof (cases "sibling_of cur \<in> elems K b \<or> sibling_of cur \<in> elems K c")
    case True
    let ?b = "bm_remove K b (sibling_of cur)"
    let ?c = "bm_add K c cur"
    have climb: "add_inv R0 C0 (parent_of cur) (elems K ?b) (elems K ?c)"
      using add_inv_climb [OF inv less.prems(1) True] by (simp add: bitmap_elems [OF K])
    have "R0 \<subseteq> C0" using inv unfolding prune_inv_def antichain_def covered_def by (auto intro: under_refl gr0I)
    then have "sibling_of cur \<in> C0"
      using True less.prems(1) not_under_sibling [OF pos] by (auto simp: add_inv_def)
    then have le: "parent_of cur \<le> mmr_size n" using parent_bound [OF pos less.prems(2)] C0 by blast
    have "\<not> is_leaf (parent_of cur)" using sibling_facts(6) [OF pos] by (simp add: is_leaf_def)
    then have "\<exists>b' c'. add_loop K ?b ?c (parent_of cur) = Some (b', c') \<and> prune_inv (elems K b') (elems K c') \<and>
      (\<forall>q. is_leaf q \<longrightarrow> (q \<in> elems K c' \<longleftrightarrow> q \<in> C0 \<or> q = pos)) \<and> elems K c' \<subseteq> {..mmr_size n}"
      using parent_gt [OF pos] le climb less.prems(2-4)
      by (intro less.hyps) (auto simp: bitmap_elems [OF K])
    then show ?thesis
      using True by (subst add_loop.simps) (simp add: f u bitmap_queries [OF K])
  next
    case False
    then show ?thesis
      using add_inv_stop [OF inv less.prems(1)] less.prems
      by (subst add_loop.simps) (simp add: f u bitmap_queries [OF K] bitmap_elems [OF K])
  qed
qed

section \<open>Counting below a root\<close>

lemma under_leaf: "0 < r \<Longrightarrow> is_leaf r \<Longrightarrow> {q. 0 < q \<and> beneath q r} = {r}"
  using height_under(2) [of _ r] height_under(1) [of _ r] under_refl unfolding is_leaf_def by fastforce

lemma under_split:
  assumes "0 < c"
  shows "{q. 0 < q \<and> beneath q (parent_of c)} =
    {parent_of c} \<union> {q. 0 < q \<and> beneath q c} \<union> {q. 0 < q \<and> beneath q (sibling_of c)}"
proof -
  have "beneath c (parent_of c)" "beneath (sibling_of c) (parent_of c)"
    using under_parent [of c] under_parent [of "sibling_of c"] sibling_facts(2) [OF assms] by simp_all
  then show ?thesis using under_children [OF _ assms] under_trans parent_gt [OF assms] by (auto intro: under_trans)
qed

lemma children_node:
  assumes "node m (Suc h)"
  shows "node m h" and "bit m h" and "parent_of (node_pos m h) = node_pos m (Suc h)"
    and "sibling_of (node_pos m h) = node_pos (m - 2 ^ h) h" and "node (m - 2 ^ h) h"
proof -
  show n: "node m h" "bit m h" using assms by (simp_all add: node_bit)
  then show "parent_of (node_pos m h) = node_pos m (Suc h)" "sibling_of (node_pos m h) = node_pos (m - 2 ^ h) h"
    "node (m - 2 ^ h) h"
    using node_sib [of m h] by (simp_all add: parent_of_def sibling_of_def family_node par_def sib_def)
qed

lemma under_interval_node:
  "node m h \<Longrightarrow> {q. 0 < q \<and> beneath q (node_pos m h)} = {node_pos m h + 2 - 2 * 2 ^ h..node_pos m h}"
proof (induction h arbitrary: m)
  case 0
  then show ?case using under_leaf [of "node_pos m 0"] by (simp add: is_leaf_node)
next
  case (Suc h)
  note c = children_node [OF Suc.prems]
  let ?l = "node_pos (m - 2 ^ h) h"
  let ?r = "node_pos m h"
  have l: "?l = ?r + 1 - 2 * 2 ^ h" and p: "node_pos m (Suc h) = ?r + 1"
    using node_pos_clear_bit [OF c(2)] by (simp_all add: node_pos_Suc)
  have big: "2 * 2 ^ h \<le> ?l + 1" "2 * 2 ^ h \<le> ?r + 1"
    using node_pos_ge [OF c(5)] node_pos_ge [OF c(1)] by simp_all
  have "{q. 0 < q \<and> beneath q (node_pos m (Suc h))} = {?r + 1} \<union> {?r + 2 - 2 * 2 ^ h..?r} \<union> {?l + 2 - 2 * 2 ^ h..?l}"
    using under_split [of ?r] Suc.IH [OF c(1)] Suc.IH [OF c(5)] unfolding c(3,4) p by simp
  also have "\<dots> = {?r + 1 + 2 - 2 * 2 ^ Suc h..?r + 1}"
  proof -
    obtain w where w: "(2::nat) ^ h = Suc w" using not0_implies_Suc [of "2 ^ h"] by auto
    show ?thesis using big l unfolding power_Suc w by auto
  qed
  finally show ?case unfolding p .
qed

lemma under_interval:
  assumes "0 < r"
  shows "{q. 0 < q \<and> beneath q r} = {bintree_leftmost r..r}"
proof -
  obtain m h where r: "node m h" "r = node_pos m h" using node_cases [OF assms] .
  then show ?thesis using under_interval_node [OF r(1)] by (simp add: bintree_leftmost_def postorder_height_node)
qed

lemma card_under:
  assumes "0 < r"
  shows "card {q. 0 < q \<and> beneath q r} = root_shift r + 1"
proof -
  obtain m h where r: "node m h" "r = node_pos m h" using node_cases [OF assms] .
  obtain w where w: "(2::nat) ^ h = Suc w" using not0_implies_Suc [of "2 ^ h"] by auto
  show ?thesis using under_interval_node [OF r(1)] node_pos_ge [OF r(1)] r
    by (simp add: root_shift_def postorder_height_node w)
qed

lemma card_leaves_node:
  "node m h \<Longrightarrow> card {q. 0 < q \<and> beneath q (node_pos m h) \<and> is_leaf q} = 2 ^ h"
proof (induction h arbitrary: m)
  case 0
  then have "{q. 0 < q \<and> beneath q (node_pos m 0)} = {node_pos m 0}" "is_leaf (node_pos m 0)"
    using under_leaf [of "node_pos m 0"] by (simp_all add: is_leaf_node)
  then have "{q. 0 < q \<and> beneath q (node_pos m 0) \<and> is_leaf q} = {node_pos m 0}" by blast
  then show ?case by simp
next
  case (Suc h)
  note c = children_node [OF Suc.prems]
  let ?L = "\<lambda>r. {q. 0 < q \<and> beneath q r \<and> is_leaf q}"
  have nl: "\<not> is_leaf (node_pos m (Suc h))" by (simp add: is_leaf_node [OF Suc.prems])
  have u: "?L (node_pos m (Suc h)) = ?L (node_pos m h) \<union> ?L (node_pos (m - 2 ^ h) h)"
  proof -
    have L: "?L r = {q. 0 < q \<and> beneath q r} \<inter> {q. is_leaf q}" for r by blast
    show ?thesis
      unfolding L under_split [OF node_pos_gt_0, of m h, unfolded c(3,4)]
      using nl by blast
  qed
  have fin: "finite (?L r)" if "0 < r" for r
    by (rule finite_subset [of _ "{..r}"]) (use under_le in auto)
  have "?L (node_pos m h) \<inter> ?L (node_pos (m - 2 ^ h) h) = {}"
  proof -
    have "\<not> beneath (node_pos (m - 2 ^ h) h) (node_pos m h)" "\<not> beneath (node_pos m h) (node_pos (m - 2 ^ h) h)"
      using not_under_sibling [of "node_pos m h"] not_under_sibling [of "sibling_of (node_pos m h)"]
        sibling_facts [of "node_pos m h"] unfolding c(4) by simp_all
    then show ?thesis using under_comparable by blast
  qed
  then show ?case unfolding u using Suc.IH [OF c(1)] Suc.IH [OF c(5)] fin by (simp add: card_Un_disjoint)
qed

section \<open>The caches\<close>

definition prefix_sums :: "(nat \<Rightarrow> nat) \<Rightarrow> nat list \<Rightarrow> nat list" where
  "prefix_sums f ps = map (\<lambda>j. sum_list (map f (take (Suc j) ps))) [0..<length ps]"

lemma length_prefix_sums [simp]: "length (prefix_sums f ps) = length ps"
  by (simp add: prefix_sums_def)

lemma prefix_sums_snoc: "prefix_sums f (qs @ [p]) = prefix_sums f qs @ [sum_list (map f qs) + f p]"
  by (simp add: prefix_sums_def)

lemma prefix_sums_nth: "j < length ps \<Longrightarrow> prefix_sums f ps ! j = sum_list (map f (take (Suc j) ps))"
  by (simp add: prefix_sums_def)

lemma rank_filter:
  assumes "bitmap_laws K"
  shows "bm_rank K b x = length (filter (\<lambda>y. y \<le> x) (bm_iter K b))"
proof -
  have "distinct (filter (\<lambda>y. y \<le> x) (bm_iter K b))" using bitmap_sorted [OF assms, of b] by (simp add: strict_sorted_iff)
  from distinct_card [OF this] show ?thesis by (simp add: bitmap_queries [OF assms])
qed

text \<open>Reading a cache that holds the prefix sums of the first positions of the bitmap.\<close>

lemma read_shift_prefix:
  assumes K: "bitmap_laws K" and "elems K b \<noteq> {}" and iter: "bm_iter K b = qs @ rs"
    and low: "filter (\<lambda>y. y \<le> x) (bm_iter K b) = take k qs" and k: "k \<le> length qs" and x: "x < u32_size"
  shows "read_shift K b (prefix_sums f qs) x = Some (sum_list (map f (take k qs)))"
proof -
  have r: "bm_rank K b (as_u32 x) = k" using low k x by (simp add: rank_filter [OF K] width)
  show ?thesis
  proof (cases k)
    case 0
    then show ?thesis using r assms(2) by (simp add: read_shift_def bitmap_queries(4) [OF K])
  next
    case (Suc j)
    then have "prefix_sums f qs ! j = sum_list (map f (take k qs))" using k by (simp add: prefix_sums_nth)
    then show ?thesis using r assms(2) k Suc by (simp add: read_shift_def bitmap_queries(4) [OF K])
  qed
qed

lemma fill_cache_sums:
  assumes K: "bitmap_laws K" and "elems K b \<noteq> {}" and range: "\<forall>y \<in> elems K b. 0 < y \<and> y < u32_size"
  shows "bm_iter K b = qs @ rs \<Longrightarrow> fill_cache K b f (prefix_sums f qs) rs = Some (prefix_sums f (bm_iter K b))"
proof (induction rs arbitrary: qs)
  case (Cons p rs)
  have sorted: "sorted_wrt (<) (qs @ p # rs)" using bitmap_sorted [OF K, of b] unfolding Cons.prems .
  have "p \<in> elems K b" unfolding elems_def Cons.prems by simp
  then have p: "0 < p" "p < u32_size" using range by simp_all
  have "filter (\<lambda>y. y \<le> p - 1) qs = qs" "filter (\<lambda>y. y \<le> p - 1) rs = []"
    using sorted p by (auto simp: sorted_wrt_append filter_empty_conv filter_id_conv)
  then have "filter (\<lambda>y. y \<le> p - 1) (bm_iter K b) = take (length qs) qs"
    using p unfolding Cons.prems by simp
  then have "read_shift K b (prefix_sums f qs) (p - 1) = Some (sum_list (map f (take (length qs) qs)))"
    using p by (intro read_shift_prefix [OF K assms(2) Cons.prems]) simp_all
  moreover have "u64_sub p (Suc 0) = p - 1" using p by (simp add: width)
  moreover have "fill_cache K b f (prefix_sums f (qs @ [p])) rs = Some (prefix_sums f (bm_iter K b))"
    using Cons.IH [of "qs @ [p]"] Cons.prems by simp
  ultimately show ?case
    using p \<open>p \<in> elems K b\<close> by (simp add: bitmap_queries [OF K] width prefix_sums_snoc)
qed simp

lemma sorted_filter_take:
  fixes ps :: "nat list"
  assumes "sorted_wrt (<) ps"
  shows "filter (\<lambda>y. y \<le> x) ps = take (length (filter (\<lambda>y. y \<le> x) ps)) ps"
  using assms
proof (induction ps)
  case (Cons p ps)
  then show ?case
  proof (cases "p \<le> x")
    case False
    then have "filter (\<lambda>y. y \<le> x) ps = []" using Cons.prems by (auto simp: filter_empty_conv)
    with False show ?thesis by simp
  qed simp
qed simp

lemma read_shift_sums:
  assumes K: "bitmap_laws K" and "elems K b \<noteq> {}" and "x < u32_size"
  shows "read_shift K b (prefix_sums f (bm_iter K b)) x = Some (\<Sum>r \<in> {r \<in> elems K b. r \<le> x}. f r)"
proof -
  let ?ps = "bm_iter K b"
  let ?low = "filter (\<lambda>y. y \<le> x) ?ps"
  have s: "sorted_wrt (<) ?ps" by (rule bitmap_sorted [OF K])
  have "read_shift K b (prefix_sums f ?ps) x = Some (sum_list (map f (take (length ?low) ?ps)))"
    using sorted_filter_take [OF s, of x] assms(3)
    by (intro read_shift_prefix [OF K assms(2), of _ "[]"]) simp_all
  also have "take (length ?low) ?ps = ?low" using sorted_filter_take [OF s, of x] by simp
  also have "sum_list (map f ?low) = (\<Sum>r \<in> set ?low. f r)"
    using s by (intro sum_list_distinct_conv_sum_set) (simp add: strict_sorted_iff)
  finally show ?thesis by simp
qed

lemma path_climb: "0 < q \<Longrightarrow> path q mx = (if q \<le> mx then q # path (parent_of q) mx else [])"
proof -
  assume "0 < q"
  then obtain m h where q: "node m h" "q = node_pos m h" using node_cases by blast
  then show ?thesis
    using path_node [OF q(1), of mx] path_node [OF node_par [OF q(1)], of mx] family_branch_node [OF q(1), of mx]
      node_pos_par [of m h] by (simp add: parent_of_def family_node)
qed

lemma set_path: "0 < q \<Longrightarrow> set (path q mx) = {x. beneath q x \<and> x \<le> mx}"
proof (induction "mx + 1 - q" arbitrary: q rule: less_induct)
  case less
  show ?case
  proof (cases "q \<le> mx")
    case True
    then have "set (path (parent_of q) mx) = {x. beneath (parent_of q) x \<and> x \<le> mx}"
      using parent_gt [OF less.prems] less.prems by (intro less.hyps) simp_all
    then show ?thesis using path_climb [OF less.prems, of mx] True under_step [of q] by auto
  next
    case False
    then show ?thesis using path_climb [OF less.prems, of mx] under_le [OF less.prems] order_trans by force
  qed
qed

definition compacted :: "nat set \<Rightarrow> nat set" where
  "compacted R = covered R - R"

text \<open>A prune list is in order when its bitmap and pruned cache keep the invariant within a range
  of \<open>n\<close> leaves; its shift caches are in order when they hold the prefix sums of the roots.\<close>

definition prune_ok :: "'bm bitmap_ops \<Rightarrow> nat \<Rightarrow> 'bm prune_list \<Rightarrow> bool" where
  "prune_ok K n pl \<longleftrightarrow> 2 * mmr_size n < u32_size \<and> prune_inv (elems K (pl_bitmap pl)) (elems K (pl_pruned_cache pl)) \<and>
     elems K (pl_pruned_cache pl) \<subseteq> {..mmr_size n}"

definition caches_ok :: "'bm bitmap_ops \<Rightarrow> 'bm prune_list \<Rightarrow> bool" where
  "caches_ok K pl \<longleftrightarrow> elems K (pl_bitmap pl) \<noteq> {} \<longrightarrow>
     pl_shift_cache pl = prefix_sums root_shift (bm_iter K (pl_bitmap pl)) \<and>
     pl_leaf_shift_cache pl = prefix_sums root_leaf_shift (bm_iter K (pl_bitmap pl))"

lemma prune_inv_roots: "prune_inv R C \<Longrightarrow> R \<subseteq> C"
  by (auto simp: prune_inv_def antichain_def covered_def intro: gr0I under_refl)

lemma prune_ok_range:
  assumes "prune_ok K n pl" and "r \<in> elems K (pl_bitmap pl)"
  shows "0 < r" and "r \<le> mmr_size n" and "r < u32_size"
proof -
  have "prune_inv (elems K (pl_bitmap pl)) (elems K (pl_pruned_cache pl))" using assms(1) by (simp add: prune_ok_def)
  then have "r \<in> elems K (pl_pruned_cache pl)" "0 < r"
    using assms(2) prune_inv_roots by (blast, auto simp: prune_inv_def antichain_def intro: gr0I)
  then show "0 < r" "r \<le> mmr_size n" "r < u32_size" using assms(1) by (auto simp: prune_ok_def)
qed

lemma fold_add_elems:
  assumes "bitmap_laws K"
  shows "elems K (fold (\<lambda>x c. if P x then bm_add K c x else c) xs c) = elems K c \<union> {x \<in> set xs. P x}"
  by (induction xs arbitrary: c) (auto simp: bitmap_elems [OF assms])

lemma build_pruned_cache_covered:
  assumes K: "bitmap_laws K" and ok: "prune_ok K n pl"
  shows "elems K (pl_pruned_cache (build_pruned_cache K pl)) = covered (elems K (pl_bitmap pl))"
proof (cases "elems K (pl_bitmap pl) = {}")
  case True
  then show ?thesis using ok by (simp add: build_pruned_cache_def bitmap_queries [OF K] prune_ok_def prune_inv_def)
next
  case False
  let ?R = "elems K (pl_bitmap pl)"
  let ?mx = "Max ?R"
  have mx: "bm_maximum K (pl_bitmap pl) = ?mx" using False by (simp add: bitmap_queries [OF K])
  have le: "?mx < u32_size" using prune_ok_range(3) [OF ok, of ?mx] False by simp
  have "list_ex (\<lambda>x. bm_contains K (pl_bitmap pl) (as_u32 x)) (path q ?mx) \<longleftrightarrow> (\<exists>r \<in> ?R. beneath q r)" if "0 < q" for q
  proof -
    have "as_u32 x = x" if "x \<le> ?mx" for x using that le by (simp add: width)
    then show ?thesis using set_path [OF that, of ?mx] Max_ge [OF finite_elems, of _ K "pl_bitmap pl"]
      by (auto simp: list_ex_iff bitmap_queries [OF K])
  qed
  then have "elems K (pl_pruned_cache (build_pruned_cache K pl)) = {q \<in> {1..?mx}. \<exists>r \<in> ?R. beneath q r}"
    using False by (auto simp: build_pruned_cache_def Let_def mx fold_add_elems [OF K] bitmap_elems [OF K]
        bitmap_queries(4) [OF K] Suc_le_eq)
  also have "\<dots> = covered ?R"
  proof -
    have "q \<le> ?mx" if "0 < q" "r \<in> ?R" "beneath q r" for q r
      using under_le [OF that(1,3)] Max_ge [OF finite_elems that(2)] by linarith
    then show ?thesis by (auto simp: covered_def Suc_le_eq)
  qed
  finally show ?thesis .
qed

text \<open>Flushing keeps the roots and leaves all caches in order.\<close>

lemma init_caches_ok:
  assumes K: "bitmap_laws K" and ok: "prune_ok K n pl"
  shows "\<exists>pl'. init_caches K pl = Some pl' \<and> prune_ok K n pl' \<and> caches_ok K pl' \<and> pl_bitmap pl' = pl_bitmap pl \<and>
    elems K (pl_pruned_cache pl') = elems K (pl_pruned_cache pl)"
proof -
  let ?b = "pl_bitmap pl"
  have C: "elems K (pl_pruned_cache pl) = covered (elems K ?b)" using ok by (simp add: prune_ok_def prune_inv_def)
  have bm: "pl_bitmap (build_pruned_cache K q) = pl_bitmap q" "pl_shift_cache (build_pruned_cache K q) = pl_shift_cache q"
    "pl_leaf_shift_cache (build_pruned_cache K q) = pl_leaf_shift_cache q" for q
    by (simp_all add: build_pruned_cache_def Let_def)
  show ?thesis
  proof (cases "elems K ?b = {}")
    case True
    then have "init_caches K pl = Some pl"
      by (simp add: init_caches_def build_shift_cache_def build_leaf_shift_cache_def build_pruned_cache_def bitmap_queries [OF K])
    then show ?thesis using ok True by (simp add: caches_ok_def)
  next
    case False
    have range: "\<forall>y \<in> elems K ?b. 0 < y \<and> y < u32_size" using prune_ok_range [OF ok] by blast
    have fill: "fill_cache K ?b f [] (bm_iter K ?b) = Some (prefix_sums f (bm_iter K ?b))" for f
      using fill_cache_sums [OF K False range, of "[]" "bm_iter K ?b" f] by (simp add: prefix_sums_def)
    let ?pl = "pl\<lparr>pl_shift_cache := prefix_sums root_shift (bm_iter K ?b),
        pl_leaf_shift_cache := prefix_sums root_leaf_shift (bm_iter K ?b)\<rparr>"
    have "init_caches K pl = Some (build_pruned_cache K ?pl)"
      using False by (simp add: init_caches_def build_shift_cache_def build_leaf_shift_cache_def fill bitmap_queries(4) [OF K])
    moreover have "prune_ok K n ?pl" using ok by (simp add: prune_ok_def)
    then have "elems K (pl_pruned_cache (build_pruned_cache K ?pl)) = elems K (pl_pruned_cache pl)"
      using build_pruned_cache_covered [OF K] C by fastforce
    ultimately show ?thesis using ok by (simp add: caches_ok_def prune_ok_def bm)
  qed
qed

section \<open>Shifts\<close>

lemma compacted_upto:
  assumes ac: "antichain R" and pos: "0 < pos" "pos \<notin> compacted R"
  shows "{q \<in> compacted R. q \<le> pos} = (\<Union>r \<in> {r \<in> R. r \<le> pos}. {q. 0 < q \<and> beneath q r} - {r})"
proof (intro set_eqI iffI)
  fix q
  assume "q \<in> {q \<in> compacted R. q \<le> pos}"
  then obtain r where q: "0 < q" "q \<notin> R" "q \<le> pos" and r: "r \<in> R" "beneath q r" by (auto simp: compacted_def covered_def)
  have "0 < r" using ac r(1) by (auto simp: antichain_def intro: gr0I)
  have "r \<le> pos"
  proof (rule ccontr)
    assume "\<not> r \<le> pos"
    moreover have "q \<in> {bintree_leftmost r..r}" unfolding under_interval [OF \<open>0 < r\<close>, symmetric] using q(1) r(2) by simp
    ultimately have "pos \<in> {bintree_leftmost r..r}" using q(3) by simp
    then have b: "beneath pos r" unfolding under_interval [OF \<open>0 < r\<close>, symmetric] by simp
    then have "pos \<notin> R" using ac r(1) \<open>\<not> r \<le> pos\<close> by (auto simp: antichain_def)
    then show False using pos b r(1) by (auto simp: compacted_def covered_def)
  qed
  with q r show "q \<in> (\<Union>r \<in> {r \<in> R. r \<le> pos}. {q. 0 < q \<and> beneath q r} - {r})" by auto
next
  fix q
  assume "q \<in> (\<Union>r \<in> {r \<in> R. r \<le> pos}. {q. 0 < q \<and> beneath q r} - {r})"
  then obtain r where r: "r \<in> R" "r \<le> pos" "0 < q" "beneath q r" "q \<noteq> r" by auto
  then have "q \<notin> R" using ac by (auto simp: antichain_def)
  with r under_le [OF r(3,4)] show "q \<in> {q \<in> compacted R. q \<le> pos}" by (auto simp: compacted_def covered_def)
qed

lemma disjoint_subtrees:
  assumes "antichain R" and "r \<in> R" and "s \<in> R" and "r \<noteq> s"
  shows "{q. 0 < q \<and> beneath q r} \<inter> {q. 0 < q \<and> beneath q s} = {}"
  using assms under_comparable unfolding antichain_def by blast

lemma finite_subtree: "finite {q. 0 < q \<and> beneath q r}"
  by (rule finite_subset [of _ "{..r}"]) (use under_le in auto)

lemma card_compacted_upto:
  assumes ac: "antichain R" and fin: "finite R" and pos: "0 < pos" "pos \<notin> compacted R"
  shows "card {q \<in> compacted R. q \<le> pos} = (\<Sum>r \<in> {r \<in> R. r \<le> pos}. root_shift r)"
    and "card {q \<in> compacted R. q \<le> pos \<and> is_leaf q} = (\<Sum>r \<in> {r \<in> R. r \<le> pos}. root_leaf_shift r)"
proof -
  let ?U = "\<lambda>r. {q. 0 < q \<and> beneath q r} - {r}"
  let ?S = "{r \<in> R. r \<le> pos}"
  have fS: "finite ?S" using fin by simp
  have disj: "\<forall>r \<in> ?S. \<forall>s \<in> ?S. r \<noteq> s \<longrightarrow> ?U r \<inter> ?U s = {}" using disjoint_subtrees [OF ac] by blast
  have R0: "0 < r" if "r \<in> ?S" for r using that ac by (auto simp: antichain_def intro: gr0I)
  have "card {q \<in> compacted R. q \<le> pos} = (\<Sum>r \<in> ?S. card (?U r))"
    unfolding compacted_upto [OF ac pos] using fS disj finite_subtree by (intro card_UN_disjoint) auto
  also have "\<dots> = (\<Sum>r \<in> ?S. root_shift r)"
    by (rule sum.cong) (use R0 card_under finite_subtree in \<open>auto simp: card_Diff_singleton_if\<close>)
  finally show "card {q \<in> compacted R. q \<le> pos} = (\<Sum>r \<in> ?S. root_shift r)" .
  have "{q \<in> compacted R. q \<le> pos \<and> is_leaf q} = (\<Union>r \<in> ?S. ?U r \<inter> {q. is_leaf q})"
    using compacted_upto [OF ac pos] by blast
  then have "card {q \<in> compacted R. q \<le> pos \<and> is_leaf q} = (\<Sum>r \<in> ?S. card (?U r \<inter> {q. is_leaf q}))"
    using fS disj finite_subtree by (simp only:) (intro card_UN_disjoint, auto)
  also have "\<dots> = (\<Sum>r \<in> ?S. root_leaf_shift r)"
  proof (rule sum.cong)
    fix r assume "r \<in> ?S"
    then have "0 < r" by (rule R0)
    then obtain m h where r: "node m h" "r = node_pos m h" using node_cases by blast
    show "card (?U r \<inter> {q. is_leaf q}) = root_leaf_shift r"
    proof (cases "h = 0")
      case True
      then have "is_leaf r" using r by (simp add: is_leaf_node)
      then have "?U r \<inter> {q. is_leaf q} = {}" using under_leaf [OF \<open>0 < r\<close>] by blast
      then show ?thesis using True r by (simp only: root_leaf_shift_def postorder_height_node) simp
    next
      case False
      then have "\<not> is_leaf r" using r by (simp add: is_leaf_node)
      then have "?U r \<inter> {q. is_leaf q} = {q. 0 < q \<and> beneath q r \<and> is_leaf q}" by blast
      then show ?thesis using False r card_leaves_node [OF r(1)] by (simp add: root_leaf_shift_def postorder_height_node)
    qed
  qed simp
  finally show "card {q \<in> compacted R. q \<le> pos \<and> is_leaf q} = (\<Sum>r \<in> ?S. root_leaf_shift r)" .
qed

lemma get_shift_count:
  assumes K: "bitmap_laws K" and ok: "prune_ok K n pl" and c: "caches_ok K pl"
    and pos: "0 < pos" "pos < u32_size" "pos \<notin> compacted (elems K (pl_bitmap pl))"
  shows "get_shift K pl pos = Some (card {q \<in> compacted (elems K (pl_bitmap pl)). q \<le> pos})"
    and "get_leaf_shift K pl pos = Some (card {q \<in> compacted (elems K (pl_bitmap pl)). q \<le> pos \<and> is_leaf q})"
proof -
  let ?R = "elems K (pl_bitmap pl)"
  have ac: "antichain ?R" using ok by (simp add: prune_ok_def prune_inv_def)
  note card = card_compacted_upto [OF ac finite_elems pos(1,3)]
  show "get_shift K pl pos = Some (card {q \<in> compacted ?R. q \<le> pos})"
    "get_leaf_shift K pl pos = Some (card {q \<in> compacted ?R. q \<le> pos \<and> is_leaf q})"
    unfolding card using c read_shift_sums [OF K _ pos(2), of "pl_bitmap pl"]
    by (cases "?R = {}"; simp add: get_shift_def get_leaf_shift_def caches_ok_def read_shift_def bitmap_queries(4) [OF K])+
qed

text \<open>The pruned positions are determined by the pruned leaves.\<close>

lemma pruned_iff_leaves_node:
  assumes inv: "prune_inv R C"
  shows "node m h \<Longrightarrow> node_pos m h \<in> C \<longleftrightarrow> (\<forall>l. 0 < l \<and> is_leaf l \<and> beneath l (node_pos m h) \<longrightarrow> l \<in> C)"
proof (induction h arbitrary: m)
  case 0
  have leaf: "is_leaf (node_pos m 0)" by (simp add: is_leaf_node)
  have "0 < l \<and> beneath l (node_pos m 0) \<longleftrightarrow> l = node_pos m 0" for l
    using under_leaf [OF node_pos_gt_0 leaf] by (metis mem_Collect_eq singleton_iff)
  then show ?case using leaf by metis
next
  case (Suc h)
  note c = children_node [OF Suc.prems]
  let ?q = "node_pos m (Suc h)" and ?r = "node_pos m h" and ?l = "node_pos (m - 2 ^ h) h"
  have C: "C = covered R" and sibs: "\<forall>r \<in> R. sibling_of r \<notin> C" using inv unfolding prune_inv_def by blast+
  have b: "beneath ?r ?q" "beneath ?l ?q"
    using under_parent [of ?r] under_parent [of ?l] sibling_facts(2) [of ?r] unfolding c(3,4) by simp_all
  show ?case
  proof
    assume "?q \<in> C"
    then show "\<forall>l. 0 < l \<and> is_leaf l \<and> beneath l ?q \<longrightarrow> l \<in> C" unfolding C using covered_down by blast
  next
    assume "\<forall>l. 0 < l \<and> is_leaf l \<and> beneath l ?q \<longrightarrow> l \<in> C"
    then have "?r \<in> C" "?l \<in> C" using Suc.IH [OF c(1)] Suc.IH [OF c(5)] b under_trans by blast+
    then obtain r where r: "r \<in> R" "beneath ?r r" unfolding C covered_def by blast
    have "?r \<noteq> r" using sibs r(1) \<open>?l \<in> C\<close> c(4) by auto
    then have "beneath ?q r" using r(2) under_step [of ?r r] c(3) by simp
    then show "?q \<in> C" unfolding C covered_def using r(1) by auto
  qed
qed

lemma pruned_iff_leaves:
  "prune_inv R C \<Longrightarrow> 0 < q \<Longrightarrow> q \<in> C \<longleftrightarrow> (\<forall>l. 0 < l \<and> is_leaf l \<and> beneath l q \<longrightarrow> l \<in> C)"
  using node_cases [of q] pruned_iff_leaves_node [of R C] by metis

lemma is_pruned_elems:
  assumes "bitmap_laws K" and "prune_ok K n pl" and "q \<le> mmr_size n"
  shows "is_pruned K pl q \<longleftrightarrow> q \<in> elems K (pl_pruned_cache pl)"
    and "is_pruned_root K pl q \<longleftrightarrow> q \<in> elems K (pl_bitmap pl)"
  using assms by (simp_all add: is_pruned_def is_pruned_root_def bitmap_queries [OF assms(1)] prune_ok_def width)

lemma prune_list_add_ok:
  assumes K: "bitmap_laws K" and ok: "prune_ok K n pl" and pos: "0 < pos" "pos \<le> mmr_size n" "is_leaf pos"
  shows "\<exists>pl'. prune_list_add K pl pos = Some pl' \<and> prune_ok K n pl' \<and>
    (\<forall>l. is_leaf l \<longrightarrow> (l \<in> elems K (pl_pruned_cache pl') \<longleftrightarrow> l \<in> elems K (pl_pruned_cache pl) \<or> l = pos))"
proof -
  let ?R = "elems K (pl_bitmap pl)" and ?C = "elems K (pl_pruned_cache pl)"
  have inv: "prune_inv ?R ?C" and size: "2 * mmr_size n < u32_size" and C: "?C \<subseteq> {..mmr_size n}"
    using ok by (simp_all add: prune_ok_def)
  obtain b c where bc: "add_loop K (pl_bitmap pl) (pl_pruned_cache pl) pos = Some (b, c)" "prune_inv (elems K b) (elems K c)"
    "\<forall>q. is_leaf q \<longrightarrow> (q \<in> elems K c \<longleftrightarrow> q \<in> ?C \<or> q = pos)" "elems K c \<subseteq> {..mmr_size n}"
    using add_loop_returns [OF K inv size C add_inv_start [OF inv pos(1,3)] pos(2) _ C, of pos] by auto
  then show ?thesis using size by (simp add: prune_list_add_def prune_ok_def)
qed

lemma new_list_ok: "2 * mmr_size n < u32_size \<Longrightarrow> prune_ok list_bitmap n (prune_list_new list_bitmap)"
  by (simp add: prune_ok_def prune_list_new_def list_bitmap_elems prune_inv_def antichain_def covered_def)
    (simp add: list_bitmap_def)

section \<open>Properties\<close>



text \<open>C28: flushing never panics, keeps the roots, and afterwards the shift of every position that has
  not been compacted away is the number of compacted positions before it, the leaf shift the number of
  compacted leaves before it.\<close>

theorem shift_counts_compacted:
  assumes "bitmap_laws K" and "prune_ok K n pl"
  shows "\<exists>pl'. prune_list_flush K pl = Some pl' \<and> prune_ok K n pl' \<and> prune_list_to_vec K pl' = prune_list_to_vec K pl \<and>
    (\<forall>pos. 0 < pos \<and> pos \<le> mmr_size n \<and> \<not> (is_pruned K pl' pos \<and> \<not> is_pruned_root K pl' pos) \<longrightarrow>
       get_shift K pl' pos = Some (card {q \<in> {1..pos}. is_pruned K pl' q \<and> \<not> is_pruned_root K pl' q}) \<and>
       get_leaf_shift K pl' pos = Some (card {q \<in> {1..pos}. is_leaf q \<and> is_pruned K pl' q \<and> \<not> is_pruned_root K pl' q}))"
proof -
  obtain pl' where pl': "prune_list_flush K pl = Some pl'" "prune_ok K n pl'" "caches_ok K pl'" "pl_bitmap pl' = pl_bitmap pl"
    using init_caches_ok [OF assms] by (auto simp: prune_list_flush_def)
  let ?R = "elems K (pl_bitmap pl')"
  have C: "elems K (pl_pruned_cache pl') = covered ?R" using pl'(2) by (simp add: prune_ok_def prune_inv_def)
  have size: "mmr_size n < u32_size" using pl'(2) by (simp add: prune_ok_def)
  have comp: "is_pruned K pl' q \<and> \<not> is_pruned_root K pl' q \<longleftrightarrow> q \<in> compacted ?R" if "q \<le> mmr_size n" for q
    using is_pruned_elems [OF assms(1) pl'(2) that] C by (simp add: compacted_def)
  have "get_shift K pl' pos = Some (card {q \<in> {1..pos}. is_pruned K pl' q \<and> \<not> is_pruned_root K pl' q}) \<and>
       get_leaf_shift K pl' pos = Some (card {q \<in> {1..pos}. is_leaf q \<and> is_pruned K pl' q \<and> \<not> is_pruned_root K pl' q})"
    if pos: "0 < pos" "pos \<le> mmr_size n" "\<not> (is_pruned K pl' pos \<and> \<not> is_pruned_root K pl' pos)" for pos
  proof -
    have nz: "0 < q" if "q \<in> compacted ?R" for q using that by (simp add: compacted_def covered_def)
    have "q \<in> {1..pos} \<and> is_pruned K pl' q \<and> \<not> is_pruned_root K pl' q \<longleftrightarrow> q \<in> compacted ?R \<and> q \<le> pos" for q
      using comp [of q] nz [of q] pos(2) by (cases "q \<le> pos") (simp_all add: Suc_le_eq, blast)
    then have sets: "{q \<in> {1..pos}. is_pruned K pl' q \<and> \<not> is_pruned_root K pl' q} = {q \<in> compacted ?R. q \<le> pos}"
      "{q \<in> {1..pos}. is_leaf q \<and> is_pruned K pl' q \<and> \<not> is_pruned_root K pl' q} = {q \<in> compacted ?R. q \<le> pos \<and> is_leaf q}"
      by blast+
    have "pos < u32_size" "pos \<notin> compacted ?R" using pos comp [OF pos(2)] size by auto
    then show ?thesis
      unfolding sets using get_shift_count [OF assms(1) pl'(2,3) pos(1)] by simp
  qed
  then show ?thesis using pl' by (auto simp: prune_list_to_vec_def)
qed

theorem shift_counts_compacted_witness:
  "\<exists>pl'. prune_list_flush list_bitmap (prune_list_new list_bitmap) = Some pl' \<and> get_shift list_bitmap pl' 3 = Some 0"
proof -
  have m: "mmr_size 4 = 7" by (simp add: mmr_size_def count_ones.simps)
  obtain pl' where pl': "prune_list_flush list_bitmap (prune_list_new list_bitmap) = Some pl'" "prune_ok list_bitmap 4 pl'"
    "prune_list_to_vec list_bitmap pl' = prune_list_to_vec list_bitmap (prune_list_new list_bitmap)"
    "\<forall>pos. 0 < pos \<and> pos \<le> 7 \<and> \<not> (is_pruned list_bitmap pl' pos \<and> \<not> is_pruned_root list_bitmap pl' pos) \<longrightarrow>
       get_shift list_bitmap pl' pos = Some (card {q \<in> {1..pos}. is_pruned list_bitmap pl' q \<and> \<not> is_pruned_root list_bitmap pl' q})"
    using shift_counts_compacted [OF list_bitmap_laws new_list_ok [of 4]] by (auto simp: m)
  have "pl' = prune_list_new list_bitmap"
    using pl'(1) by (simp add: prune_list_flush_def init_caches_def build_shift_cache_def build_leaf_shift_cache_def
        build_pruned_cache_def prune_list_new_def) (simp add: list_bitmap_def)
  then have "\<not> is_pruned list_bitmap pl' q" for q by (simp add: is_pruned_def prune_list_new_def list_bitmap_def)
  then show ?thesis using pl'(1,4) by simp
qed

end
