(* ===== verification/Leaf_Set.thy ===== *)
theory Leaf_Set
  imports Prune_List
begin

text \<open>
  The leaf set, \<open>store/src/leaf_set.rs\<close>: the positions of the leaves of a prunable range that have
  not been removed, with the state of the last flush to go back to. The file that \<open>flush\<close> and
  \<open>snapshot\<close> write is not modelled.
\<close>

section \<open>Definitions\<close>

record 'bm leaf_set =
  ls_bitmap :: 'bm
  ls_bitmap_bak :: 'bm

text \<open>\<open>open\<close> on the bitmap read from the file.\<close>

definition leaf_set_open :: "'bm \<Rightarrow> 'bm leaf_set" where
  "leaf_set_open bitmap = \<lparr>ls_bitmap = bitmap, ls_bitmap_bak = bitmap\<rparr>"

definition unpruned_pre_cutoff :: "'bm bitmap_ops \<Rightarrow> u64 \<Rightarrow> 'bm prune_list \<Rightarrow> 'bm" where
  "unpruned_pre_cutoff K cutoff_pos pl =
     bm_collect K (map as_u32 (filter (\<lambda>x. \<not> is_pruned K pl x) (filter is_leaf [1..<cutoff_pos + 1])))"

definition removed_pre_cutoff :: "'bm bitmap_ops \<Rightarrow> 'bm leaf_set \<Rightarrow> u64 \<Rightarrow> 'bm \<Rightarrow> 'bm prune_list \<Rightarrow> 'bm" where
  "removed_pre_cutoff K ls cutoff_pos rewind_rm_pos pl =
     (let bitmap = ls_bitmap ls;
          marker_from = cutoff_pos;
          marker_to = bm_maximum K (ls_bitmap ls);
          rewind_add_pos = bm_collect K (map as_u32 [marker_from + 1..<marker_to + 1]);
          bitmap = bm_andnot K bitmap rewind_add_pos;
          bitmap = bm_or K bitmap rewind_rm_pos
      in bm_and K (bm_flip K bitmap 1 (cutoff_pos + 1)) (unpruned_pre_cutoff K cutoff_pos pl))"

definition leaf_set_rewind :: "'bm bitmap_ops \<Rightarrow> 'bm leaf_set \<Rightarrow> u64 \<Rightarrow> 'bm \<Rightarrow> 'bm leaf_set" where
  "leaf_set_rewind K ls cutoff_pos rewind_rm_pos =
     (let marker_from = cutoff_pos;
          marker_to = bm_maximum K (ls_bitmap ls);
          rewind_add_pos = bm_collect K (map as_u32 [marker_from + 1..<marker_to + 1]);
          bitmap = bm_andnot K (ls_bitmap ls) rewind_add_pos
      in ls\<lparr>ls_bitmap := bm_or K bitmap rewind_rm_pos\<rparr>)"

definition leaf_set_add :: "'bm bitmap_ops \<Rightarrow> 'bm leaf_set \<Rightarrow> u64 \<Rightarrow> 'bm leaf_set" where
  "leaf_set_add K ls pos = ls\<lparr>ls_bitmap := bm_add K (ls_bitmap ls) (as_u32 pos)\<rparr>"

definition leaf_set_remove :: "'bm bitmap_ops \<Rightarrow> 'bm leaf_set \<Rightarrow> u64 \<Rightarrow> 'bm leaf_set" where
  "leaf_set_remove K ls pos = ls\<lparr>ls_bitmap := bm_remove K (ls_bitmap ls) (as_u32 pos)\<rparr>"

definition leaf_set_flush :: "'bm leaf_set \<Rightarrow> 'bm leaf_set" where
  "leaf_set_flush ls = ls\<lparr>ls_bitmap_bak := ls_bitmap ls\<rparr>"

definition leaf_set_discard :: "'bm leaf_set \<Rightarrow> 'bm leaf_set" where
  "leaf_set_discard ls = ls\<lparr>ls_bitmap := ls_bitmap_bak ls\<rparr>"

definition leaf_set_includes :: "'bm bitmap_ops \<Rightarrow> 'bm leaf_set \<Rightarrow> u64 \<Rightarrow> bool" where
  "leaf_set_includes K ls pos = bm_contains K (ls_bitmap ls) (as_u32 pos)"

definition leaf_set_len :: "'bm bitmap_ops \<Rightarrow> 'bm leaf_set \<Rightarrow> usize" where
  "leaf_set_len K ls = bm_cardinality K (ls_bitmap ls)"

definition leaf_set_is_empty :: "'bm bitmap_ops \<Rightarrow> 'bm leaf_set \<Rightarrow> bool" where
  "leaf_set_is_empty K ls \<longleftrightarrow> leaf_set_len K ls = 0"

definition leaf_set_iter :: "'bm bitmap_ops \<Rightarrow> 'bm leaf_set \<Rightarrow> u64 list" where
  "leaf_set_iter K ls = bm_iter K (ls_bitmap ls)"

text \<open>A change of the leaf set during a block: an output added or spent.\<close>

datatype leaf_change = Added u64 | Removed u64

fun leaf_change_apply :: "'bm bitmap_ops \<Rightarrow> leaf_change \<Rightarrow> 'bm leaf_set \<Rightarrow> 'bm leaf_set" where
  "leaf_change_apply K (Added pos) ls = leaf_set_add K ls pos"
| "leaf_change_apply K (Removed pos) ls = leaf_set_remove K ls pos"

section \<open>Elements\<close>

abbreviation leaves :: "'bm bitmap_ops \<Rightarrow> 'bm leaf_set \<Rightarrow> nat set" where
  "leaves K ls \<equiv> elems K (ls_bitmap ls)"

text \<open>The positions behind the cutoff, up to the largest one of the set.\<close>

lemma behind_cutoff:
  assumes K: "bitmap_laws K" and "leaves K ls \<subseteq> {..<u32_size}"
  shows "elems K (bm_andnot K (ls_bitmap ls) (bm_collect K (map as_u32 [cutoff + 1..<bm_maximum K (ls_bitmap ls) + 1]))) =
    {x \<in> leaves K ls. x \<le> cutoff}"
proof -
  let ?mx = "bm_maximum K (ls_bitmap ls)"
  have mx: "x \<le> ?mx \<and> ?mx < u32_size" if "x \<in> leaves K ls" for x
    using that assms(2) Max_in [of "leaves K ls"] by (auto simp: bitmap_queries [OF K])
  show ?thesis
  proof (cases "leaves K ls = {}")
    case False
    then have "?mx < u32_size" using mx by blast
    then have "map as_u32 [cutoff + 1..<?mx + 1] = [cutoff + 1..<?mx + 1]"
      by (intro map_idI) (simp add: width del: upt_Suc)
    then show ?thesis using mx by (auto simp: bitmap_elems [OF K] Suc_le_eq not_less less_Suc_eq_le simp del: upt_Suc)
  qed (simp add: bitmap_elems [OF K])
qed

lemma leaf_set_rewind_elems:
  assumes "bitmap_laws K" and "leaves K ls \<subseteq> {..<u32_size}"
  shows "leaves K (leaf_set_rewind K ls cutoff rm) = {x \<in> leaves K ls. x \<le> cutoff} \<union> elems K rm"
  using behind_cutoff [OF assms, of cutoff]
  by (simp add: leaf_set_rewind_def Let_def bitmap_elems(5) [OF assms(1)])

lemma removed_pre_cutoff_elems:
  assumes K: "bitmap_laws K" and "leaves K ls \<subseteq> {..<u32_size}" and "cutoff < u32_size"
  shows "elems K (removed_pre_cutoff K ls cutoff rm pl) =
    {x \<in> {1..cutoff}. is_leaf x \<and> \<not> is_pruned K pl x \<and> x \<notin> leaves K ls \<and> x \<notin> elems K rm}"
proof -
  let ?F = "filter (\<lambda>x. \<not> is_pruned K pl x) (filter is_leaf [1..<cutoff + 1])"
  let ?S = "{x \<in> leaves K ls. x \<le> cutoff} \<union> elems K rm"
  have "map as_u32 ?F = ?F" using assms(3) by (intro map_idI) (simp add: width del: upt_Suc)
  then have "elems K (removed_pre_cutoff K ls cutoff rm pl) =
      (?S - {1..<cutoff + 1} \<union> ({1..<cutoff + 1} - ?S)) \<inter> set ?F"
    unfolding removed_pre_cutoff_def unpruned_pre_cutoff_def Let_def bitmap_elems(5-8) [OF K] behind_cutoff [OF K assms(2)]
    by (simp only:)
  moreover have "(S - {1..<c + 1} \<union> ({1..<c + 1} - S)) \<inter> set (filter P (filter Q [1..<c + 1])) = {x \<in> {1..c}. Q x \<and> P x \<and> x \<notin> S}"
    for S P Q and c :: nat unfolding set_filter set_upt by auto
  ultimately have "elems K (removed_pre_cutoff K ls cutoff rm pl) = {x \<in> {1..cutoff}. is_leaf x \<and> \<not> is_pruned K pl x \<and> x \<notin> ?S}"
    by (rule trans)
  then show ?thesis by (rule trans) auto
qed

section \<open>Properties\<close>

text \<open>C29: rewinding undoes a block. Whatever positions behind the cutoff have been added and whatever
  positions have been removed since, rewinding to the cutoff with the removed positions brings back the
  leaf set as it was.\<close>

theorem leaf_set_rewind_undoes:
  assumes "bitmap_laws K" and "leaves K ls \<subseteq> {..cutoff}" and "cutoff < u32_size"
    and "\<forall>pos. Added pos \<in> set changes \<longrightarrow> cutoff < pos \<and> pos < u32_size"
    and "\<forall>pos. Removed pos \<in> set changes \<longrightarrow> pos < u32_size"
    and "elems K rm = {pos \<in> leaves K ls. Removed pos \<in> set changes}"
  shows "leaves K (leaf_set_rewind K (fold (leaf_change_apply K) changes ls) cutoff rm) = leaves K ls"
proof -
  have "leaves K (fold (leaf_change_apply K) changes ls) \<inter> {..cutoff} = leaves K ls \<inter> {..cutoff} - {pos. Removed pos \<in> set changes} \<and>
      leaves K (fold (leaf_change_apply K) changes ls) \<subseteq> {..<u32_size}"
    if "leaves K ls \<subseteq> {..<u32_size}" for ls
    using assms(4,5) that
  proof (induction changes arbitrary: ls)
    case (Cons c changes)
    show ?case
    proof (cases c)
      case (Added pos)
      then have pos: "cutoff < pos" "as_u32 pos = pos" "pos < u32_size" using Cons.prems(1) by (simp_all add: width)
      have l: "leaves K (leaf_set_add K ls pos) = insert pos (leaves K ls)"
        by (simp add: leaf_set_add_def bitmap_elems [OF assms(1)] pos)
      then show ?thesis
        using Cons.IH [of "leaf_set_add K ls pos"] Cons.prems pos Added by auto
    next
      case (Removed pos)
      then have pos: "as_u32 pos = pos" using Cons.prems(2) by (simp add: width)
      have l: "leaves K (leaf_set_remove K ls pos) = leaves K ls - {pos}"
        by (simp add: leaf_set_remove_def bitmap_elems [OF assms(1)] pos)
      then show ?thesis
        using Cons.IH [of "leaf_set_remove K ls pos"] Cons.prems Removed by auto
    qed
  qed simp
  moreover have "leaves K ls \<subseteq> {..<u32_size}" using assms(2,3) by auto
  ultimately have f: "leaves K (fold (leaf_change_apply K) changes ls) \<inter> {..cutoff} = leaves K ls \<inter> {..cutoff} - {pos. Removed pos \<in> set changes}"
    "leaves K (fold (leaf_change_apply K) changes ls) \<subseteq> {..<u32_size}" by blast+
  have "{x \<in> leaves K (fold (leaf_change_apply K) changes ls). x \<le> cutoff} = leaves K ls - {pos. Removed pos \<in> set changes}"
    using f(1) assms(2) by blast
  then show ?thesis unfolding leaf_set_rewind_elems [OF assms(1) f(2)] assms(6) by blast
qed

theorem leaf_set_rewind_undoes_witness:
  "leaves list_bitmap (leaf_set_rewind list_bitmap
     (leaf_set_remove list_bitmap (leaf_set_add list_bitmap \<lparr>ls_bitmap = [1, 2, 4], ls_bitmap_bak = []\<rparr> 8) 2) 7 [2]) = {1, 2, 4}"
  using leaf_set_rewind_undoes [OF list_bitmap_laws, of "\<lparr>ls_bitmap = [1, 2, 4], ls_bitmap_bak = []\<rparr>" 7 "[Added 8, Removed 2]" "[2]"]
  by (auto simp: list_bitmap_elems)

text \<open>C30: the leaves to compact up to a cutoff are exactly the leaf positions up to it that have
  been removed by then, so neither in the leaf set nor among the positions removed since, and that
  have not been pruned before.\<close>

theorem removed_pre_cutoff_spec:
  assumes "bitmap_laws K" and "leaves K ls \<subseteq> {..<u32_size}" and "cutoff < u32_size"
  shows "bm_iter K (removed_pre_cutoff K ls cutoff rm pl) =
    filter (\<lambda>x. is_leaf x \<and> \<not> is_pruned K pl x \<and> \<not> leaf_set_includes K ls x \<and> \<not> bm_contains K rm x) [1..<cutoff + 1]"
    (is "?L = ?R")
proof -
  have "set ?L = set ?R"
    using assms(3) by (auto simp: removed_pre_cutoff_elems [OF assms] leaf_set_includes_def bitmap_queries [OF assms(1)] width simp del: upt_Suc)
  moreover have "sorted_wrt (<) ?L" "sorted_wrt (<) ?R"
    using bitmap_sorted [OF assms(1)] by (simp_all add: sorted_wrt_filter del: upt_Suc)
  ultimately show ?thesis by (simp add: strict_sorted_equal)
qed

theorem removed_pre_cutoff_spec_witness:
  "bm_iter list_bitmap (removed_pre_cutoff list_bitmap \<lparr>ls_bitmap = [1, 5], ls_bitmap_bak = []\<rparr> 4 [2] (prune_list_new list_bitmap)) = [4]"
proof -
  have l: "is_leaf 1" "is_leaf 2" "\<not> is_leaf 3" "is_leaf 4" by (simp_all add: pos_eval)
  have "[1..<5] = [1, 2, 3, 4::nat]" by (simp add: upt_rec)
  then show ?thesis
    using removed_pre_cutoff_spec [OF list_bitmap_laws, of "\<lparr>ls_bitmap = [1, 5], ls_bitmap_bak = []\<rparr>" 4 "[2]" "prune_list_new list_bitmap"] l
    by (simp add: list_bitmap_elems is_pruned_def prune_list_new_def leaf_set_includes_def width)
      (simp add: list_bitmap_def)
qed

end
