(* ===== verification/Store_File.thy ===== *)
theory Store_File
  imports Ser
begin

text \<open>
  The append-only files behind the ranges, \<open>store/src/types.rs\<close>. A file is its bytes on disk, the memory
  map, and a buffer of bytes not yet synced; rewinding only moves the position at which the buffer
  starts. Elements of variable size are found through a second file of offsets and sizes. The operating
  system is taken to carry out what it is asked to; what remains of \<open>io::Result\<close> are the errors of
  deserialization. A failing operation gives the error only. Panics are \<open>None\<close>.
\<close>

section \<open>Definitions\<close>

record size_entry =
  se_offset :: u64
  se_size :: nat

definition SIZE_ENTRY_LEN :: usize where "SIZE_ENTRY_LEN = 8 + 2"

definition read_size_entry :: "size_entry read" where
  "read_size_entry = read_bind read_u64 (\<lambda>offset. read_bind read_u16 (\<lambda>size. read_ok \<lparr>se_offset = offset, se_size = size\<rparr>))"

definition write_size_entry :: "size_entry \<Rightarrow> u8 list" where
  "write_size_entry e = write_u64 (se_offset e) @ write_u16 (se_size e)"

record raw_file =
  on_disk :: "u8 list"
  mmap :: "u8 list option"
  buffer :: "u8 list"
  buffer_start_pos :: u64
  buffer_start_pos_bak :: u64

datatype aof = AppendOnlyFile (size_info: size_info) (raw: raw_file)
  and size_info = FixedSize nat | VariableSize aof

type_synonym 'a io = "(ser_error + 'a) option"

definition io_bind :: "'a io \<Rightarrow> ('a \<Rightarrow> 'b io) \<Rightarrow> 'b io" where
  "io_bind m f = (case m of None \<Rightarrow> None | Some (Inl e) \<Rightarrow> Some (Inl e) | Some (Inr x) \<Rightarrow> f x)"

text \<open>The division by the size of an element panics at zero.\<close>

definition elmts_in :: "nat \<Rightarrow> u64 \<Rightarrow> u64 option" where
  "elmts_in elmt_size bytes = (if elmt_size = 0 then None else Some (bytes div elmt_size))"

fun size_in_elmts :: "aof \<Rightarrow> u64 option" where
  "size_in_elmts (AppendOnlyFile (FixedSize elmt_size) f) = elmts_in elmt_size (length (on_disk f))"
| "size_in_elmts (AppendOnlyFile (VariableSize size_file) f) = size_in_elmts size_file"

fun size_unsync_in_elmts :: "aof \<Rightarrow> u64 option" where
  "size_unsync_in_elmts (AppendOnlyFile (FixedSize elmt_size) f) =
     map_option (u64_add (buffer_start_pos f)) (elmts_in elmt_size (length (buffer f)))"
| "size_unsync_in_elmts (AppendOnlyFile (VariableSize size_file) f) = size_unsync_in_elmts size_file"

text \<open>\<open>&bytes[offset..offset + length]\<close> after the test of the length; a sum that wraps panics.\<close>

definition slice :: "u8 list \<Rightarrow> u64 \<Rightarrow> nat \<Rightarrow> u8 list option" where
  "slice bytes offset len =
     (let end = u64_add offset len in
      if length bytes < end then Some []
      else if end < offset then None
      else Some (take (end - offset) (drop offset bytes)))"

definition read_from_buffer :: "raw_file \<Rightarrow> u64 \<Rightarrow> nat \<Rightarrow> u8 list option" where
  "read_from_buffer f offset len = slice (buffer f) offset len"

definition read_from_mmap :: "raw_file \<Rightarrow> u64 \<Rightarrow> nat \<Rightarrow> u8 list option" where
  "read_from_mmap f offset len = (case mmap f of Some bytes \<Rightarrow> slice bytes offset len | None \<Rightarrow> Some [])"

fun aof_read :: "aof \<Rightarrow> u64 \<Rightarrow> u8 list io"
and offset_and_size :: "size_info \<Rightarrow> u64 \<Rightarrow> (u64 \<times> nat) io" where
  "aof_read (AppendOnlyFile si f) pos =
     (case size_unsync_in_elmts (AppendOnlyFile si f) of None \<Rightarrow> None | Some n \<Rightarrow>
      if pos \<ge> n then Some (Inr [])
      else io_bind (offset_and_size si pos) (\<lambda>(offset, len).
        if pos < buffer_start_pos f then map_option Inr (read_from_mmap f offset len)
        else io_bind (offset_and_size si (buffer_start_pos f)) (\<lambda>(buffer_offset, _).
          map_option Inr (read_from_buffer f (u64_sat_sub offset buffer_offset) len))))"
| "offset_and_size (FixedSize elmt_size) pos = Some (Inr (u64_mul pos elmt_size, elmt_size))"
| "offset_and_size (VariableSize size_file) pos =
     io_bind (aof_read size_file pos) (\<lambda>data.
       io_bind (deserialize read_size_entry data) (\<lambda>entry. Some (Inr (se_offset entry, se_size entry))))"

definition read_as_elmt :: "'a read \<Rightarrow> aof \<Rightarrow> u64 \<Rightarrow> 'a io" where
  "read_as_elmt get f pos = io_bind (aof_read f pos) (deserialize get)"

fun aof_append :: "aof \<Rightarrow> u8 list \<Rightarrow> aof io" where
  "aof_append (AppendOnlyFile (FixedSize elmt_size) f) bytes =
     Some (Inr (AppendOnlyFile (FixedSize elmt_size) (f\<lparr>buffer := buffer f @ bytes\<rparr>)))"
| "aof_append (AppendOnlyFile (VariableSize size_file) f) bytes =
     (case size_unsync_in_elmts size_file of None \<Rightarrow> None | Some next_pos \<Rightarrow>
      io_bind (if next_pos = 0 then Some (Inr 0)
          else io_bind (read_as_elmt read_size_entry size_file (u64_sat_sub next_pos 1)) (\<lambda>prev_entry.
            Some (Inr (u64_add (se_offset prev_entry) (se_size prev_entry))))) (\<lambda>offset.
        io_bind (aof_append size_file (write_size_entry \<lparr>se_offset = offset, se_size = length bytes mod 65536\<rparr>)) (\<lambda>size_file'.
          Some (Inr (AppendOnlyFile (VariableSize size_file') (f\<lparr>buffer := buffer f @ bytes\<rparr>))))))"

definition rewind_raw :: "raw_file \<Rightarrow> u64 \<Rightarrow> raw_file" where
  "rewind_raw f pos =
     (let f = (if buffer_start_pos_bak f = 0 then f\<lparr>buffer_start_pos_bak := buffer_start_pos f\<rparr> else f)
      in f\<lparr>buffer_start_pos := pos\<rparr>)"

fun aof_rewind :: "aof \<Rightarrow> u64 \<Rightarrow> aof" where
  "aof_rewind (AppendOnlyFile (FixedSize elmt_size) f) pos = AppendOnlyFile (FixedSize elmt_size) (rewind_raw f pos)"
| "aof_rewind (AppendOnlyFile (VariableSize size_file) f) pos =
     AppendOnlyFile (VariableSize (aof_rewind size_file pos)) (rewind_raw f pos)"

text \<open>\<open>File::set_len\<close> truncates, or extends with zeros.\<close>

definition set_len :: "nat \<Rightarrow> u8 list \<Rightarrow> u8 list" where
  "set_len n bytes = take n bytes @ replicate (n - length bytes) 0"

definition flush_raw :: "size_info \<Rightarrow> raw_file \<Rightarrow> aof io" where
  "flush_raw si f =
     io_bind (if buffer_start_pos_bak f > 0
        then if buffer_start_pos f = 0 then Some (Inr (set_len 0 (on_disk f)))
          else io_bind (offset_and_size si (u64_sat_sub (buffer_start_pos f) 1)) (\<lambda>(offset, size).
            Some (Inr (set_len (u64_add offset size) (on_disk f))))
        else Some (Inr (on_disk f))) (\<lambda>kept.
      let bytes = kept @ buffer f;
          f' = f\<lparr>on_disk := bytes, buffer := [], buffer_start_pos_bak := 0\<rparr>
      in case size_in_elmts (AppendOnlyFile si f') of None \<Rightarrow> None
         | Some n \<Rightarrow> Some (Inr (AppendOnlyFile si (f'\<lparr>buffer_start_pos := n, mmap := if bytes = [] then None else Some bytes\<rparr>))))"

fun aof_flush :: "aof \<Rightarrow> aof io" where
  "aof_flush (AppendOnlyFile (FixedSize elmt_size) f) = flush_raw (FixedSize elmt_size) f"
| "aof_flush (AppendOnlyFile (VariableSize size_file) f) =
     io_bind (aof_flush size_file) (\<lambda>size_file'. flush_raw (VariableSize size_file') f)"

definition discard_raw :: "raw_file \<Rightarrow> raw_file" where
  "discard_raw f =
     (let f = (if buffer_start_pos_bak f > 0
          then f\<lparr>buffer_start_pos := buffer_start_pos_bak f, buffer_start_pos_bak := 0\<rparr> else f)
      in f\<lparr>buffer := []\<rparr>)"

fun aof_discard :: "aof \<Rightarrow> aof" where
  "aof_discard (AppendOnlyFile (FixedSize elmt_size) f) = AppendOnlyFile (FixedSize elmt_size) (discard_raw f)"
| "aof_discard (AppendOnlyFile (VariableSize size_file) f) =
     AppendOnlyFile (VariableSize (aof_discard size_file)) (discard_raw f)"

definition init_raw :: "size_info \<Rightarrow> raw_file \<Rightarrow> aof option" where
  "init_raw si f =
     (if on_disk f = [] then Some (AppendOnlyFile si (f\<lparr>buffer_start_pos := 0\<rparr>))
      else let f' = f\<lparr>mmap := Some (on_disk f)\<rparr>
        in map_option (\<lambda>n. AppendOnlyFile si (f'\<lparr>buffer_start_pos := n\<rparr>)) (size_in_elmts (AppendOnlyFile si f')))"

fun aof_init :: "aof \<Rightarrow> aof option" where
  "aof_init (AppendOnlyFile (FixedSize elmt_size) f) = init_raw (FixedSize elmt_size) f"
| "aof_init (AppendOnlyFile (VariableSize size_file) f) =
     Option.bind (aof_init size_file) (\<lambda>size_file'. init_raw (VariableSize size_file') f)"

fun aof_release :: "aof \<Rightarrow> aof" where
  "aof_release (AppendOnlyFile (FixedSize elmt_size) f) = AppendOnlyFile (FixedSize elmt_size) (f\<lparr>mmap := None\<rparr>)"
| "aof_release (AppendOnlyFile (VariableSize size_file) f) =
     AppendOnlyFile (VariableSize (aof_release size_file)) (f\<lparr>mmap := None\<rparr>)"

text \<open>The file at \<open>path\<close> is replaced by another one.\<close>

definition aof_replace :: "aof \<Rightarrow> u8 list \<Rightarrow> aof" where
  "aof_replace f bytes = (case aof_release f of AppendOnlyFile si f' \<Rightarrow> AppendOnlyFile si (f'\<lparr>on_disk := bytes\<rparr>))"

text \<open>The loop \<open>while let Ok(elmt) = T::read(&mut streaming_reader)\<close> that \<open>save_prune\<close> and
  \<open>rebuild_size_file\<close> share: the elements, each with the bytes counted after it. \<open>None\<close> if it does not
  return.\<close>

partial_function (option) stream_elements :: "'a read \<Rightarrow> reader \<Rightarrow> ('a \<times> u64) list option" where
  "stream_elements get r =
     (case get r of None \<Rightarrow> None
      | Some (Inl e, r') \<Rightarrow> Some []
      | Some (Inr x, r') \<Rightarrow> Option.bind (stream_elements get r') (\<lambda>xs. Some ((x, total_bytes_read r') # xs)))"

fun size_entries :: "u64 \<Rightarrow> u64 list \<Rightarrow> size_entry list" where
  "size_entries current_offset [] = []"
| "size_entries current_offset (n # ns) =
     (let size = u64_sat_sub n current_offset mod 65536
      in \<lparr>se_offset = current_offset, se_size = size\<rparr> # size_entries (u64_add current_offset size) ns)"

definition rebuild_size_file :: "'a read \<Rightarrow> aof \<Rightarrow> aof option" where
  "rebuild_size_file get f =
     (case f of AppendOnlyFile (FixedSize n) r \<Rightarrow> Some f
      | AppendOnlyFile (VariableSize size_file) r \<Rightarrow>
          Option.bind (stream_elements get (StreamingReader 0 (on_disk r))) (\<lambda>es.
            Some (AppendOnlyFile (VariableSize (aof_replace size_file (write_vec write_size_entry (size_entries 0 (map snd es))))) r)))"

fun prune_keep :: "u64 \<Rightarrow> u64 list \<Rightarrow> 'a list \<Rightarrow> 'a list" where
  "prune_keep current_pos prune_pos [] = []"
| "prune_keep current_pos prune_pos (x # xs) =
     (if current_pos \<in> set prune_pos then prune_keep (current_pos + 1) (tl prune_pos) xs
      else x # prune_keep (current_pos + 1) prune_pos xs)"

definition aof_save_prune :: "'a read \<Rightarrow> ('a \<Rightarrow> u8 list) \<Rightarrow> aof \<Rightarrow> u64 list \<Rightarrow> aof option" where
  "aof_save_prune get put f prune_pos =
     Option.bind (stream_elements get (StreamingReader 0 (on_disk (raw f)))) (\<lambda>es.
       Option.bind (rebuild_size_file get (aof_replace f (write_vec put (prune_keep 0 prune_pos (map fst es))))) aof_init)"

definition aof_open :: "'a read \<Rightarrow> u8 list \<Rightarrow> size_info \<Rightarrow> aof option" where
  "aof_open get bytes si =
     Option.bind (aof_init (AppendOnlyFile si \<lparr>on_disk = bytes, mmap = None, buffer = [], buffer_start_pos = 0, buffer_start_pos_bak = 0\<rparr>)) (\<lambda>f.
       case size_info f of
         VariableSize size_file \<Rightarrow>
           if on_disk (raw size_file) = [] then Option.bind (rebuild_size_file get f) aof_init else Some f
       | FixedSize _ \<Rightarrow> Some f)"

text \<open>Opening a file as \<open>PMMRBackend::new\<close> does, its size file first, from what is on disk. \<open>l\<close> is the
  length of the elements, \<open>None\<close> if it varies.\<close>

definition open_file :: "'a read \<Rightarrow> nat option \<Rightarrow> u8 list \<Rightarrow> u8 list \<Rightarrow> aof option" where
  "open_file get l bytes size_bytes =
     (case l of Some n \<Rightarrow> aof_open get bytes (FixedSize n)
      | None \<Rightarrow> Option.bind (aof_open read_size_entry size_bytes (FixedSize SIZE_ENTRY_LEN)) (\<lambda>s. aof_open get bytes (VariableSize s)))"

text \<open>\<open>DataFile\<close>: positions count from one.\<close>

definition data_size_unsync :: "aof \<Rightarrow> u64 option" where "data_size_unsync f = size_unsync_in_elmts f"
definition data_size :: "aof \<Rightarrow> u64 option" where "data_size f = size_in_elmts f"

definition data_append :: "('a \<Rightarrow> u8 list) \<Rightarrow> aof \<Rightarrow> 'a \<Rightarrow> (u64 \<times> aof) io" where
  "data_append put f data =
     io_bind (aof_append f (put data)) (\<lambda>f'. map_option (\<lambda>n. Inr (n, f')) (data_size_unsync f'))"

definition data_read :: "'a read \<Rightarrow> aof \<Rightarrow> u64 \<Rightarrow> 'a option option" where
  "data_read get f position =
     (case read_as_elmt get f (u64_sub position 1) of None \<Rightarrow> None
      | Some (Inr x) \<Rightarrow> Some (Some x) | Some (Inl e) \<Rightarrow> Some None)"

definition data_save_prune :: "'a read \<Rightarrow> ('a \<Rightarrow> u8 list) \<Rightarrow> aof \<Rightarrow> u64 list \<Rightarrow> aof option" where
  "data_save_prune get put f prune_pos = aof_save_prune get put f (map (\<lambda>x. u64_sub x 1) prune_pos)"

section \<open>Bytes and elements\<close>

lemma io_bind_simps [simp]: "io_bind None f = None" "io_bind (Some (Inl e)) f = Some (Inl e)" "io_bind (Some (Inr x)) f = f x"
  by (simp_all add: io_bind_def)

lemma write_vec_simps [simp]: "write_vec put [] = []" "write_vec put (x # xs) = put x @ write_vec put xs"
  "write_vec put (xs @ ys) = write_vec put xs @ write_vec put ys"
  by (simp_all add: write_vec_def)

text \<open>Where the element at \<open>pos\<close> starts, and elements whose size fits sixteen bits.\<close>

definition offset_of :: "('a \<Rightarrow> u8 list) \<Rightarrow> 'a list \<Rightarrow> nat \<Rightarrow> nat" where
  "offset_of put xs pos = length (write_vec put (take pos xs))"

definition small :: "('a \<Rightarrow> u8 list) \<Rightarrow> 'a list \<Rightarrow> bool" where
  "small put xs \<longleftrightarrow> length xs < u32_size \<and> list_all (\<lambda>x. 0 < length (put x) \<and> length (put x) < 65536) xs"

lemma small_take: "small put xs \<Longrightarrow> small put (take k xs)"
  by (auto simp: small_def list_all_iff dest: in_set_takeD)

lemma small_bytes: "small put xs \<Longrightarrow> length (write_vec put xs) < 281474976710656"
proof -
  assume s: "small put xs"
  then have "length (write_vec put xs) \<le> length xs * 65536"
    unfolding small_def write_vec_def length_concat map_map by (intro sum_list_le_mult) (auto simp: list_all_iff)
  with s show ?thesis by (simp add: small_def)
qed

lemma write_vec_nth:
  "pos < length xs \<Longrightarrow> write_vec put xs = write_vec put (take pos xs) @ put (xs ! pos) @ write_vec put (drop (Suc pos) xs)"
  by (metis append.assoc id_take_nth_drop write_vec_simps(2,3))

lemma offset_end: "pos < length xs \<Longrightarrow> offset_of put xs pos + length (put (xs ! pos)) = offset_of put xs (Suc pos)"
  by (simp add: offset_of_def take_Suc_conv_app_nth)

lemma offset_le: "offset_of put xs pos \<le> length (write_vec put xs)"
  using write_vec_simps(3) [of put "take pos xs" "drop pos xs"] by (simp add: offset_of_def)

lemma slice_nth:
  assumes "pos < length xs" and "length (write_vec put xs) < u64_size"
  shows "slice (write_vec put xs) (offset_of put xs pos) (length (put (xs ! pos))) = Some (put (xs ! pos))"
proof -
  have "u64_add (offset_of put xs pos) (length (put (xs ! pos))) = offset_of put xs pos + length (put (xs ! pos))"
    using offset_end [OF assms(1), of put] offset_le [of put xs "Suc pos"] assms(2) by (simp add: width)
  moreover have "offset_of put xs pos + length (put (xs ! pos)) \<le> length (write_vec put xs)"
    unfolding offset_end [OF assms(1)] by (rule offset_le)
  moreover have "take (length (put (xs ! pos))) (drop (offset_of put xs pos) (write_vec put xs)) = put (xs ! pos)"
    by (subst write_vec_nth [OF assms(1)]) (simp add: offset_of_def)
  ultimately show ?thesis by (simp add: slice_def)
qed

section \<open>Files that hold elements\<close>

text \<open>\<open>raw_holds put f C X\<close>: the elements \<open>C\<close> are on disk, and \<open>X\<close> is the current content: what is
  left of \<open>C\<close> after rewinding, followed by the elements of the buffer.\<close>

definition raw_holds :: "('a \<Rightarrow> u8 list) \<Rightarrow> raw_file \<Rightarrow> 'a list \<Rightarrow> 'a list \<Rightarrow> bool" where
  "raw_holds put f C X \<longleftrightarrow> small put C \<and> small put X \<and> on_disk f = write_vec put C \<and>
     (\<exists>D. buffer f = write_vec put D \<and> X = take (buffer_start_pos f) C @ D) \<and> buffer_start_pos f \<le> length C \<and>
     (buffer_start_pos_bak f = 0 \<and> buffer_start_pos f = length C \<or> buffer_start_pos_bak f = length C \<and> C \<noteq> []) \<and>
     (C \<noteq> [] \<longrightarrow> mmap f = Some (on_disk f))"

text \<open>The size information finds the elements of \<open>X\<close>.\<close>

definition locates :: "('a \<Rightarrow> u8 list) \<Rightarrow> size_info \<Rightarrow> 'a list \<Rightarrow> bool" where
  "locates put si X \<longleftrightarrow> (\<forall>pos < length X. offset_and_size si pos = Some (Inr (offset_of put X pos, length (put (X ! pos)))))"

lemma write_vec_empty: "small put xs \<Longrightarrow> write_vec put xs = [] \<longleftrightarrow> xs = []"
  by (cases xs) (auto simp: small_def)

lemma small_append: "small put (xs @ ys) \<Longrightarrow> small put xs \<and> small put ys"
  by (simp add: small_def)

lemma raw_parts:
  assumes "raw_holds put f C X"
  obtains D where "buffer f = write_vec put D" and "X = take (buffer_start_pos f) C @ D" and "small put D"
    and "length X = buffer_start_pos f + length D"
proof -
  obtain D where D: "buffer f = write_vec put D" "X = take (buffer_start_pos f) C @ D" using assms by (auto simp: raw_holds_def)
  then have "small put D" using small_append [of put "take (buffer_start_pos f) C" D] assms by (simp add: raw_holds_def)
  then show thesis using that [OF D] D(2) assms by (simp add: raw_holds_def min_absorb2)
qed

lemma read_holds:
  assumes h: "raw_holds put f C X" and l: "locates put si X" and n: "size_unsync_in_elmts (AppendOnlyFile si f) = Some (length X)"
    and pos: "pos < length X"
  shows "aof_read (AppendOnlyFile si f) pos = Some (Inr (put (X ! pos)))"
proof -
  let ?k = "buffer_start_pos f"
  obtain D where D: "buffer f = write_vec put D" "X = take ?k C @ D" "small put D" "length X = ?k + length D"
    using raw_parts [OF h] .
  have k: "?k \<le> length C" "on_disk f = write_vec put C" "C \<noteq> [] \<Longrightarrow> mmap f = Some (on_disk f)" "small put C" "small put X"
    using h by (simp_all add: raw_holds_def)
  have os: "offset_and_size si q = Some (Inr (offset_of put X q, length (put (X ! q))))" if "q < length X" for q
    using l that by (simp add: locates_def)
  show ?thesis
  proof (cases "pos < ?k")
    case True
    then have "X ! pos = C ! pos" "offset_of put X pos = offset_of put C pos" "pos < length C" "C \<noteq> []"
      using k(1) D(2) by (auto simp: nth_append offset_of_def min_def)
    then have "read_from_mmap f (offset_of put X pos) (length (put (X ! pos))) = Some (put (X ! pos))"
      using slice_nth [of pos C put] small_bytes [OF k(4)] by (simp add: read_from_mmap_def k)
    then show ?thesis using n pos True os [OF pos] by simp
  next
    case False
    let ?i = "pos - ?k"
    have i: "?i < length D" "X ! pos = D ! ?i" 
      using False pos D(2,4) k(1) by (simp_all add: nth_append min_absorb2)
    have "offset_of put X pos = offset_of put X ?k + offset_of put D ?i"
      using False k(1) D(2) by (simp add: offset_of_def min_def)
    then have "read_from_buffer f (u64_sat_sub (offset_of put X pos) (offset_of put X ?k)) (length (put (X ! pos))) = Some (put (X ! pos))"
      using slice_nth [OF i(1), of put] small_bytes [OF D(3)] D(1) i(2)
      by (simp add: read_from_buffer_def width)
    then show ?thesis using n pos False os [OF pos] os [of ?k] by simp
  qed
qed

lemma append_raw:
  assumes "raw_holds put f C X" and "small put (X @ [x])"
  shows "raw_holds put (f\<lparr>buffer := buffer f @ put x\<rparr>) C (X @ [x])"
proof -
  obtain D where "buffer f = write_vec put D" "X = take (buffer_start_pos f) C @ D" using assms by (auto simp: raw_holds_def)
  then have "buffer f @ put x = write_vec put (D @ [x])" "X @ [x] = take (buffer_start_pos f) C @ (D @ [x])" by simp_all
  then show ?thesis using assms unfolding raw_holds_def
    by (simp del: write_vec_simps append_assoc) (rule exI [of _ "D @ [x]"], simp)
qed

lemma rewind_raw_holds:
  assumes "raw_holds put f C X" and "buffer f = []" and "pos \<le> length X"
  shows "raw_holds put (rewind_raw f pos) C (take pos X)" and "buffer (rewind_raw f pos) = []"
    and "buffer_start_pos (rewind_raw f pos) = pos"
proof -
  obtain D where "buffer f = write_vec put D" "X = take (buffer_start_pos f) C @ D" "small put D"
    using raw_parts [OF assms(1)] .
  then have X: "X = take (buffer_start_pos f) C" using assms(2) write_vec_empty by fastforce
  then have "take pos X = take pos C @ []" "pos \<le> buffer_start_pos f" using assms(3) by (simp_all add: min_absorb1)
  then show "raw_holds put (rewind_raw f pos) C (take pos X)"
    using assms small_take [of put X pos] by (auto simp: raw_holds_def rewind_raw_def Let_def)
qed (simp_all add: rewind_raw_def Let_def assms)

lemma discard_raw_holds:
  assumes "raw_holds put f C X"
  shows "raw_holds put (discard_raw f) C C" and "buffer (discard_raw f) = []" and "buffer_start_pos_bak (discard_raw f) = 0"
  using assms by (auto simp: raw_holds_def discard_raw_def Let_def intro!: exI [of _ "[]"])

lemma flush_raw_holds:
  assumes h: "raw_holds put f C X" and l: "locates put si X"
    and n: "\<And>f'. on_disk f' = write_vec put X \<Longrightarrow> size_in_elmts (AppendOnlyFile si f') = Some (length X)"
  shows "\<exists>f'. flush_raw si f = Some (Inr (AppendOnlyFile si f')) \<and> raw_holds put f' X X \<and> buffer f' = [] \<and>
    buffer_start_pos_bak f' = 0 \<and> buffer_start_pos f' = length X"
proof -
  let ?k = "buffer_start_pos f"
  obtain D where D: "buffer f = write_vec put D" "X = take ?k C @ D" using h by (auto simp: raw_holds_def)
  have k: "?k \<le> length C" "on_disk f = write_vec put C" "small put C" "small put X"
    "buffer_start_pos_bak f = 0 \<Longrightarrow> ?k = length C" using h by (auto simp: raw_holds_def)
  have trunc: "set_len (offset_of put X ?k) (on_disk f) = write_vec put (take ?k C)"
  proof -
    have "offset_of put X ?k = offset_of put C ?k" using D(2) k(1) by (simp add: offset_of_def min_def)
    moreover have "on_disk f = write_vec put (take ?k C) @ write_vec put (drop ?k C)"
      unfolding k(2) write_vec_simps(3) [symmetric] by simp
    ultimately show ?thesis by (simp add: set_len_def offset_of_def)
  qed
  have "(if buffer_start_pos_bak f > 0
        then if ?k = 0 then Some (Inr (set_len 0 (on_disk f)))
          else io_bind (offset_and_size si (u64_sat_sub ?k 1)) (\<lambda>(offset, size). Some (Inr (set_len (u64_add offset size) (on_disk f))))
        else Some (Inr (on_disk f))) = Some (Inr (write_vec put (take ?k C)))"
  proof (cases "?k = 0")
    case False
    then have "?k - 1 < length X" using D(2) k(1) by simp
    moreover from this have "offset_of put X (?k - 1) + length (put (X ! (?k - 1))) = offset_of put X ?k"
      using offset_end [of "?k - 1" X put] False by simp
    moreover have "offset_of put X ?k < u64_size" using offset_le [of put X ?k] small_bytes [OF k(4)] by simp
    ultimately show ?thesis using l k False trunc by (auto simp: locates_def width)
  qed (use k in \<open>auto simp: set_len_def\<close>)
  moreover have "write_vec put (take ?k C) @ buffer f = write_vec put X" using D by simp
  ultimately have "flush_raw si f = Some (Inr (AppendOnlyFile si (f\<lparr>on_disk := write_vec put X, buffer := [],
      buffer_start_pos_bak := 0, buffer_start_pos := length X, mmap := if X = [] then None else Some (write_vec put X)\<rparr>)))"
    using n [of "f\<lparr>on_disk := write_vec put X, buffer := [], buffer_start_pos_bak := 0\<rparr>"] write_vec_empty [OF k(4)]
    by (simp add: flush_raw_def Let_def)
  then show ?thesis using k(4) by (auto simp: raw_holds_def intro!: exI [of _ "[]"])
qed

lemma init_raw_holds:
  assumes "small put C" and "on_disk f = write_vec put C" and "buffer f = []" and "buffer_start_pos_bak f = 0"
    and "size_in_elmts (AppendOnlyFile si (f\<lparr>mmap := Some (on_disk f)\<rparr>)) = Some (length C)"
  shows "\<exists>f'. init_raw si f = Some (AppendOnlyFile si f') \<and> raw_holds put f' C C \<and> buffer f' = [] \<and>
    buffer_start_pos_bak f' = 0 \<and> buffer_start_pos f' = length C"
  using assms by (auto simp: init_raw_def Let_def raw_holds_def write_vec_empty intro!: exI [of _ "[]"])

section \<open>Elements of fixed and of variable size\<close>

definition fixed_holds :: "('a \<Rightarrow> u8 list) \<Rightarrow> nat \<Rightarrow> aof \<Rightarrow> 'a list \<Rightarrow> 'a list \<Rightarrow> bool" where
  "fixed_holds put n f C X \<longleftrightarrow> size_info f = FixedSize n \<and> raw_holds put (raw f) C X \<and> list_all (\<lambda>x. length (put x) = n) (C @ X) \<and> 0 < n"

text \<open>The entries of the size file for the elements \<open>xs\<close>.\<close>

definition entries :: "('a \<Rightarrow> u8 list) \<Rightarrow> 'a list \<Rightarrow> size_entry list" where
  "entries put xs = map (\<lambda>i. \<lparr>se_offset = offset_of put xs i, se_size = length (put (xs ! i))\<rparr>) [0..<length xs]"

definition file_holds :: "('a \<Rightarrow> u8 list) \<Rightarrow> aof \<Rightarrow> 'a list \<Rightarrow> 'a list \<Rightarrow> bool" where
  "file_holds put f C X \<longleftrightarrow> raw_holds put (raw f) C X \<and>
     (case size_info f of FixedSize n \<Rightarrow> fixed_holds put n f C X
      | VariableSize s \<Rightarrow> fixed_holds write_size_entry SIZE_ENTRY_LEN s (entries put C) (entries put X) \<and>
          buffer_start_pos (raw s) = buffer_start_pos (raw f))"

text \<open>Nothing has been appended since the last sync or discard; nothing at all has changed.\<close>

definition clean :: "aof \<Rightarrow> bool" where
  "clean f \<longleftrightarrow> buffer (raw f) = []"

definition synced :: "aof \<Rightarrow> bool" where
  "synced f \<longleftrightarrow> buffer (raw f) = [] \<and> buffer_start_pos_bak (raw f) = 0 \<and>
     (case size_info f of FixedSize n \<Rightarrow> True
      | VariableSize s \<Rightarrow> buffer (raw s) = [] \<and> buffer_start_pos_bak (raw s) = 0)"

lemma length_write_size_entry [simp]: "length (write_size_entry e) = SIZE_ENTRY_LEN"
  by (simp add: write_size_entry_def SIZE_ENTRY_LEN_def)

lemma length_entries [simp]: "length (entries put xs) = length xs"
  by (simp add: entries_def)

lemma nth_entries: "i < length xs \<Longrightarrow> entries put xs ! i = \<lparr>se_offset = offset_of put xs i, se_size = length (put (xs ! i))\<rparr>"
  by (simp add: entries_def)

lemma take_entries: "take k (entries put xs) = entries put (take k xs)"
  by (rule nth_equalityI) (auto simp: nth_entries offset_of_def min_absorb1)

lemma entries_snoc: "entries put (xs @ [x]) = entries put xs @ [\<lparr>se_offset = length (write_vec put xs), se_size = length (put x)\<rparr>]"
  by (rule nth_equalityI) (auto simp: nth_entries nth_append offset_of_def less_Suc_eq)

lemma small_entries: "length xs < u32_size \<Longrightarrow> small write_size_entry (entries put xs)"
  by (simp add: small_def list_all_iff SIZE_ENTRY_LEN_def)

lemma write_vec_fixed: "list_all (\<lambda>x. length (put x) = n) xs \<Longrightarrow> length (write_vec put xs) = length xs * n"
  by (induction xs) simp_all

lemma offset_fixed: "list_all (\<lambda>x. length (put x) = n) xs \<Longrightarrow> pos \<le> length xs \<Longrightarrow> offset_of put xs pos = pos * n"
  unfolding offset_of_def by (subst write_vec_fixed) (auto simp: list_all_iff min_def dest: in_set_takeD)

lemma fixed_locates:
  assumes "list_all (\<lambda>x. length (put x) = n) X" and "small put X"
  shows "locates put (FixedSize n) X"
  unfolding locates_def
proof (intro allI impI)
  fix pos assume pos: "pos < length X"
  have "pos * n < u64_size"
    using offset_fixed [OF assms(1), of pos] offset_le [of put X pos] small_bytes [OF assms(2)] pos by simp
  moreover have "length (put (X ! pos)) = n" using assms(1) pos by (simp add: list_all_iff)
  ultimately show "offset_and_size (FixedSize n) pos = Some (Inr (offset_of put X pos, length (put (X ! pos))))"
    using offset_fixed [OF assms(1), of pos] pos by (simp add: width)
qed

lemma fixed_sizes:
  assumes h: "fixed_holds put n f C X"
  shows "size_in_elmts f = Some (length C)" and "size_unsync_in_elmts f = Some (length X)"
proof -
  obtain D where D: "buffer (raw f) = write_vec put D" "X = take (buffer_start_pos (raw f)) C @ D" "small put D"
      "length X = buffer_start_pos (raw f) + length D"
    using raw_parts [of put "raw f" C X] h by (auto simp: fixed_holds_def)
  then have "length (write_vec put D) = length D * n" "length (write_vec put C) = length C * n" "length X < u64_size"
    using h by (simp_all add: fixed_holds_def write_vec_fixed raw_holds_def small_def)
  then show "size_in_elmts f = Some (length C)" "size_unsync_in_elmts f = Some (length X)"
    using D h by (cases f; simp add: fixed_holds_def raw_holds_def elmts_in_def width)+
qed

lemma fixed_read:
  assumes h: "fixed_holds put n f C X" and "pos < length X"
  shows "aof_read f pos = Some (Inr (put (X ! pos)))"
proof -
  have "locates put (FixedSize n) X" using h by (intro fixed_locates) (simp_all add: fixed_holds_def raw_holds_def)
  then show ?thesis using read_holds [of put "raw f" C X "FixedSize n" pos] fixed_sizes(2) [OF h] assms
    by (cases f) (simp add: fixed_holds_def)
qed

lemma fixed_flush:
  assumes h: "fixed_holds put n f C X"
  shows "\<exists>f'. aof_flush f = Some (Inr f') \<and> fixed_holds put n f' X X \<and> synced f' \<and> buffer_start_pos (raw f') = length X"
proof -
  have X: "list_all (\<lambda>x. length (put x) = n) X" "raw_holds put (raw f) C X" "0 < n" "small put X"
    using h by (simp_all add: fixed_holds_def raw_holds_def)
  obtain f' where "flush_raw (FixedSize n) (raw f) = Some (Inr (AppendOnlyFile (FixedSize n) f'))" "raw_holds put f' X X"
      "buffer f' = []" "buffer_start_pos_bak f' = 0" "buffer_start_pos f' = length X"
    using flush_raw_holds [OF X(2) fixed_locates [OF X(1,4)]] X by (auto simp: elmts_in_def write_vec_fixed)
  then show ?thesis using h X by (cases f) (auto simp: fixed_holds_def synced_def)
qed

lemma fixed_init:
  assumes "size_info f = FixedSize n" "small put C" "on_disk (raw f) = write_vec put C" "buffer (raw f) = []"
    "buffer_start_pos_bak (raw f) = 0" "list_all (\<lambda>x. length (put x) = n) C" "0 < n"
  shows "\<exists>f'. aof_init f = Some f' \<and> fixed_holds put n f' C C \<and> synced f' \<and> buffer_start_pos (raw f') = length C"
proof -
  obtain f' where "init_raw (FixedSize n) (raw f) = Some (AppendOnlyFile (FixedSize n) f')" "raw_holds put f' C C"
      "buffer f' = []" "buffer_start_pos_bak f' = 0" "buffer_start_pos f' = length C"
    using init_raw_holds [of put C "raw f" "FixedSize n"] assms by (auto simp: elmts_in_def write_vec_fixed)
  then show ?thesis using assms by (cases f) (auto simp: fixed_holds_def synced_def)
qed

interpretation size_entry_codec: codec write_size_entry read_size_entry "\<lambda>e. se_offset e < u64_size \<and> se_size e < 65536"
  by unfold_locales (unfold write_size_entry_def read_size_entry_def,
      intro reads_bind [OF reads_ints(4)] reads_last [OF reads_ints(2)] reads_ok_eq, simp_all)

text \<open>The length of the elements, where it is fixed.\<close>

definition elmt_len :: "aof \<Rightarrow> nat option" where
  "elmt_len f = (case size_info f of FixedSize n \<Rightarrow> Some n | VariableSize s \<Rightarrow> None)"

definition fits :: "nat option \<Rightarrow> u8 list \<Rightarrow> bool" where
  "fits l bytes \<longleftrightarrow> (case l of Some n \<Rightarrow> length bytes = n | None \<Rightarrow> True)"

lemma entry_read:
  assumes s: "fixed_holds write_size_entry SIZE_ENTRY_LEN s (entries put C) (entries put X)" and X: "small put X" and pos: "pos < length X"
  shows "io_bind (aof_read s pos) (deserialize read_size_entry) = Some (Inr (entries put X ! pos))"
proof -
  have "offset_of put X pos < u64_size" using offset_le [of put X pos] small_bytes [OF X] by simp
  moreover have "length (put (X ! pos)) < 65536" using X pos by (simp add: small_def list_all_iff)
  ultimately have "deserialize read_size_entry (write_size_entry (entries put X ! pos)) = Some (Inr (entries put X ! pos))"
    using size_entry_codec.deserialize_put [of "entries put X ! pos" "[]"] pos by (simp add: nth_entries)
  then show ?thesis using fixed_read [OF s, of pos] pos by simp
qed

lemma variable_locates:
  assumes "fixed_holds write_size_entry SIZE_ENTRY_LEN s (entries put C) (entries put X)" and "small put X"
  shows "locates put (VariableSize s) X"
  unfolding locates_def
proof (intro allI impI)
  fix pos assume pos: "pos < length X"
  have "aof_read s pos = Some (Inr (write_size_entry (entries put X ! pos)))" using fixed_read [OF assms(1)] pos by simp
  then show "offset_and_size (VariableSize s) pos = Some (Inr (offset_of put X pos, length (put (X ! pos))))"
    using entry_read [OF assms pos] pos by (simp add: nth_entries)
qed

lemma file_cases:
  assumes "file_holds put f C X"
  obtains (fixed) n where "f = AppendOnlyFile (FixedSize n) (raw f)" "fixed_holds put n f C X"
  | (variable) s where "f = AppendOnlyFile (VariableSize s) (raw f)" "raw_holds put (raw f) C X"
      "fixed_holds write_size_entry SIZE_ENTRY_LEN s (entries put C) (entries put X)" "buffer_start_pos (raw s) = buffer_start_pos (raw f)"
  using assms by (cases f) (auto simp: file_holds_def split: size_info.splits)

lemma fixed_is_file: "fixed_holds put n f C X \<Longrightarrow> file_holds put f C X"
  by (simp add: fixed_holds_def file_holds_def)

lemma fixed_elmt_len: "fixed_holds put n f C X \<Longrightarrow> elmt_len f = Some n"
  by (simp add: fixed_holds_def elmt_len_def)

lemma variable_is_file:
  "raw_holds put f C X \<Longrightarrow> fixed_holds write_size_entry SIZE_ENTRY_LEN s (entries put C) (entries put X) \<Longrightarrow>
    buffer_start_pos (raw s) = buffer_start_pos f \<Longrightarrow> file_holds put (AppendOnlyFile (VariableSize s) f) C X"
  by (simp add: file_holds_def)

lemma file_small: "file_holds put f C X \<Longrightarrow> small put C \<and> small put X"
  by (simp add: file_holds_def raw_holds_def)

lemma file_sizes:
  assumes "file_holds put f C X"
  shows "size_in_elmts f = Some (length C)" and "size_unsync_in_elmts f = Some (length X)"
proof -
  have "size_in_elmts f = Some (length C) \<and> size_unsync_in_elmts f = Some (length X)"
    using assms
  proof (cases rule: file_cases)
    case (variable s)
    then show ?thesis using fixed_sizes [OF variable(3)] by (metis length_entries size_in_elmts.simps(2) size_unsync_in_elmts.simps(2))
  qed (use fixed_sizes in blast)
  then show "size_in_elmts f = Some (length C)" "size_unsync_in_elmts f = Some (length X)" by simp_all
qed

lemma file_read:
  assumes h: "file_holds put f C X" and pos: "pos < length X"
  shows "aof_read f pos = Some (Inr (put (X ! pos)))"
  using h
proof (cases rule: file_cases)
  case (variable s)
  then show ?thesis
    using read_holds [OF variable(2) variable_locates [OF variable(3)] _ pos] file_sizes(2) [OF h] file_small [OF h] by metis
qed (use fixed_read pos in blast)

lemma file_read_beyond: "file_holds put f C X \<Longrightarrow> length X \<le> pos \<Longrightarrow> aof_read f pos = Some (Inr [])"
  using file_sizes(2) [of put f C X] by (cases f) simp

lemma variable_clean:
  assumes "raw_holds put f C X" and "raw_holds write_size_entry s (entries put C) (entries put X)"
    and "buffer_start_pos s = buffer_start_pos f"
  shows "buffer s = [] \<longleftrightarrow> buffer f = []"
proof -
  obtain D where D: "buffer f = write_vec put D" "small put D" "length X = buffer_start_pos f + length D" using raw_parts [OF assms(1)] by metis
  obtain E where E: "buffer s = write_vec write_size_entry E" "small write_size_entry E" "length X = buffer_start_pos s + length E"
    using raw_parts [OF assms(2)] by (metis length_entries)
  have "length D = length E" using D(3) E(3) assms(3) by simp
  then show ?thesis using D E by (metis length_0_conv write_vec_empty)
qed

lemma file_append:
  assumes h: "file_holds put f C X" and x: "small put (X @ [x])" "fits (elmt_len f) (put x)"
  shows "\<exists>f'. aof_append f (put x) = Some (Inr f') \<and> file_holds put f' C (X @ [x]) \<and> elmt_len f' = elmt_len f"
  using h
proof (cases rule: file_cases)
  case (fixed n)
  let ?f = "AppendOnlyFile (FixedSize n) ((raw f)\<lparr>buffer := buffer (raw f) @ put x\<rparr>)"
  have "aof_append f (put x) = Some (Inr ?f)" by (subst fixed(1)) simp
  moreover have "fixed_holds put n ?f C (X @ [x])"
    using fixed x append_raw [of put "raw f" C X x] by (simp add: fixed_holds_def elmt_len_def fits_def)
  ultimately show ?thesis using fixed_is_file [of put n ?f C "X @ [x]"] fixed(2) by (simp add: elmt_len_def fixed_holds_def)
next
  case (variable s)
  let ?e = "\<lparr>se_offset = length (write_vec put X), se_size = length (put x)\<rparr>"
  let ?s = "AppendOnlyFile (FixedSize SIZE_ENTRY_LEN) ((raw s)\<lparr>buffer := buffer (raw s) @ write_size_entry ?e\<rparr>)"
  let ?f = "(raw f)\<lparr>buffer := buffer (raw f) @ put x\<rparr>"
  have sX: "small put X" "length X < u32_size" using file_small [OF h] by (simp_all add: small_def)
  have off: "(if length X = 0 then Some (Inr 0) else io_bind (read_as_elmt read_size_entry s (u64_sat_sub (length X) 1)) (\<lambda>p.
      Some (Inr (u64_add (se_offset p) (se_size p))))) = Some (Inr (length (write_vec put X)))"
  proof (cases "X = []")
    case False
    then have i: "length X - 1 < length X" by simp
    have "offset_of put X (length X - 1) + length (put (X ! (length X - 1))) = length (write_vec put X)"
      unfolding offset_end [OF i] using False by (simp add: offset_of_def)
    then show ?thesis using False entry_read [OF variable(3) sX(1) i] small_bytes [OF sX(1)] i
      by (simp add: read_as_elmt_def nth_entries width)
  qed simp
  have s: "aof_append s (write_size_entry ?e) = Some (Inr ?s)" using variable(3) by (cases s) (simp add: fixed_holds_def)
  have "length (put x) mod 65536 = length (put x)" using x(1) by (simp add: small_def)
  then have "aof_append f (put x) = Some (Inr (AppendOnlyFile (VariableSize ?s) ?f))"
    by (subst variable(1)) (simp add: fixed_sizes(2) [OF variable(3)] off [simplified] s)
  moreover have "fixed_holds write_size_entry SIZE_ENTRY_LEN ?s (entries put C) (entries put (X @ [x]))"
    using variable(3) append_raw [of write_size_entry "raw s" "entries put C" "entries put X" ?e] small_entries [of "X @ [x]" put] x(1)
    by (simp add: fixed_holds_def entries_snoc small_def)
  then have "file_holds put (AppendOnlyFile (VariableSize ?s) ?f) C (X @ [x])"
    using variable_is_file append_raw [OF variable(2) x(1)] variable(4) by fastforce
  moreover have "elmt_len f = None" by (subst variable(1)) (simp add: elmt_len_def)
  ultimately show ?thesis by (auto simp: elmt_len_def)
qed

lemma file_rewind:
  assumes h: "file_holds put f C X" and c: "clean f" and pos: "pos \<le> length X"
  shows "file_holds put (aof_rewind f pos) C (take pos X)" and "clean (aof_rewind f pos)" and "elmt_len (aof_rewind f pos) = elmt_len f"
proof -
  have "file_holds put (aof_rewind f pos) C (take pos X) \<and> clean (aof_rewind f pos) \<and> elmt_len (aof_rewind f pos) = elmt_len f"
    using h
  proof (cases rule: file_cases)
    case (fixed n)
    have b: "buffer (raw f) = []" using c by (simp add: clean_def)
    note r = rewind_raw_holds [OF _ b pos, of put C]
    have "fixed_holds put n (AppendOnlyFile (FixedSize n) (rewind_raw (raw f) pos)) C (take pos X)"
      using fixed(2) r by (auto simp: fixed_holds_def list_all_iff dest: in_set_takeD)
    then have "file_holds put (AppendOnlyFile (FixedSize n) (rewind_raw (raw f) pos)) C (take pos X)" by (rule fixed_is_file)
    then show ?thesis using r fixed(2) by (subst (1 2 3 4) fixed(1)) (simp add: clean_def elmt_len_def fixed_holds_def)
  next
    case (variable s)
    let ?s = "AppendOnlyFile (FixedSize SIZE_ENTRY_LEN) (rewind_raw (raw s) pos)"
    have b: "buffer (raw f) = []" using c by (simp add: clean_def)
    have rs: "raw_holds write_size_entry (raw s) (entries put C) (entries put X)" using variable(3) by (simp add: fixed_holds_def)
    have bs: "buffer (raw s) = []" using variable_clean [OF variable(2) rs variable(4)] b by simp
    have "raw_holds write_size_entry (rewind_raw (raw s) pos) (entries put C) (entries put (take pos X))"
      using rewind_raw_holds(1) [OF rs bs] pos by (simp add: take_entries)
    then have "fixed_holds write_size_entry SIZE_ENTRY_LEN ?s (entries put C) (entries put (take pos X))"
      by (simp add: fixed_holds_def list_all_iff SIZE_ENTRY_LEN_def)
    then have "file_holds put (AppendOnlyFile (VariableSize ?s) (rewind_raw (raw f) pos)) C (take pos X)"
      using rewind_raw_holds(1) [OF variable(2) b pos] by (intro variable_is_file) (simp_all add: rewind_raw_def Let_def)
    moreover have "aof_rewind s pos = ?s" using variable(3) by (cases s) (simp add: fixed_holds_def)
    ultimately show ?thesis using b by (subst (1 2 3 4) variable(1)) (simp add: clean_def elmt_len_def rewind_raw_def Let_def)
  qed
  then show "file_holds put (aof_rewind f pos) C (take pos X)" "clean (aof_rewind f pos)" "elmt_len (aof_rewind f pos) = elmt_len f"
    by simp_all
qed

lemma fixed_discard:
  assumes "fixed_holds put n f C X"
  shows "fixed_holds put n (aof_discard f) C C" and "synced (aof_discard f)"
    and "aof_discard f = AppendOnlyFile (FixedSize n) (discard_raw (raw f))"
  using assms discard_raw_holds [of put "raw f" C X] by (cases f; simp add: fixed_holds_def synced_def)+

lemma discard_start: "raw_holds put f C X \<Longrightarrow> buffer_start_pos (discard_raw f) = length C"
  by (auto simp: raw_holds_def discard_raw_def)

lemma file_discard:
  assumes h: "file_holds put f C X"
  shows "file_holds put (aof_discard f) C C" and "synced (aof_discard f)" and "elmt_len (aof_discard f) = elmt_len f"
proof -
  have "file_holds put (aof_discard f) C C \<and> synced (aof_discard f) \<and> elmt_len (aof_discard f) = elmt_len f"
    using h
  proof (cases rule: file_cases)
    case (fixed n)
    then show ?thesis using fixed_discard(1,2) [OF fixed(2)] fixed_is_file fixed_elmt_len by metis
  next
    case (variable s)
    have rs: "raw_holds write_size_entry (raw s) (entries put C) (entries put X)" using variable(3) by (simp add: fixed_holds_def)
    have d: "aof_discard f = AppendOnlyFile (VariableSize (aof_discard s)) (discard_raw (raw f))" by (subst variable(1)) simp
    note ds = fixed_discard [OF variable(3)]
    have "file_holds put (aof_discard f) C C"
      unfolding d using discard_raw_holds(1) [OF variable(2)] ds discard_start [OF variable(2)] discard_start [OF rs]
      by (intro variable_is_file) simp_all
    moreover have "elmt_len f = None" by (subst variable(1)) (simp add: elmt_len_def)
    ultimately show ?thesis using discard_raw_holds(2,3) [OF variable(2)] discard_raw_holds(2,3) [OF rs] ds(3)
      by (simp add: d synced_def elmt_len_def)
  qed
  then show "file_holds put (aof_discard f) C C" "synced (aof_discard f)" "elmt_len (aof_discard f) = elmt_len f" by simp_all
qed

lemma file_flush:
  assumes h: "file_holds put f C X"
  shows "\<exists>f'. aof_flush f = Some (Inr f') \<and> file_holds put f' X X \<and> synced f' \<and> elmt_len f' = elmt_len f"
  using h
proof (cases rule: file_cases)
  case (fixed n)
  then show ?thesis using fixed_flush [OF fixed(2)] fixed_is_file fixed_elmt_len by metis
next
  case (variable s)
  have sX: "small put X" using file_small [OF h] by simp
  obtain s' where s': "aof_flush s = Some (Inr s')" "fixed_holds write_size_entry SIZE_ENTRY_LEN s' (entries put X) (entries put X)"
      "synced s'" "buffer_start_pos (raw s') = length X"
    using fixed_flush [OF variable(3)] by auto
  obtain f' where f': "flush_raw (VariableSize s') (raw f) = Some (Inr (AppendOnlyFile (VariableSize s') f'))" "raw_holds put f' X X"
      "buffer f' = []" "buffer_start_pos_bak f' = 0" "buffer_start_pos f' = length X"
    using flush_raw_holds [OF variable(2) variable_locates [OF s'(2) sX]] fixed_sizes(1) [OF s'(2)] by auto
  have "aof_flush f = Some (Inr (AppendOnlyFile (VariableSize s') f'))" by (subst variable(1)) (simp add: s'(1) f'(1))
  moreover have "file_holds put (AppendOnlyFile (VariableSize s') f') X X" using f' s' by (intro variable_is_file) simp_all
  moreover have "elmt_len f = None" by (subst variable(1)) (simp add: elmt_len_def)
  ultimately show ?thesis using f' s'(2,3) by (auto simp: synced_def elmt_len_def fixed_holds_def)
qed

section \<open>Elements that are stored\<close>

text \<open>What a data file needs of its elements: a codec whose bytes the streaming reader counts exactly,
  with neither empty nor overlong encodings, and a reader that fails at the end of the file.\<close>

locale stored = codec +
  assumes counted: "ok x \<Longrightarrow> n < u64_size \<Longrightarrow> get (StreamingReader n (put x @ rest)) = Some (Inr x, StreamingReader (u64_add n (length (put x))) rest)"
    and stream_end: "\<exists>e r. get (StreamingReader n []) = Some (Inl e, r)"
    and end_of_data: "\<exists>e r. get (BinReader []) = Some (Inl e, r)"
    and put_size: "ok x \<Longrightarrow> 0 < length (put x) \<and> length (put x) < 65536"
begin

lemma small_ok: "list_all ok xs \<Longrightarrow> length xs < u32_size \<Longrightarrow> small put xs"
  using put_size by (auto simp: small_def list_all_iff)

lemma read_elmt:
  assumes "file_holds put f C X" and "list_all ok X" and "pos < length X"
  shows "read_as_elmt get f pos = Some (Inr (X ! pos))"
  using file_read [OF assms(1), of pos] deserialize_put [of "X ! pos" "[]"] assms(2,3)
  by (simp add: read_as_elmt_def list_all_iff)

lemma data_read_holds:
  assumes h: "file_holds put f C X" and "list_all ok X" and "0 < pos"
  shows "data_read get f pos = Some (if pos \<le> length X then Some (X ! (pos - 1)) else None)"
proof (cases "pos \<le> length X")
  case True
  then show ?thesis using read_elmt [OF h assms(2), of "pos - 1"] assms(3) by (simp add: data_read_def width)
next
  case False
  then have "aof_read f (pos - 1) = Some (Inr [])" by (intro file_read_beyond [OF h]) simp
  then show ?thesis using False assms(3) end_of_data by (auto simp: data_read_def read_as_elmt_def width deserialize_def)
qed

lemma stream_elements_put:
  "list_all ok xs \<Longrightarrow> n + length (write_vec put xs) < u64_size \<Longrightarrow>
   stream_elements get (StreamingReader n (write_vec put xs)) = Some (zip xs (map (\<lambda>i. n + offset_of put xs (Suc i)) [0..<length xs]))"
proof (induction xs arbitrary: n)
  case Nil
  obtain e r where "get (StreamingReader n []) = Some (Inl e, r)" using stream_end by blast
  then show ?case by (subst stream_elements.simps) simp
next
  case (Cons x xs)
  then have "u64_add n (length (put x)) = n + length (put x)" by (simp add: width)
  then have "get (StreamingReader n (write_vec put (x # xs))) = Some (Inr x, StreamingReader (n + length (put x)) (write_vec put xs))"
    using counted [of x n "write_vec put xs"] Cons.prems by simp
  moreover have "map (\<lambda>i. n + offset_of put (x # xs) (Suc i)) [0..<Suc (length xs)] =
      (n + length (put x)) # map (\<lambda>i. n + length (put x) + offset_of put xs (Suc i)) [0..<length xs]"
    by (simp only: upt_conv_Cons zero_less_Suc list.map map_Suc_upt [symmetric] map_map comp_def) (simp add: offset_of_def)
  ultimately show ?case using Cons by (subst stream_elements.simps) (simp del: upt_Suc)
qed

lemma rebuilt_entries:
  "list_all ok xs \<Longrightarrow> c + length (write_vec put xs) < u64_size \<Longrightarrow>
   size_entries c (map (\<lambda>i. c + offset_of put xs (Suc i)) [0..<length xs]) =
     map (\<lambda>i. \<lparr>se_offset = c + offset_of put xs i, se_size = length (put (xs ! i))\<rparr>) [0..<length xs]"
proof (induction xs arbitrary: c)
  case (Cons x xs)
  have "length (put x) < 65536" using put_size [of x] Cons.prems(1) by simp
  moreover have "u64_add c (length (put x)) = c + length (put x)" using Cons.prems(2) by (simp add: width)
  moreover have "map (\<lambda>i. c + offset_of put (x # xs) (Suc i)) [0..<Suc (length xs)] =
      (c + length (put x)) # map (\<lambda>i. c + length (put x) + offset_of put xs (Suc i)) [0..<length xs]"
    by (simp only: upt_conv_Cons zero_less_Suc list.map map_Suc_upt [symmetric] map_map comp_def) (simp add: offset_of_def)
  moreover have "map (\<lambda>i. \<lparr>se_offset = c + offset_of put (x # xs) i, se_size = length (put ((x # xs) ! i))\<rparr>) [0..<Suc (length xs)] =
      \<lparr>se_offset = c, se_size = length (put x)\<rparr> #
      map (\<lambda>i. \<lparr>se_offset = c + length (put x) + offset_of put xs i, se_size = length (put (xs ! i))\<rparr>) [0..<length xs]"
    by (simp only: upt_conv_Cons zero_less_Suc list.map map_Suc_upt [symmetric] map_map comp_def) (simp add: offset_of_def)
  ultimately show ?case using Cons.IH [of "c + length (put x)"] Cons.prems by (simp add: width Let_def del: upt_Suc)
qed simp

text \<open>Reading a file anew, after it was replaced or opened.\<close>

lemma reinit:
  assumes C: "list_all ok C" "length C < u32_size" "list_all (\<lambda>x. fits (elmt_len f) (put x)) C"
    and f: "on_disk (raw f) = write_vec put C" "buffer (raw f) = []" "buffer_start_pos_bak (raw f) = 0" "elmt_len f \<noteq> Some 0"
    and s: "\<And>s. size_info f = VariableSize s \<Longrightarrow>
      size_info s = FixedSize SIZE_ENTRY_LEN \<and> buffer (raw s) = [] \<and> buffer_start_pos_bak (raw s) = 0"
  shows "\<exists>f'. Option.bind (rebuild_size_file get f) aof_init = Some f' \<and> file_holds put f' C C \<and> synced f' \<and> elmt_len f' = elmt_len f"
proof (cases "size_info f")
  case (FixedSize n)
  have "small put C" using small_ok C by simp
  moreover have "list_all (\<lambda>x. length (put x) = n) C" "0 < n" using C(3) f(4) FixedSize by (simp_all add: elmt_len_def fits_def)
  ultimately obtain f' where "aof_init f = Some f'" "fixed_holds put n f' C C" "synced f'"
    using fixed_init [OF FixedSize, of put C] f by auto
  moreover have "rebuild_size_file get f = Some f" using FixedSize by (cases f) (simp add: rebuild_size_file_def)
  ultimately show ?thesis using fixed_is_file fixed_elmt_len FixedSize by (fastforce simp: elmt_len_def)
next
  case (VariableSize s)
  let ?s = "aof_replace s (write_vec write_size_entry (entries put C))"
  have sm: "small put C" using small_ok C by simp
  have s': "size_info s = FixedSize SIZE_ENTRY_LEN" "buffer (raw s) = []" "buffer_start_pos_bak (raw s) = 0" using s [OF VariableSize] by simp_all
  have b: "length (write_vec put C) < u64_size" using small_bytes [OF sm] by simp
  have "map snd (zip C (map (\<lambda>i. 0 + offset_of put C (Suc i)) [0..<length C])) = map (\<lambda>i. 0 + offset_of put C (Suc i)) [0..<length C]" by simp
  then have "rebuild_size_file get f = Some (AppendOnlyFile (VariableSize ?s) (raw f))"
    using VariableSize stream_elements_put [OF C(1), of 0] rebuilt_entries [OF C(1), of 0] b f(1)
    by (cases f) (simp add: rebuild_size_file_def entries_def)
  moreover obtain s1 where s1: "aof_init ?s = Some s1" "fixed_holds write_size_entry SIZE_ENTRY_LEN s1 (entries put C) (entries put C)"
      "synced s1" "buffer_start_pos (raw s1) = length C"
  proof -
    have "size_info ?s = FixedSize SIZE_ENTRY_LEN \<and> on_disk (raw ?s) = write_vec write_size_entry (entries put C) \<and>
        buffer (raw ?s) = [] \<and> buffer_start_pos_bak (raw ?s) = 0"
      using s' by (cases s) (simp add: aof_replace_def)
    then show thesis using fixed_init [of ?s SIZE_ENTRY_LEN write_size_entry "entries put C"] small_entries [OF C(2), of put] that
      by (auto simp: list_all_iff SIZE_ENTRY_LEN_def)
  qed
  moreover obtain f1 where f1: "init_raw (VariableSize s1) (raw f) = Some (AppendOnlyFile (VariableSize s1) f1)" "raw_holds put f1 C C"
      "buffer f1 = []" "buffer_start_pos_bak f1 = 0" "buffer_start_pos f1 = length C"
    using init_raw_holds [OF sm f(1-3), of "VariableSize s1"] fixed_sizes(1) [OF s1(2)] by auto
  moreover have "file_holds put (AppendOnlyFile (VariableSize s1) f1) C C" using f1 s1 by (intro variable_is_file) simp_all
  ultimately show ?thesis using VariableSize s1(3) by (auto simp: synced_def elmt_len_def fixed_holds_def)
qed

end

text \<open>Pruning by sorted indices.\<close>

lemma prune_keep_nths:
  "sorted_wrt (<) ps \<Longrightarrow> list_all (\<lambda>p. c \<le> p) ps \<Longrightarrow> prune_keep c ps xs = nths xs {i. c + i \<notin> set ps}"
proof (induction xs arbitrary: c ps)
  case (Cons x xs)
  show ?case
  proof (cases "c \<in> set ps")
    case True
    then obtain qs where ps: "ps = c # qs" using Cons.prems by (cases ps) (auto simp: list_all_iff)
    then have "c \<notin> set qs" "list_all (\<lambda>p. Suc c \<le> p) qs" using Cons.prems by (auto simp: list_all_iff)
    moreover from this have "{j. Suc j \<in> {i. c + i \<notin> set ps}} = {i. Suc c + i \<notin> set qs}" unfolding ps by auto
    ultimately show ?thesis using Cons.IH [of qs "Suc c"] Cons.prems ps by (simp add: nths_Cons)
  next
    case False
    then have "list_all (\<lambda>p. Suc c \<le> p) ps" using Cons.prems(2) by (metis (mono_tags, lifting) Suc_leI list_all_iff nat_less_le)
    then show ?thesis using Cons.IH [of ps "Suc c"] Cons.prems(1) False by (simp add: nths_Cons)
  qed
qed simp

lemma release_fixed [simp]: "size_info s = FixedSize n \<Longrightarrow> aof_release s = AppendOnlyFile (FixedSize n) ((raw s)\<lparr>mmap := None\<rparr>)"
  by (cases s) simp

lemma open_fixed:
  assumes "small put C" and "list_all (\<lambda>x. length (put x) = n) C" and "0 < n"
  shows "\<exists>f'. aof_open g (write_vec put C) (FixedSize n) = Some f' \<and> fixed_holds put n f' C C \<and> synced f' \<and>
    buffer_start_pos (raw f') = length C"
proof -
  obtain f' where "aof_init (AppendOnlyFile (FixedSize n) \<lparr>on_disk = write_vec put C, mmap = None, buffer = [], buffer_start_pos = 0,
      buffer_start_pos_bak = 0\<rparr>) = Some f'" "fixed_holds put n f' C C" "synced f'" "buffer_start_pos (raw f') = length C"
    using fixed_init [of "AppendOnlyFile (FixedSize n) \<lparr>on_disk = write_vec put C, mmap = None, buffer = [], buffer_start_pos = 0,
      buffer_start_pos_bak = 0\<rparr>" n put C] assms by auto
  then show ?thesis by (simp add: aof_open_def fixed_holds_def)
qed

context stored
begin

lemma file_save_prune:
  assumes h: "file_holds put f C C" and sy: "synced f" and ok: "list_all ok C" and ps: "sorted_wrt (<) ps"
  shows "\<exists>f'. aof_save_prune get put f ps = Some f' \<and> file_holds put f' (nths C {i. i \<notin> set ps}) (nths C {i. i \<notin> set ps}) \<and>
    synced f' \<and> elmt_len f' = elmt_len f"
proof -
  let ?C = "nths C {i. i \<notin> set ps}"
  let ?f = "aof_replace f (write_vec put ?C)"
  have sub: "set ?C \<subseteq> set C" by (rule set_nths_subset)
  have sm: "small put C" and d: "on_disk (raw f) = write_vec put C" using h by (simp_all add: file_holds_def raw_holds_def)
  have len: "length ?C < u32_size" using sm length_nths [of C] card_mono [of "{..<length C}" "{i. i < length C \<and> i \<notin> set ps}"]
    by (simp add: small_def) (metis (no_types, lifting) Collect_mono_iff card_lessThan finite_lessThan lessThan_def order_le_less_trans)
  have es: "stream_elements get (StreamingReader 0 (on_disk (raw f))) = Some (zip C (map (\<lambda>i. 0 + offset_of put C (Suc i)) [0..<length C]))"
    unfolding d using stream_elements_put [OF ok, of 0] small_bytes [OF sm] by simp
  have "prune_keep 0 ps C = ?C" using prune_keep_nths [OF ps, of 0 C] by (simp add: list_all_iff)
  then have save: "aof_save_prune get put f ps = Option.bind (rebuild_size_file get ?f) aof_init"
    unfolding aof_save_prune_def es by simp
  have f: "on_disk (raw ?f) = write_vec put ?C" "buffer (raw ?f) = []" "buffer_start_pos_bak (raw ?f) = 0" "elmt_len ?f = elmt_len f"
    using sy by (cases f rule: aof_release.cases; simp add: aof_replace_def elmt_len_def synced_def)+
  have fits: "list_all (\<lambda>x. fits (elmt_len f) (put x)) C \<and> elmt_len f \<noteq> Some 0"
    using h
  proof (cases rule: file_cases)
    case (fixed n)
    then show ?thesis using fixed_elmt_len [OF fixed(2)] by (simp add: fixed_holds_def fits_def)
  next
    case (variable s)
    have "elmt_len f = None" by (subst variable(1)) (simp add: elmt_len_def)
    then show ?thesis by (simp add: fits_def list_all_iff)
  qed
  have "size_info s = FixedSize SIZE_ENTRY_LEN \<and> buffer (raw s) = [] \<and> buffer_start_pos_bak (raw s) = 0"
    if "size_info ?f = VariableSize s" for s
    using h that sy
    by (cases rule: file_cases; cases f rule: aof_release.cases) (auto simp: aof_replace_def fixed_holds_def synced_def)
  moreover have "list_all ok ?C" "list_all (\<lambda>x. fits (elmt_len ?f) (put x)) ?C" using sub ok fits by (auto simp: f(4) list_all_iff)
  ultimately show ?thesis unfolding save using reinit [of ?C ?f, OF _ len _ f(1-3)] fits unfolding f(4) by blast
qed

lemma open_variable:
  assumes C: "list_all ok C" "length C < u32_size" and E: "E = entries put C \<or> E = []"
  shows "\<exists>f'. open_file get None (write_vec put C) (write_vec write_size_entry E) = Some f' \<and> file_holds put f' C C \<and> synced f' \<and> elmt_len f' = None"
proof -
  let ?r = "\<lparr>on_disk = write_vec put C, mmap = None, buffer = [], buffer_start_pos = 0, buffer_start_pos_bak = 0\<rparr>"
  have E10: "list_all (\<lambda>x. length (write_size_entry x) = SIZE_ENTRY_LEN) E" "0 < SIZE_ENTRY_LEN" "small write_size_entry E"
    using E small_entries [OF C(2), of put] by (auto simp: list_all_iff SIZE_ENTRY_LEN_def small_def)
  have sm: "small put C" using small_ok C by simp
  obtain s where s: "aof_open read_size_entry (write_vec write_size_entry E) (FixedSize SIZE_ENTRY_LEN) = Some s"
      "fixed_holds write_size_entry SIZE_ENTRY_LEN s E E" "synced s"
    using open_fixed [OF E10(3,1,2)] by blast
  obtain s1 where s1: "aof_init s = Some s1" "fixed_holds write_size_entry SIZE_ENTRY_LEN s1 E E" "synced s1" "buffer_start_pos (raw s1) = length E"
    using fixed_init [OF _ E10(3) _ _ _ E10(1,2), of s] s(2,3) by (auto simp: fixed_holds_def raw_holds_def synced_def)
  have disk: "on_disk (raw s1) = [] \<longleftrightarrow> E = []" using s1(2) write_vec_empty [OF E10(3)] by (simp add: fixed_holds_def raw_holds_def)
  have si: "size_info s1 = FixedSize SIZE_ENTRY_LEN \<and> buffer (raw s1) = [] \<and> buffer_start_pos_bak (raw s1) = 0"
    using s1(2,3) by (simp add: fixed_holds_def synced_def)
  obtain f where f: "init_raw (VariableSize s1) ?r = Some f" "size_info f = VariableSize s1" "on_disk (raw f) = write_vec put C"
      "buffer (raw f) = []" "buffer_start_pos_bak (raw f) = 0"
    using fixed_sizes(1) [OF s1(2)] by (cases "write_vec put C = []") (simp_all add: init_raw_def Let_def)
  have op: "open_file get None (write_vec put C) (write_vec write_size_entry E) =
      (if E = [] then Option.bind (rebuild_size_file get f) aof_init else Some f)"
  proof -
    have "open_file get None (write_vec put C) (write_vec write_size_entry E) = aof_open get (write_vec put C) (VariableSize s)"
      by (simp add: open_file_def s(1))
    then show ?thesis using f(2) by (simp add: aof_open_def s1(1) f(1) disk)
  qed
  have l: "elmt_len f = None" using f(2) by (simp add: elmt_len_def)
  show ?thesis
  proof (cases "E = []")
    case False
    then have E': "E = entries put C" using E by simp
    obtain g where g: "f = AppendOnlyFile (VariableSize s1) g" "raw_holds put g C C" "buffer_start_pos g = length C"
      using init_raw_holds [OF sm, of ?r "VariableSize s1"] fixed_sizes(1) [OF s1(2)] f(1) E' by auto
    have "file_holds put f C C" unfolding g(1) using s1 g E' by (intro variable_is_file) simp_all
    then show ?thesis using op f False si l by (simp add: synced_def)
  next
    case True
    have "list_all (\<lambda>x. fits (elmt_len f) (put x)) C" by (simp add: l fits_def list_all_iff)
    then show ?thesis using reinit [OF C _ f(3-5)] si f(2) unfolding op l by (simp add: True)
  qed
qed

lemma reopen_holds:
  assumes h: "file_holds put f C X" and ok: "list_all ok C"
  shows "\<exists>f'. open_file get (elmt_len f) (on_disk (raw f)) (case size_info f of VariableSize s \<Rightarrow> on_disk (raw s) | _ \<Rightarrow> []) = Some f' \<and>
    file_holds put f' C C \<and> synced f' \<and> elmt_len f' = elmt_len f"
proof -
  have C: "length C < u32_size" "small put C" "on_disk (raw f) = write_vec put C"
    using h by (simp_all add: file_holds_def raw_holds_def small_def)
  show ?thesis
    using h
  proof (cases rule: file_cases)
    case (fixed n)
    have n: "elmt_len f = Some n" "size_info f = FixedSize n" using fixed(2) by (simp_all add: fixed_holds_def elmt_len_def)
    obtain f' where "aof_open get (write_vec put C) (FixedSize n) = Some f'" "fixed_holds put n f' C C" "synced f'"
      using open_fixed [OF C(2), of n get] fixed(2) by (auto simp: fixed_holds_def)
    then show ?thesis using n C(3) fixed_is_file [of put n f' C C] fixed_elmt_len [of put n f' C C] by (simp add: open_file_def)
  next
    case (variable s)
    then have n: "elmt_len f = None" "size_info f = VariableSize s" by (metis aof.sel(1) elmt_len_def size_info.simps(6), metis aof.sel(1))
    have "on_disk (raw s) = write_vec write_size_entry (entries put C)" using variable(3) by (simp add: fixed_holds_def raw_holds_def)
    then show ?thesis using open_variable [OF ok C(1), of "entries put C"] n C(3) by simp
  qed
qed

end

section \<open>The journal a file implements\<close>

datatype 'a file_op = AppendOp 'a | RewindOp u64 | FlushOp | DiscardOp | SavePruneOp "u64 list" | ReopenOp

fun file_step :: "'a read \<Rightarrow> ('a \<Rightarrow> u8 list) \<Rightarrow> 'a file_op \<Rightarrow> aof \<Rightarrow> aof io" where
  "file_step get put (AppendOp x) f = io_bind (data_append put f x) (\<lambda>(_, f'). Some (Inr f'))"
| "file_step get put (RewindOp pos) f = Some (Inr (aof_rewind f pos))"
| "file_step get put FlushOp f = aof_flush f"
| "file_step get put DiscardOp f = Some (Inr (aof_discard f))"
| "file_step get put (SavePruneOp ps) f = map_option Inr (data_save_prune get put f ps)"
| "file_step get put ReopenOp f = map_option Inr (open_file get (elmt_len f) (on_disk (raw f))
     (case size_info f of VariableSize s \<Rightarrow> on_disk (raw s) | _ \<Rightarrow> []))"

fun file_run :: "'a read \<Rightarrow> ('a \<Rightarrow> u8 list) \<Rightarrow> 'a file_op list \<Rightarrow> aof \<Rightarrow> aof io" where
  "file_run get put [] f = Some (Inr f)"
| "file_run get put (op # ops) f = io_bind (file_step get put op f) (file_run get put ops)"

text \<open>The specification: the elements that survive a restart and the current ones. A step that its
  callers must not take is \<open>None\<close>: rewinding behind appended elements, pruning before a sync.\<close>

record 'a journal =
  j_committed :: "'a list"
  j_current :: "'a list"
  j_clean :: bool
  j_synced :: bool

fun journal_step :: "nat option \<Rightarrow> ('a \<Rightarrow> bool) \<Rightarrow> ('a \<Rightarrow> u8 list) \<Rightarrow> 'a file_op \<Rightarrow> 'a journal \<Rightarrow> 'a journal option" where
  "journal_step l ok put (AppendOp x) j =
     (if ok x \<and> fits l (put x) \<and> length (j_current j) + 1 < u32_size
      then Some (j\<lparr>j_current := j_current j @ [x], j_clean := False, j_synced := False\<rparr>) else None)"
| "journal_step l ok put (RewindOp pos) j =
     (if j_clean j \<and> pos \<le> length (j_current j) then Some (j\<lparr>j_current := take pos (j_current j), j_synced := False\<rparr>) else None)"
| "journal_step l ok put FlushOp j = Some \<lparr>j_committed = j_current j, j_current = j_current j, j_clean = True, j_synced = True\<rparr>"
| "journal_step l ok put DiscardOp j = Some \<lparr>j_committed = j_committed j, j_current = j_committed j, j_clean = True, j_synced = True\<rparr>"
| "journal_step l ok put (SavePruneOp ps) j =
     (if j_synced j \<and> sorted_wrt (<) ps \<and> 0 \<notin> set ps
      then let xs = nths (j_committed j) {i. Suc i \<notin> set ps} in Some \<lparr>j_committed = xs, j_current = xs, j_clean = True, j_synced = True\<rparr> else None)"
| "journal_step l ok put ReopenOp j = Some \<lparr>j_committed = j_committed j, j_current = j_committed j, j_clean = True, j_synced = True\<rparr>"

fun journal_run :: "nat option \<Rightarrow> ('a \<Rightarrow> bool) \<Rightarrow> ('a \<Rightarrow> u8 list) \<Rightarrow> 'a file_op list \<Rightarrow> 'a journal \<Rightarrow> 'a journal option" where
  "journal_run l ok put [] j = Some j"
| "journal_run l ok put (op # ops) j = Option.bind (journal_step l ok put op j) (journal_run l ok put ops)"

definition journal_empty :: "'a journal" where
  "journal_empty = \<lparr>j_committed = [], j_current = [], j_clean = True, j_synced = True\<rparr>"

definition file_rel :: "('a \<Rightarrow> bool) \<Rightarrow> ('a \<Rightarrow> u8 list) \<Rightarrow> nat option \<Rightarrow> aof \<Rightarrow> 'a journal \<Rightarrow> bool" where
  "file_rel ok put l f j \<longleftrightarrow> file_holds put f (j_committed j) (j_current j) \<and> list_all ok (j_committed j) \<and> list_all ok (j_current j) \<and>
     elmt_len f = l \<and> (j_clean j \<longrightarrow> clean f) \<and> (j_synced j \<longrightarrow> synced f)"

lemma synced_current:
  assumes "file_holds put f C X" and "synced f"
  shows "X = C"
proof -
  have h: "raw_holds put (raw f) C X" using assms(1) by (simp add: file_holds_def)
  obtain D where "buffer (raw f) = write_vec put D" "X = take (buffer_start_pos (raw f)) C @ D" "small put D" using raw_parts [OF h] .
  moreover have "buffer (raw f) = []" "buffer_start_pos (raw f) = length C" using assms(2) h by (auto simp: synced_def raw_holds_def)
  ultimately show ?thesis using write_vec_empty [of put D] by simp
qed

lemma list_all_part: "list_all P xs \<Longrightarrow> list_all P (take k xs)" "list_all P xs \<Longrightarrow> list_all P (nths xs I)"
  by (auto simp: list_all_iff dest: in_set_takeD in_set_nthsD)

lemma synced_clean: "synced f \<Longrightarrow> clean f"
  by (simp add: synced_def clean_def)

context stored
begin

lemma data_append_holds:
  assumes h: "file_holds put f C X" and x: "ok x" "list_all ok X" "length X + 1 < u32_size" "fits (elmt_len f) (put x)"
  shows "\<exists>f'. data_append put f x = Some (Inr (length X + 1, f')) \<and> file_holds put f' C (X @ [x]) \<and> elmt_len f' = elmt_len f"
proof -
  have "small put (X @ [x])" using x by (intro small_ok) simp_all
  then obtain f' where f': "aof_append f (put x) = Some (Inr f')" "file_holds put f' C (X @ [x])" "elmt_len f' = elmt_len f"
    using file_append [OF h _ x(4)] by blast
  then show ?thesis using file_sizes(2) [OF f'(2)] by (simp add: data_append_def data_size_unsync_def)
qed

lemma data_save_prune_holds:
  assumes h: "file_holds put f C X" and sy: "synced f" and ok: "list_all ok C" and ps: "sorted_wrt (<) ps" "0 \<notin> set ps"
  shows "\<exists>f'. data_save_prune get put f ps = Some f' \<and> file_holds put f' (nths C {i. Suc i \<notin> set ps}) (nths C {i. Suc i \<notin> set ps}) \<and>
    synced f' \<and> elmt_len f' = elmt_len f"
proof -
  let ?ps = "map (\<lambda>x. u64_sub x 1) ps"
  have e: "?ps = map (\<lambda>x. x - 1) ps" using ps(2) by (intro map_cong refl u64_sub_exact) (auto simp: Suc_le_eq intro: gr0I)
  have "sorted_wrt (<) ?ps" unfolding e sorted_wrt_map using ps
    by (elim sorted_wrt_mono_rel [rotated]) (metis (no_types) One_nat_def diff_less_mono gr0I le_simps(3))
  moreover have "i \<in> set ?ps \<longleftrightarrow> Suc i \<in> set ps" for i
    unfolding e using ps(2) by (auto simp: image_iff) (metis Suc_pred gr0I, force)
  then have "{i. i \<notin> set ?ps} = {i. Suc i \<notin> set ps}" by blast
  moreover have "X = C" using synced_current [OF h sy] .
  ultimately show ?thesis using file_save_prune [of f C ?ps] h sy ok unfolding data_save_prune_def by simp
qed

lemma step_refines:
  assumes r: "file_rel ok put l f j" and s: "journal_step l ok put op j = Some j'"
  shows "\<exists>f'. file_step get put op f = Some (Inr f') \<and> file_rel ok put l f' j'"
proof -
  have h: "file_holds put f (j_committed j) (j_current j)" "list_all ok (j_committed j)" "list_all ok (j_current j)" "elmt_len f = l"
    "j_clean j \<Longrightarrow> clean f" "j_synced j \<Longrightarrow> synced f"
    using r by (simp_all add: file_rel_def)
  show ?thesis
  proof (cases op)
    case (AppendOp x)
    then show ?thesis using s h data_append_holds [OF h(1), of x] by (auto simp: file_rel_def split: if_splits)
  next
    case (RewindOp pos)
    then show ?thesis using s h file_rewind [OF h(1), of pos]
      by (simp add: file_rel_def list_all_part split: if_splits) (auto simp: list_all_part)
  next
    case FlushOp
    then show ?thesis using s h file_flush [OF h(1)] synced_clean by (auto simp: file_rel_def)
  next
    case DiscardOp
    then show ?thesis using s h file_discard [OF h(1)] synced_clean by (auto simp: file_rel_def)
  next
    case (SavePruneOp ps)
    let ?xs = "nths (j_committed j) {i. Suc i \<notin> set ps}"
    have j': "j_synced j" "sorted_wrt (<) ps" "0 \<notin> set ps" "j' = \<lparr>j_committed = ?xs, j_current = ?xs, j_clean = True, j_synced = True\<rparr>"
      using s SavePruneOp by (auto simp: Let_def split: if_splits)
    obtain f' where "data_save_prune get put f ps = Some f'" "file_holds put f' ?xs ?xs" "synced f'" "elmt_len f' = elmt_len f"
      using data_save_prune_holds [OF h(1) h(6) [OF j'(1)] h(2) j'(2,3)] by blast
    then show ?thesis using SavePruneOp j'(4) h(2,4) synced_clean by (simp add: file_rel_def list_all_part)
  next
    case ReopenOp
    then show ?thesis using s h reopen_holds [OF h(1,2)] synced_clean by (auto simp: file_rel_def)
  qed
qed

lemma run_refines:
  "file_rel ok put l f j \<Longrightarrow> journal_run l ok put ops j = Some j' \<Longrightarrow> \<exists>f'. file_run get put ops f = Some (Inr f') \<and> file_rel ok put l f' j'"
proof (induction ops arbitrary: f j)
  case (Cons op ops)
  then obtain j1 where "journal_step l ok put op j = Some j1" "journal_run l ok put ops j1 = Some j'"
    by (auto simp: bind_eq_Some_conv)
  then show ?case using Cons.IH step_refines [OF Cons.prems(1)] by fastforce
qed simp

lemma new_file_rel:
  assumes "l \<noteq> Some 0"
  shows "\<exists>f. open_file get l [] [] = Some f \<and> file_rel ok put l f journal_empty"
proof (cases l)
  case None
  then show ?thesis using open_variable [of "[]" "[]"] synced_clean by (fastforce simp: file_rel_def journal_empty_def)
next
  case (Some n)
  then obtain f where "aof_open get [] (FixedSize n) = Some f" "fixed_holds put n f [] []" "synced f"
    using open_fixed [of put "[]" n get] assms by (auto simp: small_def)
  then show ?thesis using Some fixed_is_file [of put n f] fixed_elmt_len [of put n f] synced_clean
    by (auto simp: file_rel_def journal_empty_def open_file_def)
qed

end

section \<open>Readers that count what they read\<close>

definition counts :: "'a read \<Rightarrow> u8 list \<Rightarrow> 'a \<Rightarrow> bool" where
  "counts get bs x \<longleftrightarrow> (\<forall>n rest. n < u64_size \<longrightarrow>
     get (StreamingReader n (bs @ rest)) = Some (Inr x, StreamingReader (u64_add n (length bs)) rest))"

lemma counts_ok_eq: "x = y \<Longrightarrow> counts (read_ok x) [] y"
  by (simp add: counts_def read_ok_def width)

lemma counts_bind:
  assumes "counts get bs x" and "counts (f x) cs y"
  shows "counts (read_bind get f) (bs @ cs) y"
proof -
  have "u64_add (u64_add n a) b = u64_add n (a + b)" for n a b by (simp add: u64_add_def mod_add_left_eq add.assoc)
  then show ?thesis using assms by (simp add: counts_def read_bind_def)
qed

lemma counts_last: "counts get bs x \<Longrightarrow> counts (f x) [] y \<Longrightarrow> counts (read_bind get f) bs y"
  using counts_bind [of get bs x f "[]" y] by simp

lemma counts_fixed_bytes: "length bs = n \<Longrightarrow> 0 < n \<Longrightarrow> n < 9223372036854775808 \<Longrightarrow> counts (read_fixed_bytes n) bs bs"
  by (simp add: counts_def read_fixed_bytes.simps read_exact_def)

lemma counts_uint:
  assumes "n < 256 ^ k" and "0 < k" and "k < 9223372036854775808"
  shows "counts (read_bind (read_fixed_bytes k) (\<lambda>buf. read_ok (be_nat buf))) (be_bytes k n) n"
  by (rule counts_last [OF counts_fixed_bytes]) (use assms be_nat_be_bytes [of k n] in \<open>simp_all add: counts_ok_eq\<close>)

lemma counts_ints:
  "n < 256 \<Longrightarrow> counts read_u8 (write_u8 n) n" "n < 65536 \<Longrightarrow> counts read_u16 (write_u16 n) n"
  "n < u64_size \<Longrightarrow> counts read_u64 (write_u64 n) n"
  using counts_uint [of n 1] counts_uint [of n 2] counts_uint [of n 8]
  by (simp_all add: read_u8_def write_u8_def read_u16_def write_u16_def read_u64_def write_u64_def)

lemma fixed_bytes_end:
  "0 < n \<Longrightarrow> n \<le> MAX_FIXED_READ \<Longrightarrow> read_fixed_bytes n (BinReader []) = Some (Inl eof_error, BinReader [])"
  "0 < n \<Longrightarrow> n < 9223372036854775808 \<Longrightarrow> read_fixed_bytes n (StreamingReader c []) = Some (Inl (IOErr ''read_exact'' ConnectionAborted), StreamingReader c [])"
  by (simp_all add: read_fixed_bytes.simps read_exact_def)

lemma read_bind_end: "get r = Some (Inl e, r') \<Longrightarrow> read_bind get f r = Some (Inl e, r')"
  by (simp add: read_bind_def)

lemma u64_end:
  "read_u64 (BinReader []) = Some (Inl eof_error, BinReader [])"
  "read_u64 (StreamingReader c []) = Some (Inl (IOErr ''read_exact'' ConnectionAborted), StreamingReader c [])"
  by (simp_all add: read_u64_def read_bind_def fixed_bytes_end MAX_FIXED_READ_def)

lemma counts_size_entry:
  "se_offset e < u64_size \<Longrightarrow> se_size e < 65536 \<Longrightarrow> counts read_size_entry (write_size_entry e) e"
  unfolding write_size_entry_def read_size_entry_def
  by (intro counts_bind [OF counts_ints(3)] counts_last [OF counts_ints(2)] counts_ok_eq) simp_all

interpretation size_file: stored write_size_entry read_size_entry "\<lambda>e. se_offset e < u64_size \<and> se_size e < 65536"
proof
  fix e :: size_entry and n rest
  assume e: "se_offset e < u64_size \<and> se_size e < 65536" and n: "n < u64_size"
  then show "read_size_entry (StreamingReader n (write_size_entry e @ rest)) =
      Some (Inr e, StreamingReader (u64_add n (length (write_size_entry e))) rest)"
    using counts_size_entry [of e] unfolding counts_def by blast
next
  fix n show "\<exists>e r. read_size_entry (StreamingReader n []) = Some (Inl e, r)"
    unfolding read_size_entry_def using read_bind_end [of read_u64 "StreamingReader n []", OF u64_end(2)] by blast
next
  show "\<exists>e r. read_size_entry (BinReader []) = Some (Inl e, r)"
    unfolding read_size_entry_def using read_bind_end [of read_u64 "BinReader []", OF u64_end(1)] by blast
qed (simp_all add: SIZE_ENTRY_LEN_def)

section \<open>Properties\<close>

text \<open>C8: an append-only file, with elements of fixed or of variable size, implements a journal. From a
  new file, every sequence of appending, rewinding, syncing, discarding, pruning and reopening that the
  journal admits returns without error; afterwards every position reads the current element of the
  journal, or nothing beyond its end, and the sizes are those of the journal. Reopening after a crash
  gives back exactly what had been synced.\<close>

theorem file_refines_journal:
  assumes "stored put get ok" and "l \<noteq> Some 0" and "journal_run l ok put ops journal_empty = Some j"
  shows "\<exists>f f'. open_file get l [] [] = Some f \<and> file_run get put ops f = Some (Inr f') \<and>
    (\<forall>pos. data_read get f' (Suc pos) = Some (if pos < length (j_current j) then Some (j_current j ! pos) else None)) \<and>
    data_size_unsync f' = Some (length (j_current j)) \<and> data_size f' = Some (length (j_committed j))"
proof -
  obtain f where f: "open_file get l [] [] = Some f" "file_rel ok put l f journal_empty"
    using stored.new_file_rel [OF assms(1,2)] by blast
  obtain f' where f': "file_run get put ops f = Some (Inr f')" "file_rel ok put l f' j"
    using stored.run_refines [OF assms(1) f(2) assms(3)] by blast
  have h: "file_holds put f' (j_committed j) (j_current j)" "list_all ok (j_current j)" using f'(2) by (simp_all add: file_rel_def)
  have "data_read get f' (Suc pos) = Some (if pos < length (j_current j) then Some (j_current j ! pos) else None)" for pos
    using stored.data_read_holds [OF assms(1) h, of "Suc pos"] by (simp add: Suc_le_eq)
  then show ?thesis using f(1) f'(1) file_sizes [OF h(1)] by (auto simp: data_size_def data_size_unsync_def)
qed

theorem file_refines_journal_witness:
  "\<exists>f f'. open_file read_size_entry None [] [] = Some f \<and>
     file_run read_size_entry write_size_entry
       [AppendOp \<lparr>se_offset = 1, se_size = 2\<rparr>, AppendOp \<lparr>se_offset = 3, se_size = 4\<rparr>, FlushOp,
        RewindOp 1, AppendOp \<lparr>se_offset = 5, se_size = 6\<rparr>, FlushOp, SavePruneOp [1], RewindOp 0, ReopenOp] f = Some (Inr f') \<and>
     data_read read_size_entry f' 1 = Some (Some \<lparr>se_offset = 5, se_size = 6\<rparr>) \<and> data_read read_size_entry f' 2 = Some None"
proof -
  let ?ops = "[AppendOp \<lparr>se_offset = 1, se_size = 2\<rparr>, AppendOp \<lparr>se_offset = 3, se_size = 4\<rparr>, FlushOp,
        RewindOp 1, AppendOp \<lparr>se_offset = 5, se_size = 6\<rparr>, FlushOp, SavePruneOp [1], RewindOp 0, ReopenOp]"
  let ?j = "\<lparr>j_committed = [\<lparr>se_offset = 5, se_size = 6\<rparr>], j_current = [\<lparr>se_offset = 5, se_size = 6\<rparr>], j_clean = True, j_synced = True\<rparr>"
  have "journal_run None (\<lambda>e. se_offset e < u64_size \<and> se_size e < 65536) write_size_entry ?ops journal_empty = Some ?j"
    by (simp add: journal_empty_def fits_def nths_Cons Let_def)
  from file_refines_journal [OF size_file.stored_axioms _ this] obtain f f' where
    "open_file read_size_entry None [] [] = Some f" "file_run read_size_entry write_size_entry ?ops f = Some (Inr f')"
    and r: "\<forall>pos. data_read read_size_entry f' (Suc pos) =
      Some (if pos < length (j_current ?j) then Some (j_current ?j ! pos) else None)" by blast
  moreover have "data_read read_size_entry f' 1 = Some (Some \<lparr>se_offset = 5, se_size = 6\<rparr>)" "data_read read_size_entry f' 2 = Some None"
    using r [rule_format, of 0] r [rule_format, of 1] by (simp_all add: numeral_2_eq_2)
  ultimately show ?thesis by blast
qed

end
