(* ===== verification/Store_Pmmr.thy ===== *)
theory Store_Pmmr
  imports Pmmr Leaf_Set Store_File
begin

text \<open>
  The store behind a prunable range, \<open>store/src/pmmr.rs\<close>: a hash file and a data file, from which the
  compacted positions are missing, a leaf set of the elements that have not been removed and a prune list
  that knows what was compacted. \<open>store_backend\<close> is the \<open>Backend\<close> trait on it. The bitmap library is the
  parameter \<open>K\<close>; the elements of a data file come with their codec \<open>put\<close> and \<open>get\<close>. The files that
  \<open>clean_rewind_files\<close> deletes and the snapshots of the leaf set are not modelled.
\<close>

section \<open>Definitions\<close>

typedef hash = "{bs :: u8 list. length bs = 32}"
  morphisms hash_bytes hash_of
  by (rule exI [of _ "replicate 32 0"]) simp

definition HASH_LEN :: usize where "HASH_LEN = 32"

definition read_hash :: "hash read" where
  "read_hash = read_bind (read_fixed_bytes 32) (\<lambda>v. read_ok (hash_of v))"

definition write_hash :: "hash \<Rightarrow> u8 list" where
  "write_hash h = hash_bytes h"

record 'bm pmmr_backend =
  pb_prunable :: bool
  pb_hash_file :: aof
  pb_data_file :: aof
  pb_leaf_set :: "'bm leaf_set"
  pb_prune_list :: "'bm prune_list"

fun append_hashes :: "aof \<Rightarrow> hash list \<Rightarrow> aof io" where
  "append_hashes f [] = Some (Inr f)"
| "append_hashes f (h # hs) = io_bind (data_append write_hash f h) (\<lambda>(_, f'). append_hashes f' hs)"

definition backend_append :: "'bm bitmap_ops \<Rightarrow> ('e \<Rightarrow> u8 list) \<Rightarrow> ('t \<Rightarrow> 'e) \<Rightarrow> 'bm pmmr_backend \<Rightarrow> 't \<Rightarrow> hash list \<Rightarrow> (string + 'bm pmmr_backend) option" where
  "backend_append K put as_elmt b data hashes =
     (case data_append put (pb_data_file b) (as_elmt data) of None \<Rightarrow> None
      | Some (Inl e) \<Rightarrow> Some (Inl ''Failed to append data to file.'')
      | Some (Inr (sz, data_file)) \<Rightarrow>
         (case append_hashes (pb_hash_file b) hashes of None \<Rightarrow> None
          | Some (Inl e) \<Rightarrow> Some (Inl ''Failed to append hash to file.'')
          | Some (Inr hash_file) \<Rightarrow>
              let b' = b\<lparr>pb_data_file := data_file, pb_hash_file := hash_file\<rparr> in
              if pb_prunable b then
                map_option (\<lambda>shift.
                    let pos = insertion_to_pmmr_index (u64_add sz shift)
                    in Inr (b'\<lparr>pb_leaf_set := leaf_set_add K (pb_leaf_set b) pos\<rparr>))
                  (get_total_leaf_shift K (pb_prune_list b))
              else Some (Inr b')))"

definition is_compacted :: "'bm bitmap_ops \<Rightarrow> 'bm pmmr_backend \<Rightarrow> u64 \<Rightarrow> bool" where
  "is_compacted K b pos \<longleftrightarrow> is_pruned K (pb_prune_list b) pos \<and> \<not> is_pruned_root K (pb_prune_list b) pos"

definition backend_get_from_file :: "'bm bitmap_ops \<Rightarrow> 'bm pmmr_backend \<Rightarrow> u64 \<Rightarrow> hash option option" where
  "backend_get_from_file K b position =
     (if is_compacted K b position then Some None
      else Option.bind (get_shift K (pb_prune_list b) position) (\<lambda>shift.
        data_read read_hash (pb_hash_file b) (u64_sub position shift)))"

definition backend_get_data_from_file :: "'bm bitmap_ops \<Rightarrow> 'e read \<Rightarrow> 'bm pmmr_backend \<Rightarrow> u64 \<Rightarrow> 'e option option" where
  "backend_get_data_from_file K get b position =
     (if \<not> is_leaf position then Some None
      else if is_compacted K b position then Some None
      else let flatfile_pos = n_leaves position in
        Option.bind (get_leaf_shift K (pb_prune_list b) position) (\<lambda>shift.
          data_read get (pb_data_file b) (u64_sub flatfile_pos shift)))"

definition backend_get_hash :: "'bm bitmap_ops \<Rightarrow> 'bm pmmr_backend \<Rightarrow> u64 \<Rightarrow> hash option option" where
  "backend_get_hash K b pos =
     (if pb_prunable b \<and> is_leaf pos \<and> \<not> leaf_set_includes K (pb_leaf_set b) pos then Some None
      else backend_get_from_file K b pos)"

definition backend_get_data :: "'bm bitmap_ops \<Rightarrow> 'e read \<Rightarrow> 'bm pmmr_backend \<Rightarrow> u64 \<Rightarrow> 'e option option" where
  "backend_get_data K get b pos =
     (if \<not> is_leaf pos then Some None
      else if pb_prunable b \<and> \<not> leaf_set_includes K (pb_leaf_set b) pos then Some None
      else backend_get_data_from_file K get b pos)"

definition backend_leaf_pos_iter :: "'bm bitmap_ops \<Rightarrow> 'bm pmmr_backend \<Rightarrow> u64 list option" where
  "backend_leaf_pos_iter K b = (if pb_prunable b then Some (leaf_set_iter K (pb_leaf_set b)) else None)"

definition backend_rewind :: "'bm bitmap_ops \<Rightarrow> 'bm pmmr_backend \<Rightarrow> u64 \<Rightarrow> 'bm \<Rightarrow> (string + 'bm pmmr_backend) option" where
  "backend_rewind K b position rewind_rm_pos =
     (let b1 = (if pb_prunable b then b\<lparr>pb_leaf_set := leaf_set_rewind K (pb_leaf_set b) position rewind_rm_pos\<rparr> else b) in
      Option.bind (get_shift K (pb_prune_list b) position) (\<lambda>shift.
        let b2 = b1\<lparr>pb_hash_file := aof_rewind (pb_hash_file b) (u64_sub position shift)\<rparr>;
            flatfile_pos = n_leaves position in
        Option.bind (get_leaf_shift K (pb_prune_list b) position) (\<lambda>leaf_shift.
          Some (Inr (b2\<lparr>pb_data_file := aof_rewind (pb_data_file b) (u64_sub flatfile_pos leaf_shift)\<rparr>)))))"

text \<open>\<open>remove\<close> asserts that the range is prunable.\<close>

definition backend_remove :: "'bm bitmap_ops \<Rightarrow> 'bm pmmr_backend \<Rightarrow> u64 \<Rightarrow> (string + 'bm pmmr_backend) option" where
  "backend_remove K b pos =
     (if pb_prunable b then Some (Inr (b\<lparr>pb_leaf_set := leaf_set_remove K (pb_leaf_set b) pos\<rparr>)) else None)"

text \<open>The trait as a record. It has no room for a panic inside the backend: where one would occur the
  reads give \<open>None\<close> and the writes an error.\<close>

definition panic_err :: "(string + 'a) option \<Rightarrow> string + 'a" where
  "panic_err r = (case r of Some x \<Rightarrow> x | None \<Rightarrow> Inl ''panic'')"

definition store_backend :: "'bm bitmap_ops \<Rightarrow> ('e \<Rightarrow> u8 list) \<Rightarrow> 'e read \<Rightarrow> ('t \<Rightarrow> 'e) \<Rightarrow> ('bm pmmr_backend, 't, 'e, hash, 'bm) backend" where
  "store_backend K put get as_elmt = \<lparr>
     be_append = (\<lambda>b x hs. panic_err (backend_append K put as_elmt b x hs)),
     be_rewind = (\<lambda>b pos rm. panic_err (backend_rewind K b pos rm)),
     be_get_hash = (\<lambda>b pos. Option.bind (backend_get_hash K b pos) id),
     be_get_data = (\<lambda>b pos. Option.bind (backend_get_data K get b pos) id),
     be_get_from_file = (\<lambda>b pos. Option.bind (backend_get_from_file K b pos) id),
     be_get_data_from_file = (\<lambda>b pos. Option.bind (backend_get_data_from_file K get b pos) id),
     be_leaf_pos_iter = backend_leaf_pos_iter K,
     be_remove = backend_remove K\<rparr>"

definition backend_unpruned_size :: "'bm bitmap_ops \<Rightarrow> 'bm pmmr_backend \<Rightarrow> u64 option" where
  "backend_unpruned_size K b =
     Option.bind (data_size (pb_hash_file b)) (\<lambda>hash_size. map_option (u64_add hash_size) (get_total_shift K (pb_prune_list b)))"

text \<open>\<open>sync\<close> and \<open>discard\<close>.\<close>

definition backend_sync :: "'bm pmmr_backend \<Rightarrow> 'bm pmmr_backend io" where
  "backend_sync b =
     io_bind (aof_flush (pb_hash_file b)) (\<lambda>hash_file.
       io_bind (aof_flush (pb_data_file b)) (\<lambda>data_file.
         Some (Inr (b\<lparr>pb_hash_file := hash_file, pb_data_file := data_file,
           pb_leaf_set := if pb_prunable b then leaf_set_flush (pb_leaf_set b) else pb_leaf_set b\<rparr>))))"

definition backend_discard :: "'bm pmmr_backend \<Rightarrow> 'bm pmmr_backend" where
  "backend_discard b = b\<lparr>pb_hash_file := aof_discard (pb_hash_file b), pb_data_file := aof_discard (pb_data_file b),
     pb_leaf_set := leaf_set_discard (pb_leaf_set b)\<rparr>"

text \<open>Compaction. The loop of \<open>pos_to_rm\<close> climbs while the sibling is or was pruned; \<open>None\<close> if it does
  not end.\<close>

partial_function (option) expand_loop :: "'bm bitmap_ops \<Rightarrow> 'bm prune_list \<Rightarrow> 'bm \<Rightarrow> u64 \<Rightarrow> 'bm option" where
  "expand_loop K pl expanded current =
     (let (parent, sibling) = family current;
          sibling_pruned = is_pruned_root K pl sibling;
          expanded = (if sibling_pruned then bm_add K expanded (as_u32 sibling) else expanded)
      in if sibling_pruned \<or> bm_contains K expanded (as_u32 sibling)
         then expand_loop K pl (bm_add K expanded (as_u32 parent)) parent
         else Some expanded)"

fun expand_leaves :: "'bm bitmap_ops \<Rightarrow> 'bm prune_list \<Rightarrow> 'bm \<Rightarrow> u32 list \<Rightarrow> 'bm option" where
  "expand_leaves K pl expanded [] = Some expanded"
| "expand_leaves K pl expanded (x # xs) =
     Option.bind (expand_loop K pl (bm_add K expanded x) x) (\<lambda>expanded. expand_leaves K pl expanded xs)"

definition removed_excl_roots :: "'bm bitmap_ops \<Rightarrow> 'bm \<Rightarrow> 'bm" where
  "removed_excl_roots K removed =
     bm_collect K (filter (\<lambda>pos. bm_contains K removed (as_u32 (fst (family pos)))) (bm_iter K removed))"

definition pos_to_rm :: "'bm bitmap_ops \<Rightarrow> 'bm pmmr_backend \<Rightarrow> u64 \<Rightarrow> 'bm \<Rightarrow> ('bm \<times> 'bm) option" where
  "pos_to_rm K b cutoff_pos rewind_rm_pos =
     (let leaf_pos_to_rm = removed_pre_cutoff K (pb_leaf_set b) cutoff_pos rewind_rm_pos (pb_prune_list b) in
      map_option (\<lambda>expanded. (leaf_pos_to_rm, removed_excl_roots K expanded))
        (expand_leaves K (pb_prune_list b) (bm_create K) (bm_iter K leaf_pos_to_rm)))"

definition map_opt :: "('a \<Rightarrow> 'b option) \<Rightarrow> 'a list \<Rightarrow> 'b list option" where
  "map_opt f xs = (if list_all (\<lambda>x. f x \<noteq> None) xs then Some (List.map_filter f xs) else None)"

fun prune_leaves :: "'bm bitmap_ops \<Rightarrow> 'bm prune_list \<Rightarrow> u32 list \<Rightarrow> 'bm prune_list option" where
  "prune_leaves K pl [] = Some pl"
| "prune_leaves K pl (pos # ps) = Option.bind (prune_list_add K pl pos) (\<lambda>pl'. prune_leaves K pl' ps)"

definition check_compact :: "'bm bitmap_ops \<Rightarrow> ('e \<Rightarrow> u8 list) \<Rightarrow> 'e read \<Rightarrow> 'bm pmmr_backend \<Rightarrow> u64 \<Rightarrow> 'bm \<Rightarrow> 'bm pmmr_backend option" where
  "check_compact K put get b cutoff_pos rewind_rm_pos =
     (if \<not> pb_prunable b then None
      else Option.bind (pos_to_rm K b cutoff_pos rewind_rm_pos) (\<lambda>(leaves_removed, rm).
        Option.bind (map_opt (\<lambda>pos. map_option (u64_sub pos) (get_shift K (pb_prune_list b) pos)) (bm_iter K rm)) (\<lambda>hash_rm.
        Option.bind (data_save_prune read_hash write_hash (pb_hash_file b) hash_rm) (\<lambda>hash_file.
        Option.bind (map_opt (\<lambda>pos. map_option (u64_sub (n_leaves pos)) (get_leaf_shift K (pb_prune_list b) pos))
            (filter is_leaf (bm_iter K rm))) (\<lambda>data_rm.
        Option.bind (data_save_prune get put (pb_data_file b) data_rm) (\<lambda>data_file.
        Option.bind (prune_leaves K (pb_prune_list b) (bm_iter K leaves_removed)) (\<lambda>pl.
        Option.bind (prune_list_flush K pl) (\<lambda>pl'.
          Some (b\<lparr>pb_hash_file := hash_file, pb_data_file := data_file, pb_prune_list := pl',
            pb_leaf_set := leaf_set_flush (pb_leaf_set b)\<rparr>)))))))))"

section \<open>What is kept in the files\<close>

text \<open>The hashes and the elements at the positions that have not been compacted.\<close>

definition kept_hashes :: "nat set \<Rightarrow> 'a list \<Rightarrow> 'a list" where
  "kept_hashes R H = nths H {i. Suc i \<notin> compacted R}"

definition kept_data :: "nat set \<Rightarrow> 'a list \<Rightarrow> 'a list" where
  "kept_data R E = nths E {m. node_pos m 0 \<notin> compacted R}"

lemma nths_nth:
  assumes "i < length xs" and "i \<in> A"
  shows "nths xs A ! card {j \<in> A. j < i} = xs ! i" and "card {j \<in> A. j < i} < length (nths xs A)"
proof -
  have len: "length (nths (take i xs) A) = card {j \<in> A. j < i}"
    using assms(1) by (simp add: length_nths min_absorb2 conj_commute)
  have "xs = take i xs @ xs ! i # drop (Suc i) xs" using assms(1) by (rule id_take_nth_drop)
  then have "nths xs A = nths (take i xs @ xs ! i # drop (Suc i) xs) A" by simp
  also have "\<dots> = nths (take i xs) A @ xs ! i # nths (drop (Suc i) xs) {j. Suc j + i \<in> A}"
    using assms by (simp add: nths_append nths_Cons min_absorb2)
  finally show "nths xs A ! card {j \<in> A. j < i} = xs ! i" "card {j \<in> A. j < i} < length (nths xs A)"
    by (simp_all add: nth_append len)
qed

lemma nths_all_behind:
  assumes "k \<le> length xs" and "{k..<length xs} \<subseteq> A"
  shows "nths xs A = nths (take k xs) A @ drop k xs"
proof -
  have "nths (drop k xs) {j. j + k \<in> A} = drop k xs"
    by (rule nths_all) (use assms in auto)
  then show ?thesis using nths_append [of "take k xs" "drop k xs" A] assms(1) by (simp add: min_absorb2)
qed

lemma card_below_keep:
  fixes c :: "nat set"
  shows "card {j \<in> - c. j < i} = i - card {j \<in> c. j < i}"
proof -
  have "{j \<in> - c. j < i} = {..<i} - {j \<in> c. j < i}" by auto
  then show ?thesis using card_Diff_subset [of "{j \<in> c. j < i}" "{..<i}"] by auto
qed

lemma compacted_gt_0: "q \<in> compacted R \<Longrightarrow> 0 < q"
  by (simp add: compacted_def covered_def)

lemma hash_rank:
  assumes "0 < p" and "p \<notin> compacted R"
  shows "card {j \<in> {i. Suc i \<notin> compacted R}. j < p - 1} = p - 1 - card {q \<in> compacted R. q \<le> p}"
proof -
  have "{q \<in> compacted R. q \<le> p} = Suc ` {j \<in> {i. Suc i \<in> compacted R}. j < p - 1}"
  proof (intro set_eqI iffI)
    fix q assume "q \<in> {q \<in> compacted R. q \<le> p}"
    then have "0 < q" "q \<noteq> p" "q \<le> p" "q \<in> compacted R" using assms(2) compacted_gt_0 by auto
    then show "q \<in> Suc ` {j \<in> {i. Suc i \<in> compacted R}. j < p - 1}" by (intro image_eqI [of _ _ "q - 1"]) auto
  qed (use assms(1) in auto)
  then have "card {q \<in> compacted R. q \<le> p} = card {j \<in> {i. Suc i \<in> compacted R}. j < p - 1}" by (simp add: card_image)
  moreover have "{i. Suc i \<notin> compacted R} = - {i. Suc i \<in> compacted R}" by auto
  ultimately show ?thesis using card_below_keep [of "{i. Suc i \<in> compacted R}" "p - 1"] by simp
qed

lemma leaf_pos_less: "node_pos j 0 < node_pos m 0 \<longleftrightarrow> j < m"
  by (simp add: node_pos_def mmr_size_less_iff)

lemma leaf_cases: "0 < q \<Longrightarrow> is_leaf q \<Longrightarrow> \<exists>m. q = node_pos m 0"
  using node_cases [of q] is_leaf_node by metis

lemma data_rank:
  assumes "node_pos m 0 \<notin> compacted R"
  shows "card {j \<in> {j. node_pos j 0 \<notin> compacted R}. j < m} = m - card {q \<in> compacted R. q \<le> node_pos m 0 \<and> is_leaf q}"
proof -
  have "{q \<in> compacted R. q \<le> node_pos m 0 \<and> is_leaf q} = (\<lambda>j. node_pos j 0) ` {j \<in> {j. node_pos j 0 \<in> compacted R}. j < m}"
  proof (intro set_eqI iffI)
    fix q assume q: "q \<in> {q \<in> compacted R. q \<le> node_pos m 0 \<and> is_leaf q}"
    then obtain j where j: "q = node_pos j 0" using leaf_cases [of q] compacted_gt_0 [of q R] by auto
    with q assms have "node_pos j 0 < node_pos m 0" by (metis (lifting) le_neq_trans mem_Collect_eq)
    with j q show "q \<in> (\<lambda>j. node_pos j 0) ` {j \<in> {j. node_pos j 0 \<in> compacted R}. j < m}" by (auto simp: leaf_pos_less)
  next
    fix q assume "q \<in> (\<lambda>j. node_pos j 0) ` {j \<in> {j. node_pos j 0 \<in> compacted R}. j < m}"
    then obtain j where "q = node_pos j 0" "node_pos j 0 \<in> compacted R" "j < m" by blast
    then show "q \<in> {q \<in> compacted R. q \<le> node_pos m 0 \<and> is_leaf q}" using leaf_pos_less [of j m] by (simp add: is_leaf_node)
  qed
  then have "card {q \<in> compacted R. q \<le> node_pos m 0 \<and> is_leaf q} = card {j \<in> {j. node_pos j 0 \<in> compacted R}. j < m}"
    by (simp add: card_image inj_leaf_pos)
  moreover have "{j. node_pos j 0 \<notin> compacted R} = - {j. node_pos j 0 \<in> compacted R}" by auto
  ultimately show ?thesis using card_below_keep [of "{j. node_pos j 0 \<in> compacted R}" m] by simp
qed

text \<open>The last position of a range is not compacted if nothing behind it is.\<close>

lemma last_not_compacted:
  assumes ac: "antichain R" and c: "compacted R \<subseteq> {..mmr_size k}"
  shows "mmr_size k \<notin> compacted R"
proof
  assume "mmr_size k \<in> compacted R"
  then obtain r where r: "r \<in> R" "beneath (mmr_size k) r" "mmr_size k \<noteq> r" "0 < mmr_size k"
    by (auto simp: compacted_def covered_def)
  have gt: "mmr_size k < r" using under_le [OF r(4,2)] r(3) by simp
  have nl: "\<not> is_leaf r"
  proof
    assume "is_leaf r"
    then have "{q. 0 < q \<and> beneath q r} = {r}" using gt by (intro under_leaf) simp
    then show False using r(2-4) by blast
  qed
  obtain m h where m: "node m h" "r = node_pos m h" using node_cases [of r] gt by auto
  obtain i where i: "h = Suc i" using nl m by (cases h) (simp_all add: is_leaf_node)
  have r1: "r - 1 = node_pos m i" using m i by (simp add: node_pos_Suc)
  have "parent_of (node_pos m i) = r" using children_node(3) [of m i] m i by simp
  then have b: "beneath (r - 1) r" "0 < r - 1" using under_parent [of "node_pos m i"] unfolding r1 by simp_all
  then have "r - 1 \<notin> R" using r(1) ac gt unfolding antichain_def by (metis Suc_pred' diff_Suc_1 less_numeral_extra(3) n_not_Suc_n order_less_trans zero_less_diff)
  then have "r - 1 \<in> compacted R" using b r(1) unfolding compacted_def covered_def by blast
  then have "r = Suc (mmr_size k)" using c gt by auto
  then show False using nl is_leaf_node [of k 0] by (simp add: node_pos_def)
qed

lemma hash_bytes_hash_of [simp]: "length bs = 32 \<Longrightarrow> hash_bytes (hash_of bs) = bs"
  by (simp add: hash_of_inverse)

lemma length_hash_bytes [simp]: "length (hash_bytes h) = 32"
  using hash_bytes [of h] by simp

interpretation hash_codec: codec write_hash read_hash "\<lambda>_. True"
  by unfold_locales (unfold write_hash_def read_hash_def,
      rule reads_last [OF reads_fixed_bytes], simp_all add: MAX_FIXED_READ_def hash_bytes_inverse reads_ok_eq)

interpretation hash_file: stored write_hash read_hash "\<lambda>_. True"
proof
  fix h :: hash and n rest assume "n < u64_size"
  moreover have "counts read_hash (write_hash h) h"
    unfolding write_hash_def read_hash_def
    by (rule counts_last [OF counts_fixed_bytes]) (simp_all add: hash_bytes_inverse counts_ok_eq)
  ultimately show "read_hash (StreamingReader n (write_hash h @ rest)) = Some (Inr h, StreamingReader (u64_add n (length (write_hash h))) rest)"
    unfolding counts_def by blast
next
  fix n show "\<exists>e r. read_hash (StreamingReader n []) = Some (Inl e, r)"
    unfolding read_hash_def using read_bind_end [of "read_fixed_bytes 32" "StreamingReader n []", OF fixed_bytes_end(2)] by fastforce
next
  show "\<exists>e r. read_hash (BinReader []) = Some (Inl e, r)"
    unfolding read_hash_def using read_bind_end [of "read_fixed_bytes 32" "BinReader []", OF fixed_bytes_end(1)]
    by (fastforce simp: MAX_FIXED_READ_def)
qed (simp_all add: write_hash_def)

section \<open>The state of a store\<close>

definition pruned_roots :: "'bm bitmap_ops \<Rightarrow> 'bm pmmr_backend \<Rightarrow> nat set" where
  "pruned_roots K b = elems K (pl_bitmap (pb_prune_list b))"

definition range_ok :: "'h list \<Rightarrow> 'e list \<Rightarrow> bool" where
  "range_ok H E \<longleftrightarrow> length H = mmr_size (length E) \<and> 2 * mmr_size (length E) < u32_size"

text \<open>The prune list is in order and nothing behind the range is compacted.\<close>

definition list_ok :: "'bm bitmap_ops \<Rightarrow> 'bm pmmr_backend \<Rightarrow> bool" where
  "list_ok K b \<longleftrightarrow> (\<exists>N. prune_ok K N (pb_prune_list b)) \<and> caches_ok K (pb_prune_list b)"

text \<open>\<open>store_holds K put ok l b H0 E0 H E\<close>: the hashes \<open>H0\<close> and elements \<open>E0\<close> are on disk, \<open>H\<close> and \<open>E\<close> are
  the current ones, up to what was compacted.\<close>

definition store_holds :: "'bm bitmap_ops \<Rightarrow> ('e \<Rightarrow> u8 list) \<Rightarrow> ('e \<Rightarrow> bool) \<Rightarrow> nat option \<Rightarrow> 'bm pmmr_backend \<Rightarrow> hash list \<Rightarrow> 'e list \<Rightarrow> hash list \<Rightarrow> 'e list \<Rightarrow> bool" where
  "store_holds K put ok l b H0 E0 H E \<longleftrightarrow> list_ok K b \<and>
     range_ok H0 E0 \<and> range_ok H E \<and> list_all ok E0 \<and> list_all ok E \<and>
     compacted (pruned_roots K b) \<subseteq> {..mmr_size (length E0)} \<and> compacted (pruned_roots K b) \<subseteq> {..mmr_size (length E)} \<and>
     file_holds write_hash (pb_hash_file b) (kept_hashes (pruned_roots K b) H0) (kept_hashes (pruned_roots K b) H) \<and>
     elmt_len (pb_hash_file b) = Some HASH_LEN \<and>
     file_holds put (pb_data_file b) (kept_data (pruned_roots K b) E0) (kept_data (pruned_roots K b) E) \<and>
     elmt_len (pb_data_file b) = l \<and>
     leaves K (pb_leaf_set b) \<subseteq> {..<u32_size} \<and> elems K (ls_bitmap_bak (pb_leaf_set b)) \<subseteq> {..<u32_size}"

lemma list_ok_facts:
  assumes "bitmap_laws K" and "list_ok K b"
  shows "antichain (pruned_roots K b)" and "finite (compacted (pruned_roots K b))"
    and "q < u32_size \<Longrightarrow> is_compacted K b q \<longleftrightarrow> q \<in> compacted (pruned_roots K b)"
    and "q < u32_size \<Longrightarrow> 0 < q \<Longrightarrow> q \<notin> compacted (pruned_roots K b) \<Longrightarrow>
      get_shift K (pb_prune_list b) q = Some (card {p \<in> compacted (pruned_roots K b). p \<le> q}) \<and>
      get_leaf_shift K (pb_prune_list b) q = Some (card {p \<in> compacted (pruned_roots K b). p \<le> q \<and> is_leaf p})"
    and "get_shift K (pb_prune_list b) 0 = Some 0" and "get_leaf_shift K (pb_prune_list b) 0 = Some 0"
proof -
  obtain N where N: "prune_ok K N (pb_prune_list b)" and c: "caches_ok K (pb_prune_list b)" using assms(2) by (auto simp: list_ok_def)
  have inv: "prune_inv (pruned_roots K b) (elems K (pl_pruned_cache (pb_prune_list b)))"
    using N by (simp add: prune_ok_def pruned_roots_def)
  then show "antichain (pruned_roots K b)" by (simp add: prune_inv_def)
  have C: "elems K (pl_pruned_cache (pb_prune_list b)) = covered (pruned_roots K b)" using inv by (simp add: prune_inv_def)
  show "finite (compacted (pruned_roots K b))" unfolding compacted_def C [symmetric] by simp
  show "is_compacted K b q \<longleftrightarrow> q \<in> compacted (pruned_roots K b)" if "q < u32_size"
    using that C by (simp add: is_compacted_def is_pruned_def is_pruned_root_def bitmap_queries [OF assms(1)] width compacted_def
        pruned_roots_def)
  show "q < u32_size \<Longrightarrow> 0 < q \<Longrightarrow> q \<notin> compacted (pruned_roots K b) \<Longrightarrow>
      get_shift K (pb_prune_list b) q = Some (card {p \<in> compacted (pruned_roots K b). p \<le> q}) \<and>
      get_leaf_shift K (pb_prune_list b) q = Some (card {p \<in> compacted (pruned_roots K b). p \<le> q \<and> is_leaf p})"
    using get_shift_count [OF assms(1) N c, of q] by (simp add: pruned_roots_def)
  have "{y \<in> elems K (pl_bitmap (pb_prune_list b)). y \<le> 0} = {}"
    using prune_ok_range(1) [OF N] by auto
  then show "get_shift K (pb_prune_list b) 0 = Some 0" "get_leaf_shift K (pb_prune_list b) 0 = Some 0"
    by (simp_all add: get_shift_def get_leaf_shift_def read_shift_def bitmap_queries [OF assms(1)] width)
qed

lemma total_leaf_shift:
  assumes K: "bitmap_laws K" and ok: "list_ok K b"
  shows "get_total_leaf_shift K (pb_prune_list b) = Some (card {p \<in> compacted (pruned_roots K b). is_leaf p})"
    and "get_total_shift K (pb_prune_list b) = Some (card (compacted (pruned_roots K b)))"
proof -
  let ?R = "pruned_roots K b"
  obtain N where N: "prune_ok K N (pb_prune_list b)" using ok by (auto simp: list_ok_def)
  have mx: "bm_maximum K (pl_bitmap (pb_prune_list b)) = (if ?R = {} then 0 else Max ?R)"
    by (simp add: bitmap_queries [OF K] pruned_roots_def)
  show "get_total_leaf_shift K (pb_prune_list b) = Some (card {p \<in> compacted ?R. is_leaf p})"
    "get_total_shift K (pb_prune_list b) = Some (card (compacted ?R))"
  proof (atomize (full), cases "?R = {}")
    case True
    then have "compacted ?R = {}" by (simp add: compacted_def covered_def)
    then show "get_total_leaf_shift K (pb_prune_list b) = Some (card {p \<in> compacted ?R. is_leaf p}) \<and>
        get_total_shift K (pb_prune_list b) = Some (card (compacted ?R))"
      using list_ok_facts(5,6) [OF K ok] True mx by (simp add: get_total_leaf_shift_def get_total_shift_def)
  next
    case False
    have fin: "finite ?R" by (simp add: pruned_roots_def)
    have m: "Max ?R \<in> ?R" using Max_in [OF fin False] .
    then have "0 < Max ?R" "Max ?R < u32_size" "Max ?R \<notin> compacted ?R"
      using prune_ok_range [OF N] by (simp_all add: pruned_roots_def compacted_def)
    moreover have "p \<le> Max ?R" if "p \<in> compacted ?R" for p
    proof -
      obtain r where "r \<in> ?R" "beneath p r" "0 < p" using \<open>p \<in> compacted ?R\<close> by (auto simp: compacted_def covered_def)
      then show ?thesis using under_le [of p r] Max_ge [OF fin] by fastforce
    qed
    then have "{p \<in> compacted ?R. p \<le> Max ?R} = compacted ?R" "{p \<in> compacted ?R. p \<le> Max ?R \<and> is_leaf p} = {p \<in> compacted ?R. is_leaf p}"
      by blast+
    ultimately show "get_total_leaf_shift K (pb_prune_list b) = Some (card {p \<in> compacted ?R. is_leaf p}) \<and>
        get_total_shift K (pb_prune_list b) = Some (card (compacted ?R))"
      using list_ok_facts(4) [OF K ok, of "Max ?R"] False mx by (simp add: get_total_leaf_shift_def get_total_shift_def)
  qed
qed

lemma length_nths_le: "length (nths xs A) \<le> length xs"
proof -
  have "card {i. i < length xs \<and> i \<in> A} \<le> card {..<length xs}" by (rule card_mono) auto
  then show ?thesis by (simp add: length_nths)
qed

lemma kept_hashes_append:
  assumes "compacted R \<subseteq> {..length H}"
  shows "kept_hashes R (H @ hs) = kept_hashes R H @ hs"
proof -
  have "nths hs {j. j + length H \<in> {i. Suc i \<notin> compacted R}} = hs" by (rule nths_all) (use assms in auto)
  then show ?thesis by (simp add: kept_hashes_def nths_append)
qed

lemma kept_data_append:
  assumes "compacted R \<subseteq> {..mmr_size (length E)}"
  shows "kept_data R (E @ [e]) = kept_data R E @ [e]"
proof -
  have "node_pos (length E) 0 \<notin> compacted R" using assms by (auto simp: node_pos_def)
  then show ?thesis by (simp add: kept_data_def nths_append)
qed

lemma kept_hashes_take:
  assumes "compacted R \<subseteq> {..n}" and "n \<le> length H"
  shows "kept_hashes R H = kept_hashes R (take n H) @ drop n H"
  using kept_hashes_append [of R "take n H" "drop n H"] assms by (simp add: min_absorb2)

lemma kept_data_take:
  assumes "compacted R \<subseteq> {..mmr_size k}" and "k \<le> length E"
  shows "kept_data R E = kept_data R (take k E) @ drop k E"
proof -
  have "{k..<length E} \<subseteq> {m. node_pos m 0 \<notin> compacted R}"
  proof
    fix m assume "m \<in> {k..<length E}"
    then have "mmr_size k < node_pos m 0" using mmr_size_le_iff [of k m] by (simp add: node_pos_def)
    then show "m \<in> {m. node_pos m 0 \<notin> compacted R}" using assms(1) by auto
  qed
  then show ?thesis unfolding kept_data_def using nths_all_behind [OF assms(2)] by simp
qed

lemma length_kept_hashes:
  assumes "compacted R \<subseteq> {..length H}"
  shows "length (kept_hashes R H) = length H - card (compacted R)"
proof -
  have "{i. i < length H \<and> i \<in> {i. Suc i \<notin> compacted R}} = {j \<in> - {i. Suc i \<in> compacted R}. j < length H}" by auto
  moreover have "compacted R = Suc ` {j \<in> {i. Suc i \<in> compacted R}. j < length H}"
  proof (intro set_eqI iffI)
    fix q assume "q \<in> compacted R"
    then show "q \<in> Suc ` {j \<in> {i. Suc i \<in> compacted R}. j < length H}"
      using assms compacted_gt_0 [of q R] by (intro image_eqI [of _ _ "q - 1"]) auto
  qed auto
  then have "card (compacted R) = card {j \<in> {i. Suc i \<in> compacted R}. j < length H}" using card_image [of Suc] by (metis inj_Suc)
  ultimately show ?thesis
    using card_below_keep [of "{i. Suc i \<in> compacted R}" "length H"] by (simp add: kept_hashes_def length_nths)
qed

lemma length_kept_data:
  assumes "compacted R \<subseteq> {..mmr_size (length E)}"
  shows "length (kept_data R E) = length E - card {p \<in> compacted R. is_leaf p}"
proof -
  let ?c = "{j. node_pos j 0 \<in> compacted R}"
  have "{i. i < length E \<and> i \<in> {m. node_pos m 0 \<notin> compacted R}} = {j \<in> - ?c. j < length E}" by auto
  moreover have "{p \<in> compacted R. is_leaf p} = (\<lambda>j. node_pos j 0) ` {j \<in> ?c. j < length E}"
  proof (intro set_eqI iffI)
    fix q assume q: "q \<in> {p \<in> compacted R. is_leaf p}"
    then obtain j where j: "q = node_pos j 0" using leaf_cases [of q] compacted_gt_0 [of q R] by auto
    then have "j < length E" using q assms node_pos_le_size [of j 0 "length E"] by auto
    with q j show "q \<in> (\<lambda>j. node_pos j 0) ` {j \<in> ?c. j < length E}" by auto
  qed (auto simp: is_leaf_node)
  then have "card {p \<in> compacted R. is_leaf p} = card {j \<in> ?c. j < length E}" by (simp add: card_image inj_leaf_pos)
  ultimately show ?thesis using card_below_keep [of ?c "length E"] by (simp add: kept_data_def length_nths)
qed

lemma append_hashes_holds:
  "file_holds write_hash f C X \<Longrightarrow> elmt_len f = Some HASH_LEN \<Longrightarrow> length X + length hs < u32_size \<Longrightarrow>
   \<exists>f'. append_hashes f hs = Some (Inr f') \<and> file_holds write_hash f' C (X @ hs) \<and> elmt_len f' = Some HASH_LEN"
proof (induction hs arbitrary: f X)
  case (Cons h hs)
  then obtain f1 where f1: "data_append write_hash f h = Some (Inr (length X + 1, f1))" "file_holds write_hash f1 C (X @ [h])"
      "elmt_len f1 = Some HASH_LEN"
    using hash_file.data_append_holds [OF Cons.prems(1), of h] by (auto simp: list_all_iff fits_def HASH_LEN_def write_hash_def)
  then show ?case using Cons.IH [OF f1(2,3)] Cons.prems(3) by auto
qed simp

section \<open>The store keeps the contract of a backend\<close>

locale element_store = stored put get ok
  for put :: "'e \<Rightarrow> u8 list" and get :: "'e read" and ok :: "'e \<Rightarrow> bool" +
  fixes K :: "'bm bitmap_ops" and l :: "nat option" and as_elmt :: "'t \<Rightarrow> 'e"
  assumes K: "bitmap_laws K" and fits_put: "ok x \<Longrightarrow> fits l (put x)" and l_pos: "l \<noteq> Some 0"
begin

lemma get_from_file_store:
  assumes h: "store_holds K put ok l b H0 E0 H E" and p: "0 < p" "p \<le> length H"
  shows "backend_get_from_file K b p = Some (if p \<in> compacted (pruned_roots K b) then None else Some (H ! (p - 1)))"
proof -
  let ?R = "pruned_roots K b"
  have lo: "list_ok K b" and f: "file_holds write_hash (pb_hash_file b) (kept_hashes ?R H0) (kept_hashes ?R H)"
    and u: "p < u32_size" using h p(2) by (simp_all add: store_holds_def range_ok_def)
  show ?thesis
  proof (cases "p \<in> compacted ?R")
    case True
    then show ?thesis using list_ok_facts(3) [OF K lo u] by (simp add: backend_get_from_file_def)
  next
    case False
    let ?s = "card {q \<in> compacted ?R. q \<le> p}"
    have r: "card {j \<in> {i. Suc i \<notin> compacted ?R}. j < p - 1} = p - 1 - ?s" by (rule hash_rank [OF p(1) False])
    have i: "p - 1 < length H" "p - 1 \<in> {i. Suc i \<notin> compacted ?R}" using False p by simp_all
    have n: "kept_hashes ?R H ! (p - 1 - ?s) = H ! (p - 1)" "p - 1 - ?s < length (kept_hashes ?R H)"
      using nths_nth [OF i] unfolding r kept_hashes_def by simp_all
    have "{q \<in> compacted ?R. q \<le> p} \<subseteq> {1..<p}" using False compacted_gt_0 by (force simp: Suc_le_eq le_neq_trans)
    then have s: "?s < p" using card_mono [of "{1..<p}" "{q \<in> compacted ?R. q \<le> p}"] p(1) by simp
    have "data_read read_hash (pb_hash_file b) (p - ?s) = Some (Some (H ! (p - 1)))"
      using hash_file.data_read_holds [OF f, of "p - ?s"] n s by (simp add: list_all_iff)
    then show ?thesis using list_ok_facts(3,4) [OF K lo u] False p(1) s by (simp add: backend_get_from_file_def width)
  qed
qed

lemma get_data_store:
  assumes h: "store_holds K put ok l b H0 E0 H E" and m: "m < length E"
  shows "backend_get_data_from_file K get b (node_pos m 0) =
    Some (if node_pos m 0 \<in> compacted (pruned_roots K b) then None else Some (E ! m))"
proof -
  let ?R = "pruned_roots K b" and ?p = "node_pos m 0"
  have lo: "list_ok K b" and f: "file_holds put (pb_data_file b) (kept_data ?R E0) (kept_data ?R E)" and okE: "list_all ok (kept_data ?R E)"
    and u: "?p < u32_size" using h m node_pos_le_size [of m 0 "length E"]
    by (simp_all add: store_holds_def range_ok_def kept_data_def list_all_part)
  show ?thesis
  proof (cases "?p \<in> compacted ?R")
    case True
    then show ?thesis using list_ok_facts(3) [OF K lo u] by (simp add: backend_get_data_from_file_def is_leaf_node)
  next
    case False
    let ?s = "card {q \<in> compacted ?R. q \<le> ?p \<and> is_leaf q}"
    have r: "card {j \<in> {j. node_pos j 0 \<notin> compacted ?R}. j < m} = m - ?s" by (rule data_rank [OF False])
    have i: "m \<in> {j. node_pos j 0 \<notin> compacted ?R}" using False by simp
    have n: "kept_data ?R E ! (m - ?s) = E ! m" "m - ?s < length (kept_data ?R E)"
      using nths_nth [OF m i] unfolding r kept_data_def by simp_all
    have "{q \<in> compacted ?R. q \<le> ?p \<and> is_leaf q} \<subseteq> (\<lambda>j. node_pos j 0) ` {..<m}"
    proof
      fix q assume q: "q \<in> {q \<in> compacted ?R. q \<le> ?p \<and> is_leaf q}"
      then obtain j where "q = node_pos j 0" using leaf_cases [of q] compacted_gt_0 [of q ?R] by auto
      then show "q \<in> (\<lambda>j. node_pos j 0) ` {..<m}" using q False leaf_pos_less [of j m] by (cases "j = m") (auto simp: le_less)
    qed
    then have "?s \<le> card ((\<lambda>j. node_pos j 0) ` {..<m})" by (intro card_mono) simp_all
    then have s: "?s \<le> m" by (simp add: card_image inj_leaf_pos)
    have "data_read get (pb_data_file b) (Suc m - ?s) = Some (Some (E ! m))"
      using data_read_holds [OF f okE, of "Suc m - ?s"] n s by (simp add: Suc_diff_le)
    then show ?thesis using list_ok_facts(3,4) [OF K lo u] False s
      by (simp add: backend_get_data_from_file_def is_leaf_node n_leaves_leaf width)
  qed
qed

lemma append_store:
  assumes h: "store_holds K put ok l b H0 E0 H E" and x: "ok (as_elmt x)"
    and hs: "length hs = mmr_size (Suc (length E)) - mmr_size (length E)" and sz: "2 * mmr_size (Suc (length E)) < u32_size"
  shows "\<exists>b'. backend_append K put as_elmt b x hs = Some (Inr b') \<and> store_holds K put ok l b' H0 E0 (H @ hs) (E @ [as_elmt x]) \<and>
    pb_prune_list b' = pb_prune_list b \<and> pb_prunable b' = pb_prunable b \<and>
    pb_leaf_set b' = (if pb_prunable b then leaf_set_add K (pb_leaf_set b) (node_pos (length E) 0) else pb_leaf_set b)"
proof -
  let ?R = "pruned_roots K b" and ?n = "length E" and ?e = "as_elmt x"
  have f: "file_holds write_hash (pb_hash_file b) (kept_hashes ?R H0) (kept_hashes ?R H)" "elmt_len (pb_hash_file b) = Some HASH_LEN"
    "file_holds put (pb_data_file b) (kept_data ?R E0) (kept_data ?R E)" "elmt_len (pb_data_file b) = l"
    and lo: "list_ok K b" and okE: "list_all ok E" and H: "length H = mmr_size ?n" and c: "compacted ?R \<subseteq> {..mmr_size ?n}"
    using h by (simp_all add: store_holds_def range_ok_def)
  have lt: "mmr_size ?n < mmr_size (Suc ?n)" by (simp add: mmr_size_less_iff)
  have len: "length (kept_data ?R E) \<le> ?n" "length (kept_hashes ?R H) \<le> mmr_size ?n"
    using length_nths_le [of E] length_nths_le [of H] H by (simp_all add: kept_data_def kept_hashes_def)
  obtain df where df: "data_append put (pb_data_file b) ?e = Some (Inr (length (kept_data ?R E) + 1, df))"
      "file_holds put df (kept_data ?R E0) (kept_data ?R E @ [?e])" "elmt_len df = l"
    using data_append_holds [OF f(3) x] fits_put [OF x] okE len(1) mmr_size_ge [of ?n] lt sz f(4)
    by (auto simp: kept_data_def list_all_part)
  have "length (kept_hashes ?R H) + length hs < u32_size" using len(2) hs lt sz by linarith
  then obtain hf where hf: "append_hashes (pb_hash_file b) hs = Some (Inr hf)" "file_holds write_hash hf (kept_hashes ?R H0) (kept_hashes ?R H @ hs)"
      "elmt_len hf = Some HASH_LEN"
    using append_hashes_holds [OF f(1,2), of hs] by blast
  have le: "card {p \<in> compacted ?R. is_leaf p} \<le> ?n"
  proof -
    have "{p \<in> compacted ?R. is_leaf p} \<subseteq> (\<lambda>j. node_pos j 0) ` {..<?n}"
    proof
      fix q assume q: "q \<in> {p \<in> compacted ?R. is_leaf p}"
      then obtain j where "q = node_pos j 0" using leaf_cases [of q] compacted_gt_0 [of q ?R] by auto
      then show "q \<in> (\<lambda>j. node_pos j 0) ` {..<?n}" using q c node_pos_le_size [of j 0 ?n] by auto
    qed
    then have "card {p \<in> compacted ?R. is_leaf p} \<le> card ((\<lambda>j. node_pos j 0) ` {..<?n})" by (intro card_mono) simp_all
    then show ?thesis by (simp add: card_image inj_leaf_pos)
  qed
  then have pos: "insertion_to_pmmr_index (u64_add (length (kept_data ?R E) + 1) (card {p \<in> compacted ?R. is_leaf p})) = node_pos ?n 0"
    using length_kept_data [OF c] insertion_index [of ?n] mmr_size_ge [of ?n] lt sz by (simp add: width)
  define ls where "ls = (if pb_prunable b then leaf_set_add K (pb_leaf_set b) (node_pos ?n 0) else pb_leaf_set b)"
  let ?b = "b\<lparr>pb_data_file := df, pb_hash_file := hf, pb_leaf_set := ls\<rparr>"
  have "backend_append K put as_elmt b x hs = Some (Inr ?b)"
    using total_leaf_shift(1) [OF K lo] pos by (simp add: backend_append_def df(1) hf(1) Let_def ls_def)
  moreover have "leaves K ls \<subseteq> {..<u32_size} \<and> ls_bitmap_bak ls = ls_bitmap_bak (pb_leaf_set b)"
    using h sz lt by (auto simp: ls_def leaf_set_add_def bitmap_elems [OF K] store_holds_def node_pos_def width)
  then have "store_holds K put ok l ?b H0 E0 (H @ hs) (E @ [?e])"
    using h x df(2,3) hf(2,3) hs sz lt H c kept_data_append [OF c, of ?e] kept_hashes_append [of ?R H hs]
    by (auto simp: store_holds_def pruned_roots_def range_ok_def list_ok_def)
  ultimately show ?thesis by (simp add: ls_def)
qed

lemma rewind_store:
  assumes h: "store_holds K put ok l b H0 E0 H E" and cl: "clean (pb_hash_file b)" "clean (pb_data_file b)" and k: "k \<le> length E"
    and c: "compacted (pruned_roots K b) \<subseteq> {..mmr_size k}" and rm: "elems K rm \<subseteq> {..<u32_size}"
  shows "\<exists>b'. backend_rewind K b (mmr_size k) rm = Some (Inr b') \<and> store_holds K put ok l b' H0 E0 (take (mmr_size k) H) (take k E) \<and>
    pb_prune_list b' = pb_prune_list b \<and> pb_prunable b' = pb_prunable b \<and> clean (pb_hash_file b') \<and> clean (pb_data_file b') \<and>
    pb_leaf_set b' = (if pb_prunable b then leaf_set_rewind K (pb_leaf_set b) (mmr_size k) rm else pb_leaf_set b)"
proof -
  let ?R = "pruned_roots K b" and ?p = "mmr_size k"
  have f: "file_holds write_hash (pb_hash_file b) (kept_hashes ?R H0) (kept_hashes ?R H)" "elmt_len (pb_hash_file b) = Some HASH_LEN"
    "file_holds put (pb_data_file b) (kept_data ?R E0) (kept_data ?R E)" "elmt_len (pb_data_file b) = l"
    and lo: "list_ok K b" and H: "length H = mmr_size (length E)" "2 * mmr_size (length E) < u32_size"
    using h by (simp_all add: store_holds_def range_ok_def)
  have le: "?p \<le> mmr_size (length E)" using k by (simp add: mmr_size_le_iff)
  then have pH: "?p \<le> length H" "?p < u32_size" using H by simp_all
  have notc: "?p \<notin> compacted ?R" using last_not_compacted [OF list_ok_facts(1) [OF K lo] c] .
  have sets: "{q \<in> compacted ?R. q \<le> ?p} = compacted ?R" "{q \<in> compacted ?R. q \<le> ?p \<and> is_leaf q} = {q \<in> compacted ?R. is_leaf q}"
    using c by auto
  have shift: "get_shift K (pb_prune_list b) ?p = Some (card (compacted ?R))"
    "get_leaf_shift K (pb_prune_list b) ?p = Some (card {q \<in> compacted ?R. is_leaf q})"
  proof -
    have "get_shift K (pb_prune_list b) ?p = Some (card (compacted ?R)) \<and>
      get_leaf_shift K (pb_prune_list b) ?p = Some (card {q \<in> compacted ?R. is_leaf q})"
    proof (cases "?p = 0")
      case True
      then have "compacted ?R = {}" using c compacted_gt_0 by fastforce
      then show ?thesis using True list_ok_facts(5,6) [OF K lo] by simp
    next
      case False
      then show ?thesis using list_ok_facts(4) [OF K lo pH(2) _ notc] unfolding sets by simp
    qed
    then show "get_shift K (pb_prune_list b) ?p = Some (card (compacted ?R))"
      "get_leaf_shift K (pb_prune_list b) ?p = Some (card {q \<in> compacted ?R. is_leaf q})" by simp_all
  qed
  have lH: "length (kept_hashes ?R (take ?p H)) = ?p - card (compacted ?R)" using length_kept_hashes [of ?R "take ?p H"] c pH by (simp add: min_absorb2)
  have lE: "length (kept_data ?R (take k E)) = k - card {q \<in> compacted ?R. is_leaf q}" using length_kept_data [of ?R "take k E"] c k by (simp add: min_absorb2)
  have tH: "take (?p - card (compacted ?R)) (kept_hashes ?R H) = kept_hashes ?R (take ?p H)" "?p - card (compacted ?R) \<le> length (kept_hashes ?R H)"
    using kept_hashes_take [OF c pH(1)] lH by simp_all
  have tE: "take (k - card {q \<in> compacted ?R. is_leaf q}) (kept_data ?R E) = kept_data ?R (take k E)"
    "k - card {q \<in> compacted ?R. is_leaf q} \<le> length (kept_data ?R E)"
    using kept_data_take [OF c k] lE by simp_all
  have cards: "card (compacted ?R) \<le> ?p" "card {q \<in> compacted ?R. is_leaf q} \<le> k"
  proof -
    have "compacted ?R \<subseteq> {1..?p}" using c compacted_gt_0 by (force simp: Suc_le_eq)
    then show "card (compacted ?R) \<le> ?p" using card_mono [of "{1..?p}" "compacted ?R"] by simp
    have "{q \<in> compacted ?R. is_leaf q} \<subseteq> {q \<in> {1..?p}. is_leaf q}" using c compacted_gt_0 by (force simp: Suc_le_eq)
    then have "card {q \<in> compacted ?R. is_leaf q} \<le> card {q \<in> {1..?p}. is_leaf q}" by (intro card_mono) simp_all
    also have "{q \<in> {1..?p}. is_leaf q} = (\<lambda>j. node_pos j 0) ` {..<k}" unfolding leaf_positions using node_pos_le_size [of _ 0 k] by auto
    also have "card \<dots> = k" by (simp add: card_image inj_leaf_pos)
    finally show "card {q \<in> compacted ?R. is_leaf q} \<le> k" .
  qed
  define ls where "ls = (if pb_prunable b then leaf_set_rewind K (pb_leaf_set b) ?p rm else pb_leaf_set b)"
  let ?b = "b\<lparr>pb_leaf_set := ls, pb_hash_file := aof_rewind (pb_hash_file b) (?p - card (compacted ?R)),
    pb_data_file := aof_rewind (pb_data_file b) (k - card {q \<in> compacted ?R. is_leaf q})\<rparr>"
  have "backend_rewind K b ?p rm = Some (Inr ?b)"
    using shift cards by (simp add: backend_rewind_def Let_def n_leaves_size width ls_def)
  moreover note rH = file_rewind [OF f(1) cl(1) tH(2)] and rE = file_rewind [OF f(3) cl(2) tE(2)]
  have lls: "leaves K ls \<subseteq> {..<u32_size} \<and> ls_bitmap_bak ls = ls_bitmap_bak (pb_leaf_set b)"
    using h rm leaf_set_rewind_elems [OF K, of "pb_leaf_set b" ?p rm]
    by (auto simp: ls_def store_holds_def leaf_set_rewind_def Let_def)
  have "range_ok (take ?p H) (take k E) \<and> list_all ok (take k E) \<and> compacted ?R \<subseteq> {..mmr_size (length (take k E))}"
    using h pH le k c by (simp add: range_ok_def min_absorb2 store_holds_def list_all_part)
  then have "store_holds K put ok l ?b H0 E0 (take ?p H) (take k E)"
    using h f rH rE tH(1) tE(1) lls by (simp add: store_holds_def pruned_roots_def list_ok_def)
  ultimately show ?thesis using rH(2) rE(2) by (simp add: ls_def)
qed

lemma sync_store:
  assumes h: "store_holds K put ok l b H0 E0 H E"
  shows "\<exists>b'. backend_sync b = Some (Inr b') \<and> store_holds K put ok l b' H E H E \<and> pb_prune_list b' = pb_prune_list b \<and>
    pb_prunable b' = pb_prunable b \<and> synced (pb_hash_file b') \<and> synced (pb_data_file b') \<and>
    pb_leaf_set b' = (if pb_prunable b then leaf_set_flush (pb_leaf_set b) else pb_leaf_set b)"
proof -
  let ?R = "pruned_roots K b"
  have f: "file_holds write_hash (pb_hash_file b) (kept_hashes ?R H0) (kept_hashes ?R H)"
    "file_holds put (pb_data_file b) (kept_data ?R E0) (kept_data ?R E)" using h by (simp_all add: store_holds_def)
  obtain hf where hf: "aof_flush (pb_hash_file b) = Some (Inr hf)" "file_holds write_hash hf (kept_hashes ?R H) (kept_hashes ?R H)"
      "synced hf" "elmt_len hf = elmt_len (pb_hash_file b)" using file_flush [OF f(1)] by blast
  obtain df where df: "aof_flush (pb_data_file b) = Some (Inr df)" "file_holds put df (kept_data ?R E) (kept_data ?R E)"
      "synced df" "elmt_len df = elmt_len (pb_data_file b)" using file_flush [OF f(2)] by blast
  define ls where "ls = (if pb_prunable b then leaf_set_flush (pb_leaf_set b) else pb_leaf_set b)"
  let ?b = "b\<lparr>pb_hash_file := hf, pb_data_file := df, pb_leaf_set := ls\<rparr>"
  have "backend_sync b = Some (Inr ?b)" by (simp add: backend_sync_def hf(1) df(1) ls_def)
  moreover have "store_holds K put ok l ?b H E H E"
    using h hf df by (auto simp: store_holds_def pruned_roots_def list_ok_def ls_def leaf_set_flush_def)
  ultimately show ?thesis using hf(3) df(3) by (simp add: ls_def)
qed

lemma discard_store:
  assumes h: "store_holds K put ok l b H0 E0 H E"
  shows "store_holds K put ok l (backend_discard b) H0 E0 H0 E0" and "synced (pb_hash_file (backend_discard b))"
    and "synced (pb_data_file (backend_discard b))"
proof -
  let ?R = "pruned_roots K b"
  have f: "file_holds write_hash (pb_hash_file b) (kept_hashes ?R H0) (kept_hashes ?R H)"
    "file_holds put (pb_data_file b) (kept_data ?R E0) (kept_data ?R E)" using h by (simp_all add: store_holds_def)
  show "store_holds K put ok l (backend_discard b) H0 E0 H0 E0" "synced (pb_hash_file (backend_discard b))"
    "synced (pb_data_file (backend_discard b))"
    using h file_discard [OF f(1)] file_discard [OF f(2)]
    by (auto simp: store_holds_def pruned_roots_def list_ok_def backend_discard_def leaf_set_discard_def)
qed

end

definition store_repr :: "'bm bitmap_ops \<Rightarrow> ('e \<Rightarrow> u8 list) \<Rightarrow> ('e \<Rightarrow> bool) \<Rightarrow> nat option \<Rightarrow> 'bm pmmr_backend \<Rightarrow> hash list \<Rightarrow> 'e list \<Rightarrow> nat set \<Rightarrow> bool" where
  "store_repr K put ok l b H E A \<longleftrightarrow> (\<exists>H0 E0. store_holds K put ok l b H0 E0 H E) \<and> A = - compacted (pruned_roots K b)"

definition store_clean :: "'bm pmmr_backend \<Rightarrow> bool" where
  "store_clean b \<longleftrightarrow> clean (pb_hash_file b) \<and> clean (pb_data_file b)"

definition prunable_repr :: "'bm bitmap_ops \<Rightarrow> ('e \<Rightarrow> u8 list) \<Rightarrow> ('e \<Rightarrow> bool) \<Rightarrow> nat option \<Rightarrow> 'bm pmmr_backend \<Rightarrow> hash list \<Rightarrow> 'e list \<Rightarrow> nat set \<Rightarrow> bool" where
  "prunable_repr K put ok l b H E A \<longleftrightarrow> pb_prunable b \<and> store_repr K put ok l b H E A"

context element_store
begin

lemma repr_append:
  assumes r: "store_repr K put ok l b H E A" and x: "ok (as_elmt x)"
    and hs: "length hs = mmr_size (Suc (length E)) - mmr_size (length E)" and sz: "2 * mmr_size (Suc (length E)) < u32_size"
  shows "\<exists>b'. be_append (store_backend K put get as_elmt) b x hs = Inr b' \<and> pb_prunable b' = pb_prunable b \<and>
    store_repr K put ok l b' (H @ hs) (E @ [as_elmt x]) (A \<union> {length H<..length H + length hs}) \<and>
    (pb_prunable b \<longrightarrow> leaves K (pb_leaf_set b') = insert (Suc (length H)) (leaves K (pb_leaf_set b)))"
proof -
  obtain H0 E0 where h: "store_holds K put ok l b H0 E0 H E" and A: "A = - compacted (pruned_roots K b)"
    using r by (auto simp: store_repr_def)
  obtain b' where b': "backend_append K put as_elmt b x hs = Some (Inr b')" "store_holds K put ok l b' H0 E0 (H @ hs) (E @ [as_elmt x])"
      "pb_prune_list b' = pb_prune_list b" "pb_prunable b' = pb_prunable b"
      "pb_leaf_set b' = (if pb_prunable b then leaf_set_add K (pb_leaf_set b) (node_pos (length E) 0) else pb_leaf_set b)"
    using append_store [OF h x hs sz] by blast
  have H: "length H = mmr_size (length E)" "compacted (pruned_roots K b) \<subseteq> {..length H}"
    using h by (simp_all add: store_holds_def range_ok_def)
  have "A \<union> {length H<..length H + length hs} = - compacted (pruned_roots K b')"
    using A H(2) b'(3) by (auto simp: pruned_roots_def)
  moreover have "mmr_size (length E) < mmr_size (Suc (length E))" by (simp add: mmr_size_less_iff)
  then have "node_pos (length E) 0 < u32_size" using sz by (simp add: node_pos_def)
  ultimately show ?thesis
    using b' H(1) by (auto simp: store_backend_def panic_err_def store_repr_def leaf_set_add_def bitmap_elems [OF K] width node_pos_def)
qed

lemma repr_rewind:
  assumes r: "store_repr K put ok l b H E A" and cl: "store_clean b" and k: "k \<le> length E" "{mmr_size k<..mmr_size (length E)} \<subseteq> A"
    and rm: "elems K rm \<subseteq> {..<u32_size}"
  shows "\<exists>b'. be_rewind (store_backend K put get as_elmt) b (mmr_size k) rm = Inr b' \<and> pb_prunable b' = pb_prunable b \<and>
    store_repr K put ok l b' (take (mmr_size k) H) (take k E) A \<and> store_clean b' \<and>
    (pb_prunable b \<longrightarrow> leaves K (pb_leaf_set b') = {x \<in> leaves K (pb_leaf_set b). x \<le> mmr_size k} \<union> elems K rm)"
proof -
  obtain H0 E0 where h: "store_holds K put ok l b H0 E0 H E" and A: "A = - compacted (pruned_roots K b)"
    using r by (auto simp: store_repr_def)
  have "compacted (pruned_roots K b) \<subseteq> {..mmr_size (length E)}" using h by (simp add: store_holds_def)
  then have c: "compacted (pruned_roots K b) \<subseteq> {..mmr_size k}" using k(2) A by (force simp: not_le)
  have ls: "leaves K (pb_leaf_set b) \<subseteq> {..<u32_size}" using h by (simp add: store_holds_def)
  have cl': "clean (pb_hash_file b)" "clean (pb_data_file b)" using cl by (simp_all add: store_clean_def)
  obtain b' where b': "backend_rewind K b (mmr_size k) rm = Some (Inr b')" "store_holds K put ok l b' H0 E0 (take (mmr_size k) H) (take k E)"
      "pb_prune_list b' = pb_prune_list b" "pb_prunable b' = pb_prunable b" "clean (pb_hash_file b')" "clean (pb_data_file b')"
      "pb_leaf_set b' = (if pb_prunable b then leaf_set_rewind K (pb_leaf_set b) (mmr_size k) rm else pb_leaf_set b)"
    using rewind_store [OF h cl' k(1) c rm] by blast
  have "store_repr K put ok l b' (take (mmr_size k) H) (take k E) A"
    unfolding store_repr_def using b'(2,3) A by (simp only: pruned_roots_def) blast
  then show ?thesis using b' leaf_set_rewind_elems [OF K ls]
    by (simp add: store_backend_def panic_err_def store_clean_def)
qed

lemma live_read:
  assumes "store_repr K put ok l b H E A" and "pb_prunable b" and "0 < p" and "p \<le> length H" and "is_leaf p"
  shows "be_get_hash (store_backend K put get as_elmt) b p =
      (if p \<in> leaves K (pb_leaf_set b) then be_get_from_file (store_backend K put get as_elmt) b p else None)"
    and "be_get_data (store_backend K put get as_elmt) b p =
      (if p \<in> leaves K (pb_leaf_set b) then be_get_data_from_file (store_backend K put get as_elmt) b p else None)"
proof -
  have "p < u32_size" using assms by (auto simp: store_repr_def store_holds_def range_ok_def)
  then show "be_get_hash (store_backend K put get as_elmt) b p =
      (if p \<in> leaves K (pb_leaf_set b) then be_get_from_file (store_backend K put get as_elmt) b p else None)"
    "be_get_data (store_backend K put get as_elmt) b p =
      (if p \<in> leaves K (pb_leaf_set b) then be_get_data_from_file (store_backend K put get as_elmt) b p else None)"
    using assms by (simp_all add: store_backend_def backend_get_hash_def backend_get_data_def leaf_set_includes_def bitmap_queries [OF K] width)
qed

lemma repr_remove:
  assumes "store_repr K put ok l b H E A" and "pb_prunable b" and "0 < p" and "p \<le> length H"
  shows "\<exists>b'. be_remove (store_backend K put get as_elmt) b p = Some (Inr b') \<and> prunable_repr K put ok l b' H E A \<and>
    leaves K (pb_leaf_set b') = leaves K (pb_leaf_set b) - {p} \<and> store_clean b' = store_clean b"
proof -
  obtain H0 E0 where h: "store_holds K put ok l b H0 E0 H E" and A: "A = - compacted (pruned_roots K b)"
    using assms(1) by (auto simp: store_repr_def)
  have p: "p < u32_size" using h assms(4) by (simp add: store_holds_def range_ok_def)
  let ?b = "b\<lparr>pb_leaf_set := leaf_set_remove K (pb_leaf_set b) p\<rparr>"
  have ls: "leaves K (leaf_set_remove K (pb_leaf_set b) p) = leaves K (pb_leaf_set b) - {p}"
    "ls_bitmap_bak (leaf_set_remove K (pb_leaf_set b) p) = ls_bitmap_bak (pb_leaf_set b)"
    using p by (simp_all add: leaf_set_remove_def bitmap_elems [OF K] width)
  then have "store_holds K put ok l ?b H0 E0 H E" using h by (auto simp: store_holds_def pruned_roots_def list_ok_def)
  then have "store_repr K put ok l ?b H E A" using A unfolding store_repr_def by (simp add: pruned_roots_def) blast
  then show ?thesis using assms(2) ls by (simp add: store_backend_def backend_remove_def prunable_repr_def store_clean_def)
qed

end

sublocale element_store \<subseteq> files: pmmr_store "store_backend K put get as_elmt" as_elmt "\<lambda>x. ok (as_elmt x)" store_clean "elems K"
  "store_repr K put ok l"
proof
  fix b H E A p
  assume r: "store_repr K put ok l b H E A" and p: "0 < p" "p \<le> length H"
  then obtain H0 E0 where "store_holds K put ok l b H0 E0 H E" "A = - compacted (pruned_roots K b)" by (auto simp: store_repr_def)
  then show "be_get_from_file (store_backend K put get as_elmt) b p = (if p \<in> A then Some (H ! (p - 1)) else None)"
    using get_from_file_store p by (simp add: store_backend_def)
next
  fix b H E A m
  assume r: "store_repr K put ok l b H E A" and m: "m < length E"
  then obtain H0 E0 where "store_holds K put ok l b H0 E0 H E" "A = - compacted (pruned_roots K b)" by (auto simp: store_repr_def)
  then show "be_get_data_from_file (store_backend K put get as_elmt) b (node_pos m 0) = (if node_pos m 0 \<in> A then Some (E ! m) else None)"
    using get_data_store m by (simp add: store_backend_def)
qed (use repr_append repr_rewind in blast)+

sublocale element_store \<subseteq> live_files: prunable_store "store_backend K put get as_elmt" as_elmt "\<lambda>x. ok (as_elmt x)" store_clean "elems K"
  "prunable_repr K put ok l" "\<lambda>b. leaves K (pb_leaf_set b)"
proof
  fix b H E A x and hs :: "hash list"
  assume "prunable_repr K put ok l b H E A" "ok (as_elmt x)" "length hs = mmr_size (Suc (length E)) - mmr_size (length E)"
    "2 * mmr_size (Suc (length E)) < u32_size"
  then show "\<exists>b'. be_append (store_backend K put get as_elmt) b x hs = Inr b' \<and>
      prunable_repr K put ok l b' (H @ hs) (E @ [as_elmt x]) (A \<union> {length H<..length H + length hs})"
    using repr_append [of b H E A x hs] unfolding prunable_repr_def by blast
next
  fix b H E A k rm
  assume "prunable_repr K put ok l b H E A" "store_clean b" "k \<le> length E" "{mmr_size k<..mmr_size (length E)} \<subseteq> A" "elems K rm \<subseteq> {..<u32_size}"
  then show "\<exists>b'. be_rewind (store_backend K put get as_elmt) b (mmr_size k) rm = Inr b' \<and>
      prunable_repr K put ok l b' (take (mmr_size k) H) (take k E) A \<and> store_clean b'"
    using repr_rewind [of b H E A k rm] unfolding prunable_repr_def by blast
next
  fix b H E A p
  assume "prunable_repr K put ok l b H E A" "0 < p" "p \<le> length H"
  then show "\<exists>b'. be_remove (store_backend K put get as_elmt) b p = Some (Inr b') \<and> prunable_repr K put ok l b' H E A \<and>
      leaves K (pb_leaf_set b') = leaves K (pb_leaf_set b) - {p} \<and> store_clean b' = store_clean b"
    using repr_remove [of b H E A p] unfolding prunable_repr_def by blast
next
  fix b H E A x b' and hs :: "hash list"
  assume r: "prunable_repr K put ok l b H E A" and x: "ok (as_elmt x)" "length hs = mmr_size (Suc (length E)) - mmr_size (length E)"
    "2 * mmr_size (Suc (length E)) < u32_size" and b': "be_append (store_backend K put get as_elmt) b x hs = Inr b'"
  then show "leaves K (pb_leaf_set b') = insert (Suc (length H)) (leaves K (pb_leaf_set b))"
    using repr_append [of b H E A x hs] by (auto simp: prunable_repr_def)
next
  fix b H E A k rm b'
  assume "prunable_repr K put ok l b H E A" "store_clean b" "k \<le> length E" "{mmr_size k<..mmr_size (length E)} \<subseteq> A" "elems K rm \<subseteq> {..<u32_size}"
    "be_rewind (store_backend K put get as_elmt) b (mmr_size k) rm = Inr b'"
  then show "leaves K (pb_leaf_set b') = {x \<in> leaves K (pb_leaf_set b). x \<le> mmr_size k} \<union> elems K rm"
    using repr_rewind [of b H E A k rm] by (auto simp: prunable_repr_def)
next
  fix b H E A
  assume "prunable_repr K put ok l b H E A"
  then show "be_leaf_pos_iter (store_backend K put get as_elmt) b = Some (sorted_list_of_set (leaves K (pb_leaf_set b)))"
    using strict_sorted_equal [OF bitmap_sorted [OF K], of "sorted_list_of_set (leaves K (pb_leaf_set b))"]
    by (simp add: prunable_repr_def store_backend_def backend_leaf_pos_iter_def leaf_set_iter_def)
qed (auto simp: prunable_repr_def files.get_from_file files.get_data_from_file live_read)

end
