(* ===== verification/Store_Compact.thy ===== *)
theory Store_Compact
  imports Store_Pmmr
begin

text \<open>
  Compaction of the store (\<open>check_compact\<close> and \<open>pos_to_rm\<close> of \<open>store/src/pmmr.rs\<close>, defined in
  \<open>Store_Pmmr\<close>): which positions are removed from the files, and that what is left still answers for
  the positions that have not been compacted.
\<close>

section \<open>Positions all of whose leaves are gone\<close>

definition full :: "nat set \<Rightarrow> nat set" where
  "full L = {q. 0 < q \<and> (\<forall>x. 0 < x \<and> is_leaf x \<and> beneath x q \<longrightarrow> x \<in> L)}"

lemma full_mono: "L \<subseteq> M \<Longrightarrow> full L \<subseteq> full M"
  by (auto simp: full_def)

lemma full_down: "q \<in> full L \<Longrightarrow> 0 < p \<Longrightarrow> beneath p q \<Longrightarrow> p \<in> full L"
  unfolding full_def using under_trans by blast

lemma beneath_leaf: "is_leaf r \<Longrightarrow> 0 < q \<Longrightarrow> beneath q r \<longleftrightarrow> q = r"
  using height_under [of q r] by (auto simp: is_leaf_def)

lemma full_leaf: "0 < x \<Longrightarrow> is_leaf x \<Longrightarrow> x \<in> full L \<longleftrightarrow> x \<in> L"
  unfolding full_def using beneath_leaf [of x] by blast

lemma full_parent:
  assumes "0 < q"
  shows "parent_of q \<in> full L \<longleftrightarrow> q \<in> full L \<and> sibling_of q \<in> full L"
proof
  have b: "beneath q (parent_of q)" "beneath (sibling_of q) (parent_of q)"
    using under_parent [of q] under_parent [of "sibling_of q"] sibling_facts(2) [OF assms] by simp_all
  then show "parent_of q \<in> full L \<Longrightarrow> q \<in> full L \<and> sibling_of q \<in> full L"
    using full_down assms sibling_facts(4) [OF assms] by blast
  assume f: "q \<in> full L \<and> sibling_of q \<in> full L"
  have "x \<in> L" if x: "0 < x" "is_leaf x" "beneath x (parent_of q)" for x
  proof -
    have "x \<noteq> parent_of q" using x(2) sibling_facts(6) [OF assms] by (auto simp: is_leaf_def)
    then have "beneath x q \<or> beneath x (sibling_of q)" using under_children [OF x(1) assms x(3)] by blast
    then show ?thesis using f x by (auto simp: full_def)
  qed
  then show "parent_of q \<in> full L" using parent_gt [OF assms] assms by (auto simp: full_def)
qed

lemma rightmost_leaf: "node m h \<Longrightarrow> beneath (node_pos m 0) (node_pos m h)"
proof (induction h)
  case (Suc h)
  then have n: "node m h" by (simp add: node_bit)
  have "beneath (node_pos m h) (node_pos m (Suc h))"
    using under_parent [of "node_pos m h"] children_node(3) [OF Suc.prems] by simp
  then show ?case using Suc.IH [OF n] under_trans by blast
qed simp

lemma full_bound:
  assumes "L \<subseteq> {..mmr_size n}"
  shows "full L \<subseteq> {..mmr_size n}"
proof
  fix q assume q: "q \<in> full L"
  then have "0 < q" by (simp add: full_def)
  then obtain m h where m: "node m h" "q = node_pos m h" using node_cases by blast
  have "is_leaf (node_pos m 0)" by (simp add: is_leaf_node)
  then have "node_pos m 0 \<in> L" using q rightmost_leaf [OF m(1)] m(2) by (auto simp: full_def)
  then have "m < n" using assms node_pos_le_size [of m 0 n] by auto
  then show "q \<in> {..mmr_size n}" using node_pos_le_size [OF m(1)] m(2) by simp
qed

text \<open>A leaf that is added makes full exactly the positions above it, up to the first whose sibling
  is not.\<close>

lemma full_insert:
  assumes x: "0 < x" "is_leaf x" "x \<notin> L" and cur: "beneath x cur" "cur \<in> full (insert x L)" and s: "sibling_of cur \<notin> full L"
  shows "full (insert x L) = full L \<union> {q. beneath x q \<and> beneath q cur}"
proof (intro set_eqI iffI)
  fix q assume q: "q \<in> full (insert x L)"
  have c0: "0 < cur" using cur(2) by (simp add: full_def)
  show "q \<in> full L \<union> {q. beneath x q \<and> beneath q cur}"
  proof (cases "beneath x q")
    case False
    then have "q \<in> full L" using q by (auto simp: full_def)
    then show ?thesis by blast
  next
    case True
    have "beneath q cur"
    proof (rule ccontr)
      assume n: "\<not> beneath q cur"
      then have "beneath cur q" using under_comparable [OF True cur(1)] by blast
      then have "beneath (parent_of cur) q" using n under_step [of cur q] by auto
      then have "parent_of cur \<in> full (insert x L)" using full_down [OF q] parent_gt [OF c0] by simp
      then have sf: "sibling_of cur \<in> full (insert x L)" using full_parent [OF c0] by simp
      have "\<not> beneath x (sibling_of cur)"
        using under_comparable [OF cur(1), of "sibling_of cur"] not_under_sibling [OF c0] not_under_sibling [OF sibling_facts(4) [OF c0]]
          sibling_facts(1) [OF c0] by auto
      then have "sibling_of cur \<in> full L" using sf by (auto simp: full_def)
      with s show False by simp
    qed
    with True show ?thesis by blast
  qed
next
  fix q assume "q \<in> full L \<union> {q. beneath x q \<and> beneath q cur}"
  then show "q \<in> full (insert x L)"
    using full_mono [of L "insert x L"] full_down [OF cur(2)] under_pos [OF x(1)] by blast
qed

section \<open>The positions to remove\<close>

definition leaves_of :: "nat set \<Rightarrow> nat set" where
  "leaves_of C = {x \<in> C. is_leaf x}"

lemma prune_inv_full: "prune_inv R C \<Longrightarrow> C = full (leaves_of C)"
proof (intro set_eqI)
  fix q assume inv: "prune_inv R C"
  then have "q \<in> C \<Longrightarrow> 0 < q" by (auto simp: prune_inv_def covered_def)
  then show "q \<in> C \<longleftrightarrow> q \<in> full (leaves_of C)"
    using pruned_iff_leaves [OF inv, of q] by (auto simp: full_def leaves_of_def)
qed

text \<open>The positions that \<open>pos_to_rm\<close> collects for the leaves \<open>S\<close>.\<close>

definition expansion :: "nat set \<Rightarrow> nat set \<Rightarrow> nat set \<Rightarrow> nat set" where
  "expansion R C S = (full (leaves_of C \<union> S) - C) \<union> {r \<in> R. parent_of r \<in> full (leaves_of C \<union> S)}"

text \<open>The same inside the loop, having climbed from \<open>x\<close> to \<open>cur\<close>.\<close>

definition climbing :: "nat set \<Rightarrow> nat set \<Rightarrow> nat set \<Rightarrow> nat \<Rightarrow> nat \<Rightarrow> nat set" where
  "climbing R C S x cur = expansion R C S \<union> {q. beneath x q \<and> beneath q cur} \<union>
     {r \<in> R. \<exists>q. beneath x q \<and> beneath q cur \<and> q \<noteq> cur \<and> sibling_of q = r}"

lemma climb_test:
  assumes inv: "prune_inv R C" and x: "0 < x" "is_leaf x" "x \<notin> C" and cur: "beneath x cur"
  shows "sibling_of cur \<in> R \<or> sibling_of cur \<in> climbing R C S x cur \<longleftrightarrow> sibling_of cur \<in> full (leaves_of C \<union> S)"
proof -
  let ?s = "sibling_of cur" and ?F = "full (leaves_of C \<union> S)"
  have c0: "0 < cur" using under_pos [OF x(1) cur] .
  have CF: "C \<subseteq> ?F" using prune_inv_full [OF inv] full_mono [of "leaves_of C" "leaves_of C \<union> S"] by blast
  have RC: "R \<subseteq> C" using prune_inv_roots [OF inv] .
  have "?s \<notin> {q. beneath x q \<and> beneath q cur}" using not_under_sibling [OF c0] by blast
  then have "?s \<in> R \<or> ?s \<in> climbing R C S x cur \<Longrightarrow> ?s \<in> ?F"
    using CF RC by (auto simp: climbing_def expansion_def)
  moreover have "?s \<in> R" if s: "?s \<in> C"
  proof -
    obtain r where r: "r \<in> R" "beneath ?s r" using s inv by (auto simp: prune_inv_def covered_def)
    have "?s = r"
    proof (rule ccontr)
      assume "?s \<noteq> r"
      then have "beneath (parent_of cur) r" using r(2) under_step [of ?s r] sibling_facts(2) [OF c0] by auto
      then have "beneath x r" using cur under_parent [of cur] under_trans by blast
      then have "x \<in> C" using r(1) x(1) inv by (auto simp: prune_inv_def covered_def)
      with x(3) show False by simp
    qed
    then show ?thesis using r(1) by simp
  qed
  ultimately show ?thesis by (auto simp: climbing_def expansion_def)
qed

lemma climb_step:
  assumes x: "0 < x" and cur: "beneath x cur"
  shows "climbing R C S x (parent_of cur) = climbing R C S x cur \<union> (if sibling_of cur \<in> R then {sibling_of cur} else {}) \<union> {parent_of cur}"
proof -
  have c0: "0 < cur" using under_pos [OF x cur] .
  have bp: "beneath x (parent_of cur)" "beneath cur (parent_of cur)" using cur under_parent [of cur] under_trans by blast+
  have "beneath q (parent_of cur) \<longleftrightarrow> q = parent_of cur \<or> beneath q cur" if "beneath x q" for q
    using under_comparable [OF that cur] under_step [of cur q] under_parent [of cur] under_trans
      under_antisym [of "parent_of cur" q] parent_gt [OF c0] by (metis gr_implies_not0 neq0_conv)
  moreover have "\<not> beneath (parent_of cur) cur" using under_le [of "parent_of cur" cur] parent_gt [OF c0] by auto
  ultimately show ?thesis using bp cur unfolding climbing_def by auto
qed

lemma climb_end:
  assumes inv: "prune_inv R C" and x: "0 < x" "is_leaf x" "x \<notin> C" "x \<notin> S" and cur: "beneath x cur"
    and f: "cur \<in> full (leaves_of C \<union> insert x S)" and s: "sibling_of cur \<notin> full (leaves_of C \<union> S)"
  shows "climbing R C S x cur = expansion R C (insert x S)"
proof -
  let ?L = "leaves_of C \<union> S" and ?chain = "{q. beneath x q \<and> beneath q cur}"
  have xL: "x \<notin> ?L" using x by (simp add: leaves_of_def)
  have c0: "0 < cur" using under_pos [OF x(1) cur] .
  have F: "full (leaves_of C \<union> insert x S) = full ?L \<union> ?chain"
    using full_insert [OF x(1,2) xL cur _ s] f by (simp add: insert_commute)
  have notC: "q \<notin> C" if "beneath x q" for q
  proof
    assume "q \<in> C"
    then have "x \<in> C" using covered_down [OF _ x(1) that] inv by (simp add: prune_inv_def)
    with x(3) show False by simp
  qed
  have RC: "R \<subseteq> C" using prune_inv_roots [OF inv] .
  have "{r \<in> R. parent_of r \<in> ?chain} = {r \<in> R. \<exists>q. beneath x q \<and> beneath q cur \<and> q \<noteq> cur \<and> sibling_of q = r}"
  proof (intro set_eqI iffI; safe)
    fix r assume r: "r \<in> R" "beneath x (parent_of r)" "beneath (parent_of r) cur"
    have r0: "0 < r" using r(1) inv by (auto simp: prune_inv_def antichain_def intro: gr0I)
    have "x \<noteq> parent_of r" using x(2) sibling_facts(6) [OF r0] by (auto simp: is_leaf_def)
    then have "beneath x r \<or> beneath x (sibling_of r)" using under_children [OF x(1) r0 r(2)] by blast
    then have b: "beneath x (sibling_of r)" using notC [of r] RC r(1) by blast
    have "beneath (sibling_of r) cur" "sibling_of r \<noteq> cur"
      using under_trans [OF under_parent [of "sibling_of r"]] sibling_facts(2) [OF r0] r(3)
        under_le [OF _ r(3)] parent_gt [OF r0] parent_gt [OF sibling_facts(4) [OF r0]] by auto
    then show "\<exists>q. beneath x q \<and> beneath q cur \<and> q \<noteq> cur \<and> sibling_of q = r" using b sibling_facts(1) [OF r0] by blast
  next
    fix q assume q: "beneath x q" "beneath q cur" "q \<noteq> cur"
    have q0: "0 < q" using under_pos [OF x(1) q(1)] .
    show "beneath x (parent_of (sibling_of q))" "beneath (parent_of (sibling_of q)) cur"
      using q under_step [of q cur] under_trans [OF q(1) under_parent] by (simp_all add: sibling_facts(2) [OF q0])
  qed
  then show ?thesis using notC unfolding climbing_def expansion_def F by blast
qed

lemma expand_loop_returns:
  assumes K: "bitmap_laws K" and inv: "prune_inv R C" and R: "R = elems K (pl_bitmap pl)" and size: "2 * mmr_size n < u32_size"
    and bound: "leaves_of C \<union> insert x S \<subseteq> {..mmr_size n}" and x: "0 < x" "is_leaf x" "x \<notin> C" "x \<notin> S"
    and cur: "beneath x cur" "cur \<in> full (leaves_of C \<union> insert x S)" and e: "elems K e = climbing R C S x cur"
  shows "\<exists>e'. expand_loop K pl e cur = Some e' \<and> elems K e' = expansion R C (insert x S)"
  using cur e
proof (induction "mmr_size n - cur" arbitrary: cur e rule: less_induct)
  case less
  have c0: "0 < cur" using under_pos [OF x(1) less.prems(1)] .
  have le: "cur \<le> mmr_size n" using full_bound [OF bound] less.prems(2) by blast
  have f: "family cur = (parent_of cur, sibling_of cur)" by (simp add: parent_of_def sibling_of_def)
  have u: "as_u32 (sibling_of cur) = sibling_of cur" using sibling_bound [OF c0] le size by (simp add: width)
  let ?p = "sibling_of cur \<in> R"
  let ?e1 = "if ?p then bm_add K e (sibling_of cur) else e"
  have e1: "elems K ?e1 = climbing R C S x cur \<union> (if ?p then {sibling_of cur} else {})"
    using less.prems(3) by (simp add: bitmap_elems [OF K])
  have test: "?p \<or> sibling_of cur \<in> elems K ?e1 \<longleftrightarrow> sibling_of cur \<in> full (leaves_of C \<union> S)"
    unfolding e1 using climb_test [OF inv x(1-3) less.prems(1), of S] by auto
  have unfold: "expand_loop K pl e cur = (if sibling_of cur \<in> full (leaves_of C \<union> S)
      then expand_loop K pl (bm_add K ?e1 (as_u32 (parent_of cur))) (parent_of cur) else Some ?e1)"
    using test
    by (subst expand_loop.simps, cases ?p) (simp_all add: f u is_pruned_root_def bitmap_queries [OF K] R [symmetric] Let_def)
  show ?case
  proof (cases "sibling_of cur \<in> full (leaves_of C \<union> S)")
    case True
    have "sibling_of cur \<in> full (leaves_of C \<union> insert x S)" using True full_mono [of "leaves_of C \<union> S" "leaves_of C \<union> insert x S"] by blast
    then have pf: "parent_of cur \<in> full (leaves_of C \<union> insert x S)" using full_parent [OF c0] less.prems(2) by blast
    then have ple: "parent_of cur \<le> mmr_size n" using full_bound [OF bound] by blast
    then have up: "as_u32 (parent_of cur) = parent_of cur" using size by (simp add: width)
    have "elems K (bm_add K ?e1 (parent_of cur)) = climbing R C S x (parent_of cur)"
      unfolding climb_step [OF x(1) less.prems(1)] bitmap_elems(2) [OF K] e1 by auto
    moreover have "beneath x (parent_of cur)" using less.prems(1) under_parent under_trans by blast
    ultimately show ?thesis
      using less.hyps [of "parent_of cur" "bm_add K ?e1 (parent_of cur)"] pf parent_gt [OF c0] ple True unfold up by simp
  next
    case False
    then have "\<not> ?p" using test by blast
    then show ?thesis using climb_end [OF inv x less.prems(1,2) False] unfold False less.prems(3) by simp
  qed
qed

lemma expand_leaves_returns:
  assumes K: "bitmap_laws K" and inv: "prune_inv R C" and R: "R = elems K (pl_bitmap pl)" and size: "2 * mmr_size n < u32_size"
  shows "leaves_of C \<union> S \<union> set xs \<subseteq> {..mmr_size n} \<Longrightarrow> distinct xs \<Longrightarrow> set xs \<inter> (C \<union> S) = {} \<Longrightarrow>
    list_all (\<lambda>x. 0 < x \<and> is_leaf x) xs \<Longrightarrow> elems K e = expansion R C S \<Longrightarrow>
    \<exists>e'. expand_leaves K pl e xs = Some e' \<and> elems K e' = expansion R C (S \<union> set xs)"
proof (induction xs arbitrary: S e)
  case (Cons x xs)
  have x: "0 < x" "is_leaf x" "x \<notin> C" "x \<notin> S" using Cons.prems(3,4) by auto
  have "{q. beneath x q \<and> beneath q x} = {x}"
    using x(1) beneath_leaf [OF x(2)] under_pos [OF x(1)] by auto
  then have "elems K (bm_add K e x) = climbing R C S x x"
    using Cons.prems(5) x(1) beneath_leaf [OF x(2)] under_pos [OF x(1)] unfolding climbing_def bitmap_elems(2) [OF K] by auto
  moreover have "x \<in> full (leaves_of C \<union> insert x S)" using full_leaf [OF x(1,2)] by simp
  moreover have "leaves_of C \<union> insert x S \<subseteq> {..mmr_size n}" using Cons.prems(1) by auto
  ultimately obtain e1 where e1: "expand_loop K pl (bm_add K e x) x = Some e1" "elems K e1 = expansion R C (insert x S)"
    using expand_loop_returns [OF K inv R size _ x under_refl] by blast
  have "\<exists>e'. expand_leaves K pl e1 xs = Some e' \<and> elems K e' = expansion R C (insert x S \<union> set xs)"
    using Cons.prems e1(2) by (intro Cons.IH) auto
  then show ?case using e1(1) by simp
qed simp

text \<open>The compacted positions are those whose parent is pruned as well.\<close>

lemma compacted_parent:
  assumes inv: "prune_inv R C"
  shows "compacted R = {q \<in> C. parent_of q \<in> C}"
proof (intro set_eqI iffI)
  fix q assume q: "q \<in> compacted R"
  then obtain r where r: "r \<in> R" "beneath q r" "q \<noteq> r" "0 < q" by (auto simp: compacted_def covered_def)
  then have "beneath (parent_of q) r" using under_step [of q r] by auto
  then show "q \<in> {q \<in> C. parent_of q \<in> C}"
    using r inv parent_gt [OF r(4)] by (auto simp: prune_inv_def covered_def)
next
  fix q assume q: "q \<in> {q \<in> C. parent_of q \<in> C}"
  then obtain r where r: "r \<in> R" "beneath (parent_of q) r" "0 < q" using inv by (auto simp: prune_inv_def covered_def)
  have "beneath q r" using r(2) under_parent under_trans by blast
  moreover have "q \<noteq> r" using under_le [OF _ r(2)] parent_gt [OF r(3)] by auto
  ultimately have "q \<notin> R" using r(1) inv by (auto simp: prune_inv_def antichain_def)
  then show "q \<in> compacted R" using q inv by (simp add: compacted_def prune_inv_def)
qed

lemma removed_are_compacted:
  assumes inv: "prune_inv R C" and inv': "prune_inv R' (full (leaves_of C \<union> S))"
  shows "{q \<in> expansion R C S. parent_of q \<in> expansion R C S} = compacted R' - compacted R"
    and "compacted R \<subseteq> compacted R'"
proof -
  let ?C' = "full (leaves_of C \<union> S)"
  have CC: "C \<subseteq> ?C'" using prune_inv_full [OF inv] full_mono [of "leaves_of C" "leaves_of C \<union> S"] by blast
  have RC: "R \<subseteq> C" using prune_inv_roots [OF inv] .
  note c = compacted_parent [OF inv] and c' = compacted_parent [OF inv']
  show "compacted R \<subseteq> compacted R'" unfolding c c' using CC by blast
  have root: "r \<in> R \<longleftrightarrow> r \<in> C \<and> parent_of r \<notin> C" for r
    using c RC inv by (auto simp: compacted_def prune_inv_def)
  show "{q \<in> expansion R C S. parent_of q \<in> expansion R C S} = compacted R' - compacted R"
  proof (intro set_eqI iffI)
    fix q assume q: "q \<in> {q \<in> expansion R C S. parent_of q \<in> expansion R C S}"
    then have "q \<in> ?C'" "parent_of q \<in> ?C'" "q \<notin> C \<or> q \<in> R" using CC RC by (auto simp: expansion_def)
    then show "q \<in> compacted R' - compacted R" unfolding c c' using root by blast
  next
    fix q assume "q \<in> compacted R' - compacted R"
    then have "q \<in> ?C'" "parent_of q \<in> ?C'" "q \<notin> C \<or> parent_of q \<notin> C" unfolding c c' by blast+
    moreover have "parent_of q \<notin> C"
    proof
      assume "parent_of q \<in> C"
      then have "q \<in> C" using covered_down [of "parent_of q" R q] under_parent [of q] inv \<open>q \<in> ?C'\<close>
        by (auto simp: prune_inv_def full_def)
      with calculation(3) \<open>parent_of q \<in> C\<close> show False by blast
    qed
    ultimately show "q \<in> {q \<in> expansion R C S. parent_of q \<in> expansion R C S}"
      using root [of q] by (auto simp: expansion_def)
  qed
qed

section \<open>Removing positions from a file\<close>

lemma rank_less:
  fixes A :: "nat set"
  assumes "i \<in> A" and "i < k"
  shows "card {j \<in> A. j < i} < card {j \<in> A. j < k}"
proof (rule psubset_card_mono)
  show "finite {j \<in> A. j < k}" by simp
  show "{j \<in> A. j < i} \<subset> {j \<in> A. j < k}" using assms by (auto simp: psubset_eq intro: exI [of _ i])
qed

lemma nths_prune:
  assumes "B \<subseteq> A"
  shows "nths (nths xs A) {k. k \<notin> (\<lambda>i. card {j \<in> A. j < i}) ` B} = nths xs (A - B)"
proof -
  have "inj_on (\<lambda>i. card {j \<in> A. j < i}) A"
  proof (rule linorder_inj_onI)
    fix i k assume "i < k" "i \<in> A" "k \<in> A"
    then show "card {j \<in> A. j < i} \<noteq> card {j \<in> A. j < k}" using rank_less [of i A k] by simp
  qed (simp add: linear)
  then have "i \<in> A \<Longrightarrow> card {j \<in> A. j < i} \<in> (\<lambda>i. card {j \<in> A. j < i}) ` B \<longleftrightarrow> i \<in> B" for i
    using inj_on_image_mem_iff [of "\<lambda>i. card {j \<in> A. j < i}" A i B] assms by simp
  then have "{i \<in> A. \<exists>k \<in> {k. k \<notin> (\<lambda>i. card {j \<in> A. j < i}) ` B}. card {i' \<in> A. i' < i} = k} = A - B" by auto
  then show ?thesis unfolding nths_nths by simp
qed

lemma map_opt_Some: "list_all (\<lambda>x. f x = Some (g x)) xs \<Longrightarrow> map_opt f xs = Some (map g xs)"
  unfolding map_opt_def using map_filter_Some [of xs f g] by (auto simp: list_all_iff)

lemma sorted_ranks:
  fixes A :: "nat set"
  assumes "sorted_wrt (<) xs" and "list_all (\<lambda>x. x \<in> A) xs"
  shows "sorted_wrt (<) (map (\<lambda>i. Suc (card {j \<in> A. j < i})) xs)"
  using assms by (induction xs) (auto simp: list_all_iff rank_less)

lemma set_bm_iter_sorted: "bitmap_laws K \<Longrightarrow> sorted_wrt (<) (filter P (bm_iter K b))"
  by (rule sorted_wrt_filter [OF bitmap_sorted])

lemma parent_upper:
  assumes "0 < q"
  shows "parent_of q \<le> 2 * q + 1"
proof -
  obtain m h where q: "node m h" "q = node_pos m h" using node_cases [OF assms] .
  have "parent_of q = node_pos (par m h) h + 1" "sibling_of q = node_pos (sib m h) h"
    using q by (simp_all add: parent_of_def sibling_of_def family_node node_pos_Suc)
  moreover have "par m h = m \<or> par m h = sib m h" by (simp add: par_def sib_def)
  ultimately show ?thesis using sibling_bound [OF assms] q(2) by auto
qed

lemma prune_leaves_ok:
  assumes K: "bitmap_laws K"
  shows "prune_ok K n pl \<Longrightarrow> list_all (\<lambda>x. 0 < x \<and> x \<le> mmr_size n \<and> is_leaf x) xs \<Longrightarrow>
    \<exists>pl'. prune_leaves K pl xs = Some pl' \<and> prune_ok K n pl' \<and>
      leaves_of (elems K (pl_pruned_cache pl')) = leaves_of (elems K (pl_pruned_cache pl)) \<union> set xs"
proof (induction xs arbitrary: pl)
  case (Cons x xs)
  then obtain p1 where p1: "prune_list_add K pl x = Some p1" "prune_ok K n p1"
    "\<forall>l. is_leaf l \<longrightarrow> (l \<in> elems K (pl_pruned_cache p1) \<longleftrightarrow> l \<in> elems K (pl_pruned_cache pl) \<or> l = x)"
    using prune_list_add_ok [OF K Cons.prems(1), of x] by auto
  then have "leaves_of (elems K (pl_pruned_cache p1)) = insert x (leaves_of (elems K (pl_pruned_cache pl)))"
    using Cons.prems(2) by (auto simp: leaves_of_def)
  with Cons.IH [OF p1(2)] Cons.prems(2) p1(1) show ?case by auto
qed simp

lemma prune_ok_wider:
  assumes "prune_ok K N pl" and "elems K (pl_pruned_cache pl) \<subseteq> {..mmr_size n}" and "2 * mmr_size n < u32_size"
  shows "prune_ok K n pl"
  using assms by (simp add: prune_ok_def)

text \<open>Positions turned into indices of a file that keeps the entries of \<open>A\<close> drop exactly their entries.\<close>

lemma pruned_ranks:
  fixes idx :: "'p \<Rightarrow> nat"
  assumes mono: "sorted_wrt (<) (map idx xs)" and in_A: "list_all (\<lambda>p. idx p \<in> A) xs" and g: "g = (\<lambda>p. Suc (card {j \<in> A. j < idx p}))"
  shows "sorted_wrt (<) (map g xs)" and "0 \<notin> set (map g xs)"
    and "nths (nths ys A) {i. Suc i \<notin> set (map g xs)} = nths ys (A - idx ` set xs)"
proof -
  have e: "map g xs = map (\<lambda>i. Suc (card {j \<in> A. j < i})) (map idx xs)" by (simp add: g)
  show "sorted_wrt (<) (map g xs)" unfolding e by (rule sorted_ranks [OF mono]) (use in_A in \<open>simp add: list_all_iff\<close>)
  show "0 \<notin> set (map g xs)" by (auto simp: g)
  have "Suc i \<in> set (map g xs) \<longleftrightarrow> i \<in> (\<lambda>i. card {j \<in> A. j < i}) ` (idx ` set xs)" for i
    unfolding e set_map image_image by blast
  then have "{i. Suc i \<notin> set (map g xs)} = {k. k \<notin> (\<lambda>i. card {j \<in> A. j < i}) ` (idx ` set xs)}" by simp
  moreover have "idx ` set xs \<subseteq> A" using in_A by (auto simp: list_all_iff)
  ultimately show "nths (nths ys A) {i. Suc i \<notin> set (map g xs)} = nths ys (A - idx ` set xs)"
    using nths_prune [of "idx ` set xs" A ys] by simp
qed

lemma leaves_before:
  assumes "node_pos m 0 \<notin> compacted R"
  shows "card {q \<in> compacted R. q \<le> node_pos m 0 \<and> is_leaf q} \<le> m"
proof -
  have "{q \<in> compacted R. q \<le> node_pos m 0 \<and> is_leaf q} \<subseteq> (\<lambda>j. node_pos j 0) ` {..<m}"
  proof
    fix q assume q: "q \<in> {q \<in> compacted R. q \<le> node_pos m 0 \<and> is_leaf q}"
    then have "0 < q" "is_leaf q" using compacted_gt_0 [of q R] by simp_all
    then obtain j where j: "q = node_pos j 0" using leaf_cases by blast
    have "q \<noteq> node_pos m 0" using q assms by blast
    then have "j < m" using q unfolding j by (simp add: le_less leaf_pos_less)
    then show "q \<in> (\<lambda>j. node_pos j 0) ` {..<m}" using j by blast
  qed
  from card_mono [OF _ this] show ?thesis by (simp add: card_image inj_leaf_pos)
qed

text \<open>The leaf set has only leaves, none of them counts as pruned, and nothing behind the range does.\<close>

definition pruned_dead :: "'bm bitmap_ops \<Rightarrow> 'bm pmmr_backend \<Rightarrow> nat \<Rightarrow> bool" where
  "pruned_dead K b n \<longleftrightarrow> elems K (pl_pruned_cache (pb_prune_list b)) \<subseteq> {..mmr_size n} \<and>
     leaves K (pb_leaf_set b) \<subseteq> Collect is_leaf \<and> leaves K (pb_leaf_set b) \<inter> elems K (pl_pruned_cache (pb_prune_list b)) = {}"

context element_store
begin

lemma pos_to_rm_returns:
  assumes h: "store_holds K put ok l b H0 E0 H E" and d: "pruned_dead K b (length E)" and cut: "cutoff \<le> mmr_size (length E)"
    and L_def: "L = {x \<in> {1..cutoff}. is_leaf x \<and> \<not> is_pruned K (pb_prune_list b) x \<and> x \<notin> leaves K (pb_leaf_set b) \<and> x \<notin> elems K rm}"
  shows "\<exists>lv r pl. pos_to_rm K b cutoff rm = Some (lv, r) \<and> elems K lv = L \<and>
    prune_leaves K (pb_prune_list b) (bm_iter K lv) = Some pl \<and> prune_ok K (length E) pl \<and>
    leaves_of (elems K (pl_pruned_cache pl)) = leaves_of (elems K (pl_pruned_cache (pb_prune_list b))) \<union> L \<and>
    elems K r = compacted (elems K (pl_bitmap pl)) - compacted (pruned_roots K b) \<and>
    compacted (pruned_roots K b) \<subseteq> compacted (elems K (pl_bitmap pl))"
proof -
  let ?pl = "pb_prune_list b" and ?n = "length E"
  let ?R = "pruned_roots K b" and ?C = "elems K (pl_pruned_cache ?pl)"
  obtain N where N: "prune_ok K N ?pl" using h by (auto simp: store_holds_def list_ok_def)
  have sz: "2 * mmr_size ?n < u32_size" and ls: "leaves K (pb_leaf_set b) \<subseteq> {..<u32_size}" using h by (simp_all add: store_holds_def range_ok_def)
  have ok: "prune_ok K ?n ?pl" using prune_ok_wider [OF N _ sz] d by (simp add: pruned_dead_def)
  have inv: "prune_inv ?R ?C" using ok by (simp add: prune_ok_def pruned_roots_def)
  have Cb: "?C \<subseteq> {..mmr_size ?n}" using ok by (simp add: prune_ok_def)
  define lv where "lv = removed_pre_cutoff K (pb_leaf_set b) cutoff rm ?pl"
  have lv: "elems K lv = L" unfolding lv_def L_def using removed_pre_cutoff_elems [OF K ls, of cutoff rm ?pl] cut sz by simp
  have notC: "x \<notin> ?C" if "x \<in> L" for x
    using that is_pruned_elems(1) [OF K ok, of x] cut by (auto simp: L_def)
  have Lp: "list_all (\<lambda>x. 0 < x \<and> x \<le> mmr_size ?n \<and> is_leaf x) (bm_iter K lv)"
    using lv cut by (auto simp: list_all_iff L_def)
  obtain pl' where pl': "prune_leaves K ?pl (bm_iter K lv) = Some pl'" "prune_ok K ?n pl'"
      "leaves_of (elems K (pl_pruned_cache pl')) = leaves_of ?C \<union> L"
    using prune_leaves_ok [OF K ok Lp] lv by auto
  have inv': "prune_inv (elems K (pl_bitmap pl')) (elems K (pl_pruned_cache pl'))" using pl'(2) by (simp add: prune_ok_def)
  have C': "elems K (pl_pruned_cache pl') = full (leaves_of ?C \<union> L)" using prune_inv_full [OF inv'] pl'(3) by simp
  have "expansion ?R ?C {} = {}"
    using prune_inv_full [OF inv] compacted_parent [OF inv] prune_inv_roots [OF inv] by (auto simp: expansion_def compacted_def)
  moreover have "leaves_of ?C \<union> {} \<union> set (bm_iter K lv) \<subseteq> {..mmr_size ?n}" using Cb Lp by (auto simp: leaves_of_def list_all_iff)
  moreover have "distinct (bm_iter K lv)" using bitmap_sorted [OF K, of lv] by (simp add: strict_sorted_iff)
  moreover have "set (bm_iter K lv) \<inter> (?C \<union> {}) = {}" using notC lv by auto
  moreover have "list_all (\<lambda>x. 0 < x \<and> is_leaf x) (bm_iter K lv)" using Lp by (simp add: list_all_iff)
  ultimately obtain e where e: "expand_leaves K ?pl (bm_create K) (bm_iter K lv) = Some e" "elems K e = expansion ?R ?C L"
    using expand_leaves_returns [OF K inv pruned_roots_def sz, of "{}" "bm_iter K lv" "bm_create K"] lv
    by (auto simp: bitmap_elems [OF K])
  have eb: "elems K e \<subseteq> {..mmr_size ?n}"
  proof -
    have "leaves_of ?C \<union> L \<subseteq> {..mmr_size ?n}" using Cb cut by (auto simp: leaves_of_def L_def)
    then show ?thesis using full_bound prune_inv_roots [OF inv] Cb unfolding e(2) expansion_def by blast
  qed
  have "parent_of q \<in> elems K e \<longleftrightarrow> as_u32 (parent_of q) \<in> elems K e" if "q \<in> elems K e" for q
  proof -
    have q: "0 < q" "q \<le> mmr_size ?n" using that eb e(2) inv by (auto simp: expansion_def full_def prune_inv_def antichain_def intro: gr0I)
    then show ?thesis using parent_upper [OF q(1)] sz by (simp add: width)
  qed
  then have r: "elems K (removed_excl_roots K e) = {q \<in> elems K e. parent_of q \<in> elems K e}"
    by (auto simp: removed_excl_roots_def bitmap_elems [OF K] bitmap_queries [OF K] parent_of_def)
  have "pos_to_rm K b cutoff rm = Some (lv, removed_excl_roots K e)"
    by (simp add: pos_to_rm_def lv_def [symmetric] e(1))
  then show ?thesis
    using lv pl' r e(2) removed_are_compacted [OF inv, of "elems K (pl_bitmap pl')" L] inv' C' by auto
qed

lemma compact_hashes:
  assumes lo: "list_ok K b" and r: "elems K r \<inter> compacted (pruned_roots K b) = {}" "elems K r \<subseteq> {0<..mmr_size n}" "mmr_size n < u32_size"
    and c: "compacted R' = compacted (pruned_roots K b) \<union> elems K r"
    and f: "file_holds write_hash f (kept_hashes (pruned_roots K b) H) X" "synced f"
  shows "\<exists>rm f'. map_opt (\<lambda>pos. map_option (u64_sub pos) (get_shift K (pb_prune_list b) pos)) (bm_iter K r) = Some rm \<and>
    data_save_prune read_hash write_hash f rm = Some f' \<and> file_holds write_hash f' (kept_hashes R' H) (kept_hashes R' H) \<and>
    synced f' \<and> elmt_len f' = elmt_len f"
proof -
  define C where "C = compacted (pruned_roots K b)"
  define A where "A = {i. Suc i \<notin> C}"
  define g where "g = (\<lambda>p. Suc (card {j \<in> A. j < p - 1}))"
  have p: "0 < p" "p < u32_size" "p \<notin> C" if "p \<in> elems K r" for p using r that unfolding C_def by auto
  have shift: "map_option (u64_sub p) (get_shift K (pb_prune_list b) p) = Some (g p)" if "p \<in> elems K r" for p
  proof -
    note q = p [OF that]
    have "{q \<in> C. q \<le> p} \<subseteq> {1..<p}" using q(3) compacted_gt_0 unfolding C_def by (force simp: Suc_le_eq le_neq_trans)
    then have "card {q \<in> C. q \<le> p} < p" using card_mono [of "{1..<p}" "{q \<in> C. q \<le> p}"] q(1) by simp
    then show ?thesis using list_ok_facts(4) [OF K lo q(2,1) q(3) [unfolded C_def], folded C_def] hash_rank [OF q(1) q(3) [unfolded C_def], folded C_def, folded A_def] q(1)
      by (simp add: g_def width)
  qed
  then have opt: "map_opt (\<lambda>pos. map_option (u64_sub pos) (get_shift K (pb_prune_list b) pos)) (bm_iter K r) = Some (map g (bm_iter K r))"
    by (intro map_opt_Some) (simp add: list_all_iff)
  have mono: "sorted_wrt (<) (map (\<lambda>p. p - 1) (bm_iter K r))"
    unfolding sorted_wrt_map
  proof (rule sorted_wrt_mono_rel [OF _ bitmap_sorted [OF K]])
    fix x y assume "x \<in> set (bm_iter K r)" "x < y"
    moreover have "0 < x" using p(1) [of x] \<open>x \<in> set (bm_iter K r)\<close> by simp
    ultimately show "x - 1 < y - 1" by linarith
  qed
  have in_A: "list_all (\<lambda>p. p - 1 \<in> A) (bm_iter K r)" using p by (simp add: list_all_iff A_def)
  note ranks = pruned_ranks [OF mono in_A g_def]
  have "A - (\<lambda>p. p - 1) ` elems K r = {i. Suc i \<notin> compacted R'}"
  proof (intro set_eqI)
    fix i
    have "i \<in> (\<lambda>p. p - 1) ` elems K r \<longleftrightarrow> Suc i \<in> elems K r"
      using p(1) by (metis (no_types, lifting) One_nat_def Suc_pred diff_Suc_1 image_iff)
    then show "i \<in> A - (\<lambda>p. p - 1) ` elems K r \<longleftrightarrow> i \<in> {i. Suc i \<notin> compacted R'}" by (simp add: A_def c C_def)
  qed
  then have kept: "nths (kept_hashes (pruned_roots K b) H) {i. Suc i \<notin> set (map g (bm_iter K r))} = kept_hashes R' H"
    using ranks(3) [of H] by (simp add: kept_hashes_def A_def C_def)
  have "list_all (\<lambda>_. True) (kept_hashes (pruned_roots K b) H)" by (simp add: list_all_iff)
  from hash_file.data_save_prune_holds [OF f this ranks(1,2)] kept opt show ?thesis by auto
qed

lemma compact_data:
  assumes lo: "list_ok K b" and r: "elems K r \<inter> compacted (pruned_roots K b) = {}" "elems K r \<subseteq> {0<..mmr_size n}" "mmr_size n < u32_size"
    and c: "compacted R' = compacted (pruned_roots K b) \<union> elems K r"
    and f: "file_holds put f (kept_data (pruned_roots K b) E) X" "synced f" "list_all ok E"
  shows "\<exists>rm f'. map_opt (\<lambda>pos. map_option (u64_sub (n_leaves pos)) (get_leaf_shift K (pb_prune_list b) pos)) (filter is_leaf (bm_iter K r)) = Some rm \<and>
    data_save_prune get put f rm = Some f' \<and> file_holds put f' (kept_data R' E) (kept_data R' E) \<and>
    synced f' \<and> elmt_len f' = elmt_len f"
proof -
  define C where "C = compacted (pruned_roots K b)"
  define A where "A = {j. node_pos j 0 \<notin> C}"
  define xs where "xs = filter is_leaf (bm_iter K r)"
  define g where "g = (\<lambda>p. Suc (card {j \<in> A. j < n_leaves p - 1}))"
  have leaf: "\<exists>m. p = node_pos m 0 \<and> p < u32_size \<and> p \<notin> C" if "p \<in> set xs" for p
  proof -
    have "p \<in> elems K r" "is_leaf p" using that by (simp_all add: xs_def)
    moreover have "0 < p" "p < u32_size" "p \<notin> C" using r \<open>p \<in> elems K r\<close> unfolding C_def by auto
    ultimately show ?thesis using leaf_cases [of p] by blast
  qed
  have shift: "map_option (u64_sub (n_leaves p)) (get_leaf_shift K (pb_prune_list b) p) = Some (g p)" if xs: "p \<in> set xs" for p
  proof -
    obtain m where m: "p = node_pos m 0" "p < u32_size" "p \<notin> C" using leaf [OF xs] by blast
    have le: "card {q \<in> C. q \<le> p \<and> is_leaf q} \<le> m" unfolding m(1) C_def by (rule leaves_before) (use m in \<open>simp add: C_def\<close>)
    show ?thesis using list_ok_facts(4) [OF K lo m(2) _ m(3) [unfolded C_def], folded C_def]
        data_rank [OF m(3) [unfolded m(1) C_def], folded C_def, folded A_def m(1)] le
      by (simp add: g_def m(1) n_leaves_leaf width Suc_diff_le)
  qed
  then have opt: "map_opt (\<lambda>pos. map_option (u64_sub (n_leaves pos)) (get_leaf_shift K (pb_prune_list b) pos)) xs = Some (map g xs)"
    by (intro map_opt_Some) (simp add: list_all_iff)
  have mono: "sorted_wrt (<) (map (\<lambda>p. n_leaves p - 1) xs)"
    unfolding sorted_wrt_map
  proof (rule sorted_wrt_mono_rel)
    show "sorted_wrt (<) xs" unfolding xs_def by (rule set_bm_iter_sorted [OF K])
    fix x y assume "x \<in> set xs" "y \<in> set xs" "x < y"
    then obtain m m' where "x = node_pos m 0" "y = node_pos m' 0" "x < y" using leaf by blast
    then show "n_leaves x - 1 < n_leaves y - 1" by (simp add: n_leaves_leaf leaf_pos_less)
  qed
  have in_A: "list_all (\<lambda>p. n_leaves p - 1 \<in> A) xs"
    unfolding list_all_iff
  proof
    fix p assume "p \<in> set xs"
    then obtain m where "p = node_pos m 0" "p \<notin> C" using leaf by blast
    then show "n_leaves p - 1 \<in> A" by (simp add: A_def n_leaves_leaf)
  qed
  note ranks = pruned_ranks [OF mono in_A g_def]
  have "A - (\<lambda>p. n_leaves p - 1) ` set xs = {m. node_pos m 0 \<notin> compacted R'}"
  proof (intro set_eqI)
    fix m
    have "m \<in> (\<lambda>p. n_leaves p - 1) ` set xs \<longleftrightarrow> node_pos m 0 \<in> set xs"
    proof
      assume "m \<in> (\<lambda>p. n_leaves p - 1) ` set xs"
      then obtain p where p: "p \<in> set xs" "m = n_leaves p - 1" by blast
      moreover obtain k where "p = node_pos k 0" using leaf [OF p(1)] by blast
      ultimately show "node_pos m 0 \<in> set xs" by (simp add: n_leaves_leaf)
    next
      assume "node_pos m 0 \<in> set xs"
      then show "m \<in> (\<lambda>p. n_leaves p - 1) ` set xs" by (rule image_eqI [rotated]) (simp add: n_leaves_leaf)
    qed
    moreover have "node_pos m 0 \<in> set xs \<longleftrightarrow> node_pos m 0 \<in> elems K r" by (simp add: xs_def is_leaf_node)
    ultimately show "m \<in> A - (\<lambda>p. n_leaves p - 1) ` set xs \<longleftrightarrow> m \<in> {m. node_pos m 0 \<notin> compacted R'}" by (simp add: A_def c C_def)
  qed
  then have kept: "nths (kept_data (pruned_roots K b) E) {i. Suc i \<notin> set (map g xs)} = kept_data R' E"
    using ranks(3) [of E] by (simp add: kept_data_def A_def C_def)
  have "list_all ok (kept_data (pruned_roots K b) E)" using f(3) by (simp add: kept_data_def list_all_part)
  from data_save_prune_holds [OF f(1,2) this ranks(1,2)] kept opt show ?thesis by (auto simp: xs_def)
qed

lemma check_compact_store:
  assumes h: "store_holds K put ok l b H E H E" and sy: "synced (pb_hash_file b)" "synced (pb_data_file b)" and pr: "pb_prunable b"
    and d: "pruned_dead K b (length E)" and cut: "cutoff \<le> mmr_size (length E)"
  shows "\<exists>b'. check_compact K put get b cutoff rm = Some b' \<and> store_holds K put ok l b' H E H E \<and>
    synced (pb_hash_file b') \<and> synced (pb_data_file b') \<and> pb_prunable b' \<and> pb_leaf_set b' = leaf_set_flush (pb_leaf_set b) \<and>
    pruned_dead K b' (length E) \<and> compacted (pruned_roots K b) \<subseteq> compacted (pruned_roots K b') \<and>
    leaves_of (elems K (pl_pruned_cache (pb_prune_list b'))) \<subseteq> leaves_of (elems K (pl_pruned_cache (pb_prune_list b))) \<union>
      {x. 0 < x \<and> x \<le> cutoff \<and> is_leaf x \<and> x \<notin> leaves K (pb_leaf_set b) \<and> x \<notin> elems K rm}"
proof -
  let ?n = "length E" and ?R = "pruned_roots K b" and ?pl = "pb_prune_list b"
  define L where "L = {x \<in> {1..cutoff}. is_leaf x \<and> \<not> is_pruned K ?pl x \<and> x \<notin> leaves K (pb_leaf_set b) \<and> x \<notin> elems K rm}"
  obtain lv r pl where r: "pos_to_rm K b cutoff rm = Some (lv, r)" and lv: "elems K lv = L"
    and pl: "prune_leaves K ?pl (bm_iter K lv) = Some pl" "prune_ok K ?n pl"
    and lf: "leaves_of (elems K (pl_pruned_cache pl)) = leaves_of (elems K (pl_pruned_cache ?pl)) \<union> L"
    and rc: "elems K r = compacted (elems K (pl_bitmap pl)) - compacted ?R" and mono: "compacted ?R \<subseteq> compacted (elems K (pl_bitmap pl))"
    using pos_to_rm_returns [OF h d cut L_def] by blast
  obtain pl' where pl': "prune_list_flush K pl = Some pl'" "prune_ok K ?n pl'" "caches_ok K pl'" "pl_bitmap pl' = pl_bitmap pl"
      "elems K (pl_pruned_cache pl') = elems K (pl_pruned_cache pl)"
    using init_caches_ok [OF K pl(2)] by (auto simp: prune_list_flush_def)
  define R' where "R' = elems K (pl_bitmap pl')"
  have sz: "mmr_size ?n < u32_size" and lo: "list_ok K b" using h by (simp_all add: store_holds_def range_ok_def)
  have inv': "prune_inv R' (elems K (pl_pruned_cache pl'))" and C': "elems K (pl_pruned_cache pl') \<subseteq> {..mmr_size ?n}"
    using pl'(2) by (simp_all add: prune_ok_def R'_def)
  have cR': "compacted R' \<subseteq> elems K (pl_pruned_cache pl')" using inv' by (auto simp: prune_inv_def compacted_def)
  have c: "compacted R' = compacted ?R \<union> elems K r" "elems K r \<inter> compacted ?R = {}" using rc mono pl'(4) by (auto simp: R'_def)
  have rr: "elems K r \<subseteq> {0<..mmr_size ?n}" using c(1) cR' C' compacted_gt_0 by fastforce
  obtain hrm hf where hf: "map_opt (\<lambda>pos. map_option (u64_sub pos) (get_shift K ?pl pos)) (bm_iter K r) = Some hrm"
      "data_save_prune read_hash write_hash (pb_hash_file b) hrm = Some hf" "file_holds write_hash hf (kept_hashes R' H) (kept_hashes R' H)"
      "synced hf" "elmt_len hf = elmt_len (pb_hash_file b)"
    using compact_hashes [OF lo c(2) rr sz c(1) _ sy(1), of H "kept_hashes ?R H"] h by (auto simp: store_holds_def)
  obtain drm df where df: "map_opt (\<lambda>pos. map_option (u64_sub (n_leaves pos)) (get_leaf_shift K ?pl pos)) (filter is_leaf (bm_iter K r)) = Some drm"
      "data_save_prune get put (pb_data_file b) drm = Some df" "file_holds put df (kept_data R' E) (kept_data R' E)"
      "synced df" "elmt_len df = elmt_len (pb_data_file b)"
    using compact_data [OF lo c(2) rr sz c(1) _ sy(2), of E "kept_data ?R E"] h by (auto simp: store_holds_def)
  let ?b = "b\<lparr>pb_hash_file := hf, pb_data_file := df, pb_prune_list := pl', pb_leaf_set := leaf_set_flush (pb_leaf_set b)\<rparr>"
  have R: "pruned_roots K ?b = R'" by (simp add: pruned_roots_def R'_def)
  have ret: "check_compact K put get b cutoff rm = Some ?b" using pr r hf(1,2) df(1,2) pl(1) pl'(1) by (simp add: check_compact_def)
  have "list_ok K ?b" using pl'(2,3) by (auto simp: list_ok_def)
  moreover have "compacted R' \<subseteq> {..mmr_size ?n}" using cR' C' by blast
  ultimately have st: "store_holds K put ok l ?b H E H E"
    unfolding store_holds_def R using h hf(3,5) df(3,5) by (simp add: store_holds_def leaf_set_flush_def)
  have pd: "is_leaf x \<Longrightarrow> x \<in> elems K (pl_pruned_cache pl') \<Longrightarrow> x \<in> elems K (pl_pruned_cache ?pl) \<or> x \<in> L" for x
    using lf pl'(5) by (auto simp: leaves_of_def)
  have dead: "pruned_dead K ?b ?n"
    using d C' pd by (fastforce simp: pruned_dead_def leaf_set_flush_def L_def)
  have new: "leaves_of (elems K (pl_pruned_cache pl')) \<subseteq> leaves_of (elems K (pl_pruned_cache ?pl)) \<union>
      {x. 0 < x \<and> x \<le> cutoff \<and> is_leaf x \<and> x \<notin> leaves K (pb_leaf_set b) \<and> x \<notin> elems K rm}"
    unfolding pl'(5) lf L_def by auto
  show ?thesis using ret st hf(4) df(4) pr dead mono new pl'(4) unfolding R R'_def by (intro exI [of _ ?b]) (simp add: pruned_roots_def)
qed

end

end
