(* ===== verification/Pmmr_Session.thy ===== *)
theory Pmmr_Session
  imports Store_Compact Merkle_Proof
begin

text \<open>
  A range kept in files over a unit of work: the state on disk, the current state, and what compaction
  has taken from the files. Pushes, prunes and rewinds change the current state only; a sync makes it the
  one on disk, a discard goes back to the one on disk, and a compaction changes neither. The lemmas are
  proved once for every element file and are what the sets of ranges of the chain rest on.
\<close>

section \<open>Definitions\<close>

text \<open>\<open>PMMRBackend::new\<close> on what is on disk; \<open>l\<close> is the length of the elements, \<open>None\<close> for a file with a
  size file. The bitmaps are those of the leaf set and the prune list files.\<close>

definition backend_new :: "'bm bitmap_ops \<Rightarrow> 'e read \<Rightarrow> bool \<Rightarrow> nat option \<Rightarrow> u8 list \<Rightarrow> u8 list \<Rightarrow> u8 list \<Rightarrow> 'bm \<Rightarrow> 'bm \<Rightarrow> 'bm pmmr_backend option" where
  "backend_new K get prunable l hashes_on_disk data_on_disk sizes_on_disk leaf_bitmap prune_bitmap =
     Option.bind (open_file read_hash (Some HASH_LEN) hashes_on_disk []) (\<lambda>hash_file.
     Option.bind (open_file get l data_on_disk sizes_on_disk) (\<lambda>data_file.
     Option.bind (prune_list_open K prune_bitmap) (\<lambda>prune_list.
       Some \<lparr>pb_prunable = prunable, pb_hash_file = hash_file, pb_data_file = data_file,
         pb_leaf_set = leaf_set_open leaf_bitmap, pb_prune_list = prune_list\<rparr>)))"

record 'bm pmmr_handle =
  ph_backend :: "'bm pmmr_backend"
  ph_last_pos :: u64

definition handle_new :: "'bm bitmap_ops \<Rightarrow> 'bm pmmr_backend \<Rightarrow> 'bm pmmr_handle option" where
  "handle_new K b = map_option (\<lambda>last_pos. \<lparr>ph_backend = b, ph_last_pos = last_pos\<rparr>) (backend_unpruned_size K b)"

text \<open>What a restart finds on disk.\<close>

definition size_bytes_of :: "aof \<Rightarrow> u8 list" where
  "size_bytes_of f = (case size_info f of VariableSize s \<Rightarrow> on_disk (raw s) | _ \<Rightarrow> [])"

definition reopen_backend :: "'bm bitmap_ops \<Rightarrow> 'e read \<Rightarrow> 'bm pmmr_backend \<Rightarrow> 'bm pmmr_backend option" where
  "reopen_backend K get b = backend_new K get (pb_prunable b) (elmt_len (pb_data_file b)) (on_disk (raw (pb_hash_file b)))
     (on_disk (raw (pb_data_file b))) (size_bytes_of (pb_data_file b)) (ls_bitmap_bak (pb_leaf_set b)) (pl_bitmap (pb_prune_list b))"

section \<open>The state of a unit of work\<close>

text \<open>\<open>session K put ok l as_elmt hl hn b xs0 live0 xs live gone\<close>: the elements \<open>xs0\<close> with the unspent
  positions \<open>live0\<close> are on disk, \<open>xs\<close> and \<open>live\<close> are the current ones, and only leaves of \<open>gone\<close> have been
  handed to compaction. After a rewind the leaf set may hold positions behind the end of the range: the
  ones that were added and removed again since the point it is rewound to.\<close>

definition leaf_positions :: "nat \<Rightarrow> nat set" where
  "leaf_positions n = (\<lambda>m. node_pos m 0) ` {..<n}"

lemma leaf_positions_iff: "p \<in> leaf_positions n \<longleftrightarrow> 0 < p \<and> p \<le> mmr_size n \<and> is_leaf p"
proof
  assume "0 < p \<and> p \<le> mmr_size n \<and> is_leaf p"
  moreover from this obtain m where "p = node_pos m 0" using leaf_cases by blast
  ultimately show "p \<in> leaf_positions n" by (simp add: leaf_positions_def node_pos_le_size)
qed (auto simp: leaf_positions_def node_pos_le_size is_leaf_node)

lemma leaf_positions_Suc: "leaf_positions (Suc n) = insert (node_pos n 0) (leaf_positions n)"
  by (simp add: leaf_positions_def lessThan_Suc)

definition session :: "'bm bitmap_ops \<Rightarrow> ('e \<Rightarrow> u8 list) \<Rightarrow> ('e \<Rightarrow> bool) \<Rightarrow> nat option \<Rightarrow> ('t \<Rightarrow> 'e) \<Rightarrow> ('t \<Rightarrow> u64 \<Rightarrow> hash) \<Rightarrow>
    (hash \<times> hash \<Rightarrow> u64 \<Rightarrow> hash) \<Rightarrow> 'bm pmmr_backend \<Rightarrow> 't list \<Rightarrow> nat set \<Rightarrow> 't list \<Rightarrow> nat set \<Rightarrow> nat set \<Rightarrow> bool" where
  "session K put ok l as_elmt hl hn b xs0 live0 xs live gone \<longleftrightarrow>
     store_holds K put ok l b (range_hashes hl hn xs0) (map as_elmt xs0) (range_hashes hl hn xs) (map as_elmt xs) \<and>
     leaves K (pb_leaf_set b) = live \<and> elems K (ls_bitmap_bak (pb_leaf_set b)) = live0 \<and>
     live \<subseteq> {x. 0 < x \<and> is_leaf x} \<and> live0 \<subseteq> {x. 0 < x \<and> is_leaf x} \<and> gone \<inter> live = {} \<and> gone \<inter> live0 = {} \<and>
     gone \<subseteq> {..mmr_size (length xs0)} \<and> gone \<subseteq> {..mmr_size (length xs)} \<and>
     leaves_of (elems K (pl_pruned_cache (pb_prune_list b))) \<subseteq> gone"

definition at_rest :: "'bm pmmr_backend \<Rightarrow> bool" where
  "at_rest b \<longleftrightarrow> synced (pb_hash_file b) \<and> synced (pb_data_file b)"

text \<open>What the elements \<open>xs\<close> with the unspent positions \<open>live\<close> promise to a reader: the root, the unspent
  elements and only those, and a Merkle proof for each of them.\<close>

definition answers :: "('b, 't, 'e, hash, 'bm) backend \<Rightarrow> ('t \<Rightarrow> 'e) \<Rightarrow> ('t \<Rightarrow> u64 \<Rightarrow> hash) \<Rightarrow> (hash \<times> hash \<Rightarrow> u64 \<Rightarrow> hash) \<Rightarrow>
    hash \<Rightarrow> 'b pmmr \<Rightarrow> 't list \<Rightarrow> nat set \<Rightarrow> bool" where
  "answers B as_elmt hl hn zero_hash p xs live \<longleftrightarrow>
     pmmr_root B hn zero_hash p = range_root hl hn zero_hash xs \<and>
     be_leaf_pos_iter B (pm_backend p) = Some (sorted_list_of_set live) \<and>
     (\<forall>m < length xs. pmmr_get_data B p (node_pos m 0) = (if node_pos m 0 \<in> live then Some (as_elmt (xs ! m)) else None)) \<and>
     (\<forall>m < length xs. \<forall>root. node_pos m 0 \<in> live \<and> range_root hl hn zero_hash xs = Some root \<longrightarrow>
       (\<exists>proof. pmmr_merkle_proof B hn p (node_pos m 0) = Inr proof \<and> merkle_verify hn proof root (hl (xs ! m)) (node_pos m 0) = Inr ()))"

lemma at_rest_clean: "at_rest b \<Longrightarrow> store_clean b"
  by (simp add: at_rest_def store_clean_def synced_clean)

lemma prune_list_open_ok:
  assumes K: "bitmap_laws K" and ok: "prune_ok K n pl"
  shows "\<exists>pl'. prune_list_open K (pl_bitmap pl) = Some pl' \<and> prune_ok K n pl' \<and> caches_ok K pl' \<and> pl_bitmap pl' = pl_bitmap pl \<and>
    elems K (pl_pruned_cache pl') = elems K (pl_pruned_cache pl)"
proof (cases "elems K (pl_bitmap pl) = {}")
  case True
  then have "elems K (pl_pruned_cache pl) = {}" using ok by (simp add: prune_ok_def prune_inv_def covered_def)
  then show ?thesis using True ok
    by (simp add: prune_list_open_def init_caches_def build_shift_cache_def build_leaf_shift_cache_def build_pruned_cache_def
        bitmap_queries [OF K] bitmap_elems [OF K] caches_ok_def prune_ok_def)
next
  case False
  have "prune_list_open K (pl_bitmap pl) = init_caches K (pl\<lparr>pl_shift_cache := [], pl_leaf_shift_cache := []\<rparr>)"
    using False by (cases pl) (simp add: prune_list_open_def init_caches_def build_shift_cache_def build_leaf_shift_cache_def build_pruned_cache_def
        bitmap_queries(4) [OF K] Let_def bind_map_option comp_def)
  moreover have "prune_ok K n (pl\<lparr>pl_shift_cache := [], pl_leaf_shift_cache := []\<rparr>)" using ok by (simp add: prune_ok_def)
  ultimately show ?thesis using init_caches_ok [OF K, of n "pl\<lparr>pl_shift_cache := [], pl_leaf_shift_cache := []\<rparr>"] by simp
qed

text \<open>Compaction does not reach behind the leaves it was given, nor the peaks of a range that has them all.\<close>

lemma compacted_bound:
  assumes inv: "prune_inv R C" and g: "leaves_of C \<subseteq> {..mmr_size k}"
  shows "C \<subseteq> {..mmr_size k}" and "compacted R \<subseteq> {..mmr_size k}" and "compacted R \<inter> set (peaks (mmr_size k)) = {}"
proof -
  show C: "C \<subseteq> {..mmr_size k}" using full_bound [OF g] prune_inv_full [OF inv] by simp
  have c: "compacted R = {q \<in> C. parent_of q \<in> C}" by (rule compacted_parent [OF inv])
  then show "compacted R \<subseteq> {..mmr_size k}" using C by auto
  have "parent_of q > mmr_size k" if "q \<in> set (peaks (mmr_size k))" for q
    using that by (simp add: set_peaks parent_of_def)
  then show "compacted R \<inter> set (peaks (mmr_size k)) = {}" using c C by fastforce
qed

lemma session_compacted:
  assumes s: "session K put ok l as_elmt hl hn b xs0 live0 xs live gone" and k: "gone \<subseteq> {..mmr_size k}"
  shows "elems K (pl_pruned_cache (pb_prune_list b)) \<subseteq> {..mmr_size k}" and "compacted (pruned_roots K b) \<subseteq> {..mmr_size k}"
    and "set (peaks (mmr_size k)) \<subseteq> - compacted (pruned_roots K b)" and "compacted (pruned_roots K b) \<inter> Collect is_leaf \<subseteq> gone"
proof -
  obtain N where "prune_ok K N (pb_prune_list b)" using s by (auto simp: session_def store_holds_def list_ok_def)
  then have inv: "prune_inv (pruned_roots K b) (elems K (pl_pruned_cache (pb_prune_list b)))" by (simp add: prune_ok_def pruned_roots_def)
  have "leaves_of (elems K (pl_pruned_cache (pb_prune_list b))) \<subseteq> {..mmr_size k}" using s k by (auto simp: session_def)
  note c = compacted_bound [OF inv this]
  show "elems K (pl_pruned_cache (pb_prune_list b)) \<subseteq> {..mmr_size k}" "compacted (pruned_roots K b) \<subseteq> {..mmr_size k}" by (rule c)+
  show "set (peaks (mmr_size k)) \<subseteq> - compacted (pruned_roots K b)" using c(3) by blast
  have "compacted (pruned_roots K b) \<subseteq> elems K (pl_pruned_cache (pb_prune_list b))" using inv by (auto simp: prune_inv_def compacted_def)
  then show "compacted (pruned_roots K b) \<inter> Collect is_leaf \<subseteq> gone" using s by (auto simp: session_def leaves_of_def)
qed

text \<open>The siblings on the way from a leaf to its peak hang below ancestors of the leaf.\<close>

lemma branch_above:
  assumes "node m h" and "x \<in> set (family_branch (node_pos m h) lst)"
  shows "beneath (node_pos m h) (parent_of (snd x))"
  using assms
proof (induction "lst - node_pos m h" arbitrary: m h rule: less_induct)
  case less
  let ?p = "node_pos (par m h) (Suc h)"
  have p: "parent_of (node_pos m h) = ?p" "sibling_of (node_pos m h) = node_pos (sib m h) h"
    using family_node [OF less.prems(1)] by (simp_all add: parent_of_def sibling_of_def)
  have sb: "parent_of (node_pos (sib m h) h) = ?p" using sibling_facts [of "node_pos m h"] p by simp
  have le: "?p \<le> lst" and x: "x = (?p, node_pos (sib m h) h) \<or> x \<in> set (family_branch ?p lst)"
    using less.prems family_branch_node [of m h lst] by (auto split: if_splits)
  show ?case
  proof (cases "x = (?p, node_pos (sib m h) h)")
    case True
    then show ?thesis using under_parent [of "node_pos m h"] p sb by simp
  next
    case False
    then have "beneath ?p (parent_of (snd x))"
      using x le less.hyps [of "par m h" "Suc h"] node_pos_par [of m h] node_par [OF less.prems(1)] by simp
    then show ?thesis using under_trans [OF under_parent [of "node_pos m h"]] p by simp
  qed
qed

lemma session_branch:
  assumes s: "session K put ok l as_elmt hl hn b xs0 live0 xs live gone" and m: "m < length xs" "node_pos m 0 \<in> live"
  shows "snd ` set (family_branch (node_pos m 0) (mmr_size (length xs))) \<subseteq> - compacted (pruned_roots K b)"
proof
  fix q assume "q \<in> snd ` set (family_branch (node_pos m 0) (mmr_size (length xs)))"
  then have ab: "beneath (node_pos m 0) (parent_of q)" using branch_above [OF node_0] by auto
  let ?C = "elems K (pl_pruned_cache (pb_prune_list b))"
  obtain N where "prune_ok K N (pb_prune_list b)" using s by (auto simp: session_def store_holds_def list_ok_def)
  then have inv: "prune_inv (pruned_roots K b) ?C" by (simp add: prune_ok_def pruned_roots_def)
  show "q \<in> - compacted (pruned_roots K b)"
  proof
    assume "q \<in> compacted (pruned_roots K b)"
    then have "parent_of q \<in> full (leaves_of ?C)" using compacted_parent [OF inv] prune_inv_full [OF inv] by blast
    moreover have "0 < node_pos m 0" "is_leaf (node_pos m 0)" by (simp_all add: is_leaf_node)
    ultimately have "node_pos m 0 \<in> leaves_of ?C" using ab by (simp add: full_def)
    then show False using s m by (auto simp: session_def)
  qed
qed

context element_store
begin

lemma session_holds:
  assumes s: "session K put ok l as_elmt hl hn b xs0 live0 xs live gone"
  shows "pmmr_holds (store_repr K put ok l) as_elmt hl hn \<lparr>last_pos = mmr_size (length xs), pm_backend = b\<rparr> xs (- compacted (pruned_roots K b))"
    and "pb_prunable b \<Longrightarrow>
      pmmr_holds (prunable_repr K put ok l) as_elmt hl hn \<lparr>last_pos = mmr_size (length xs), pm_backend = b\<rparr> xs (- compacted (pruned_roots K b))"
proof -
  have g: "gone \<subseteq> {..mmr_size (length xs)}" using s by (simp add: session_def)
  have "store_repr K put ok l b (range_hashes hl hn xs) (map as_elmt xs) (- compacted (pruned_roots K b))"
    using s by (auto simp: session_def store_repr_def)
  with session_compacted(3) [OF s g]
  show "pmmr_holds (store_repr K put ok l) as_elmt hl hn \<lparr>last_pos = mmr_size (length xs), pm_backend = b\<rparr> xs (- compacted (pruned_roots K b))"
    and "pb_prunable b \<Longrightarrow>
      pmmr_holds (prunable_repr K put ok l) as_elmt hl hn \<lparr>last_pos = mmr_size (length xs), pm_backend = b\<rparr> xs (- compacted (pruned_roots K b))"
    by (simp_all add: pmmr_holds_def prunable_repr_def)
qed

lemma session_push:
  assumes s: "session K put ok l as_elmt hl hn b xs0 live0 xs live gone" and x: "ok (as_elmt x)"
    and sz: "2 * mmr_size (Suc (length xs)) < u32_size"
  shows "\<exists>b'. pmmr_push (store_backend K put get as_elmt) hl hn \<lparr>last_pos = mmr_size (length xs), pm_backend = b\<rparr> x =
      Inr (node_pos (length xs) 0, \<lparr>last_pos = mmr_size (Suc (length xs)), pm_backend = b'\<rparr>) \<and>
    session K put ok l as_elmt hl hn b' xs0 live0 (xs @ [x]) (if pb_prunable b then insert (node_pos (length xs) 0) live else live) gone \<and>
    pb_prunable b' = pb_prunable b"
proof -
  let ?n = "length xs" and ?hs = "map (node_hash hl hn (xs @ [x]) (length xs)) [0..<mmr_size (Suc (length xs)) - mmr_size (length xs)]"
  have h: "store_holds K put ok l b (range_hashes hl hn xs0) (map as_elmt xs0) (range_hashes hl hn xs) (map as_elmt xs)"
    using s by (simp add: session_def)
  obtain b' where b': "backend_append K put as_elmt b x ?hs = Some (Inr b')"
      "store_holds K put ok l b' (range_hashes hl hn xs0) (map as_elmt xs0) (range_hashes hl hn xs @ ?hs) (map as_elmt xs @ [as_elmt x])"
      "pb_prune_list b' = pb_prune_list b" "pb_prunable b' = pb_prunable b"
      "pb_leaf_set b' = (if pb_prunable b then leaf_set_add K (pb_leaf_set b) (node_pos ?n 0) else pb_leaf_set b)"
    using append_store [OF h x, of ?hs] sz by auto
  have push: "pmmr_push (store_backend K put get as_elmt) hl hn \<lparr>last_pos = mmr_size ?n, pm_backend = b\<rparr> x =
      Inr (node_pos ?n 0, \<lparr>last_pos = mmr_size (Suc ?n), pm_backend = b'\<rparr>)"
    using files.push_appends [OF session_holds(1) [OF s] refl, of x] b'(1) by (simp add: store_backend_def panic_err_def node_pos_def)
  have le: "mmr_size ?n < mmr_size (Suc ?n)" by (simp add: mmr_size_less_iff)
  have pos: "node_pos ?n 0 = Suc (mmr_size ?n)" "as_u32 (node_pos ?n 0) = node_pos ?n 0"
    using sz le by (simp_all add: node_pos_def width)
  have "node_pos ?n 0 \<notin> gone" using s pos(1) by (auto simp: session_def)
  moreover have "is_leaf (node_pos ?n 0)" by (simp add: is_leaf_node)
  ultimately have "session K put ok l as_elmt hl hn b' xs0 live0 (xs @ [x]) (if pb_prunable b then insert (node_pos ?n 0) live else live) gone"
    using s b'(2,3,5) le pos by (auto simp: session_def range_hashes_snoc leaf_set_add_def bitmap_elems [OF K] leaf_positions_Suc)
  with push b'(4) show ?thesis by blast
qed

lemma session_read:
  assumes s: "session K put ok l as_elmt hl hn b xs0 live0 xs live gone" and pr: "pb_prunable b" and m: "m < length xs"
    and p: "p = \<lparr>last_pos = mmr_size (length xs), pm_backend = b\<rparr>"
  shows "pmmr_get_data (store_backend K put get as_elmt) p (node_pos m 0) = (if node_pos m 0 \<in> live then Some (as_elmt (xs ! m)) else None)"
    and "pmmr_get_hash (store_backend K put get as_elmt) p (node_pos m 0) = (if node_pos m 0 \<in> live then Some (hl (xs ! m) (mmr_size m)) else None)"
proof -
  have g: "gone \<subseteq> {..mmr_size (length xs)}" and lv: "leaves K (pb_leaf_set b) = live" "gone \<inter> live = {}" using s by (simp_all add: session_def)
  have A: "node_pos m 0 \<in> live \<Longrightarrow> node_pos m 0 \<notin> compacted (pruned_roots K b)"
    using session_compacted(4) [OF s g] lv(2) by (auto simp: is_leaf_node)
  have H: "pmmr_holds (prunable_repr K put ok l) as_elmt hl hn p xs (- compacted (pruned_roots K b))"
    unfolding p by (rule session_holds(2) [OF s pr])
  have q: "0 < node_pos m 0" "node_pos m 0 \<le> mmr_size (length xs)" "is_leaf (node_pos m 0)"
    using m by (simp_all add: node_pos_le_size is_leaf_node)
  show "pmmr_get_data (store_backend K put get as_elmt) p (node_pos m 0) = (if node_pos m 0 \<in> live then Some (as_elmt (xs ! m)) else None)"
    using live_files.data_holds [OF H m] A lv(1) by (simp add: p)
  have R: "prunable_repr K put ok l b (range_hashes hl hn xs) (map as_elmt xs) (- compacted (pruned_roots K b))"
    using H by (simp add: pmmr_holds_def p)
  have "be_get_hash (store_backend K put get as_elmt) b (node_pos m 0) =
      (if node_pos m 0 \<in> live then be_get_from_file (store_backend K put get as_elmt) b (node_pos m 0) else None)"
    using live_files.get_hash_live [OF R q(1) _ q(3)] q(2) lv(1) by simp
  then show "pmmr_get_hash (store_backend K put get as_elmt) p (node_pos m 0) = (if node_pos m 0 \<in> live then Some (hl (xs ! m) (mmr_size m)) else None)"
    using live_files.holds_get [OF H q(1,2)] A q(2,3) by (simp add: p pmmr_get_hash_def tree_hash_node not_less)
qed

lemma session_prune:
  assumes s: "session K put ok l as_elmt hl hn b xs0 live0 xs live gone" and pr: "pb_prunable b" and m: "m < length xs"
  shows "\<exists>b'. pmmr_prune (store_backend K put get as_elmt) \<lparr>last_pos = mmr_size (length xs), pm_backend = b\<rparr> (node_pos m 0) =
      Some (Inr (node_pos m 0 \<in> live, \<lparr>last_pos = mmr_size (length xs), pm_backend = b'\<rparr>)) \<and>
    session K put ok l as_elmt hl hn b' xs0 live0 xs (live - {node_pos m 0}) gone \<and> pb_prunable b'"
proof -
  let ?q = "node_pos m 0" and ?b = "b\<lparr>pb_leaf_set := leaf_set_remove K (pb_leaf_set b) (node_pos m 0)\<rparr>"
  have q: "?q \<le> mmr_size (length xs)" "is_leaf ?q" using m by (simp_all add: node_pos_le_size is_leaf_node)
  have "pmmr_get_hash (store_backend K put get as_elmt) \<lparr>last_pos = mmr_size (length xs), pm_backend = b\<rparr> ?q =
      (if ?q \<in> live then Some (hl (xs ! m) (mmr_size m)) else None)" by (rule session_read(2) [OF s pr m refl])
  then have h: "be_get_hash (store_backend K put get as_elmt) b ?q = (if ?q \<in> live then Some (hl (xs ! m) (mmr_size m)) else None)"
    using q by (simp add: pmmr_get_hash_def not_less)
  have "?q < u32_size" using s q(1) by (simp add: session_def store_holds_def range_ok_def)
  then have ls: "leaves K (leaf_set_remove K (pb_leaf_set b) ?q) = live - {?q}"
    "ls_bitmap_bak (leaf_set_remove K (pb_leaf_set b) ?q) = ls_bitmap_bak (pb_leaf_set b)"
    using s by (simp_all add: leaf_set_remove_def bitmap_elems [OF K] width session_def)
  then have "session K put ok l as_elmt hl hn ?b xs0 live0 xs (live - {?q}) gone"
    using s by (auto simp: session_def store_holds_def list_ok_def pruned_roots_def)
  moreover have "?q \<notin> live \<Longrightarrow> live - {?q} = live" by simp
  ultimately show ?thesis using h q(2) s pr
    by (auto simp: pmmr_prune_def store_backend_def backend_remove_def)
qed

lemma session_rewind:
  assumes s: "session K put ok l as_elmt hl hn b xs0 live0 xs live gone" and cl: "store_clean b" and k: "k \<le> length xs"
    and pos: "rewind_pos position = mmr_size k" and g: "gone \<subseteq> {..mmr_size k}"
    and rm: "elems K rm \<subseteq> {x. 0 < x \<and> is_leaf x \<and> x < u32_size}" "gone \<inter> elems K rm = {}" and np: "pb_prunable b \<or> live = {}"
  shows "\<exists>b'. pmmr_rewind (store_backend K put get as_elmt) \<lparr>last_pos = mmr_size (length xs), pm_backend = b\<rparr> position rm =
      Inr \<lparr>last_pos = mmr_size k, pm_backend = b'\<rparr> \<and>
    session K put ok l as_elmt hl hn b' xs0 live0 (take k xs) (if pb_prunable b then {x \<in> live. x \<le> mmr_size k} \<union> elems K rm else {}) gone \<and>
    pb_prunable b' = pb_prunable b \<and> store_clean b'"
proof -
  have h: "store_holds K put ok l b (range_hashes hl hn xs0) (map as_elmt xs0) (range_hashes hl hn xs) (map as_elmt xs)"
    and lv: "leaves K (pb_leaf_set b) = live" "live \<subseteq> {x. 0 < x \<and> is_leaf x}"
    using s by (simp_all add: session_def)
  have rm': "elems K rm \<subseteq> {..<u32_size}" using rm(1) by auto
  obtain b' where b': "backend_rewind K b (mmr_size k) rm = Some (Inr b')"
      "store_holds K put ok l b' (range_hashes hl hn xs0) (map as_elmt xs0) (take (mmr_size k) (range_hashes hl hn xs)) (take k (map as_elmt xs))"
      "pb_prune_list b' = pb_prune_list b" "pb_prunable b' = pb_prunable b" "clean (pb_hash_file b')" "clean (pb_data_file b')"
      "pb_leaf_set b' = (if pb_prunable b then leaf_set_rewind K (pb_leaf_set b) (mmr_size k) rm else pb_leaf_set b)"
    using rewind_store [OF h _ _ _ session_compacted(2) [OF s g] rm'] cl k by (auto simp: store_clean_def)
  have "range_hashes hl hn (take k xs) = take (mmr_size k) (range_hashes hl hn xs)"
    using take_range_hashes [of hl hn "take k xs" "drop k xs"] k by (simp add: min_absorb2)
  then have st: "store_holds K put ok l b' (range_hashes hl hn xs0) (map as_elmt xs0) (range_hashes hl hn (take k xs)) (map as_elmt (take k xs))"
    using b'(2) by (simp add: take_map)
  have "leaves K (pb_leaf_set b) \<subseteq> {..<u32_size}" using h by (simp add: store_holds_def)
  note lr = leaf_set_rewind_elems [OF K this, of "mmr_size k" rm]
  have bak: "ls_bitmap_bak (leaf_set_rewind K (pb_leaf_set b) (mmr_size k) rm) = ls_bitmap_bak (pb_leaf_set b)"
    by (simp add: leaf_set_rewind_def Let_def)
  let ?live = "if pb_prunable b then {x \<in> live. x \<le> mmr_size k} \<union> elems K rm else {}"
  have "leaves K (pb_leaf_set b') = ?live" "elems K (ls_bitmap_bak (pb_leaf_set b')) = live0"
    using b'(7) lr bak s np by (auto simp: session_def split: if_splits)
  moreover have "?live \<subseteq> {x. 0 < x \<and> is_leaf x}" using lv(2) rm(1) by auto
  moreover have "gone \<inter> ?live = {}" using s rm(2) by (auto simp: session_def)
  moreover have "length (take k xs) = k" using k by simp
  ultimately have "session K put ok l as_elmt hl hn b' xs0 live0 (take k xs) ?live gone"
    using s st b'(3) g unfolding session_def by simp
  then show ?thesis using b'(1,4,5,6) pos by (simp add: pmmr_rewind_def store_backend_def panic_err_def store_clean_def)
qed

lemma session_sync:
  assumes s: "session K put ok l as_elmt hl hn b xs0 live0 xs live gone" and np: "pb_prunable b \<or> live = live0"
  shows "\<exists>b'. backend_sync b = Some (Inr b') \<and> session K put ok l as_elmt hl hn b' xs live xs live gone \<and> at_rest b' \<and> pb_prunable b' = pb_prunable b"
proof -
  have h: "store_holds K put ok l b (range_hashes hl hn xs0) (map as_elmt xs0) (range_hashes hl hn xs) (map as_elmt xs)"
    using s by (simp add: session_def)
  obtain b' where b': "backend_sync b = Some (Inr b')"
      "store_holds K put ok l b' (range_hashes hl hn xs) (map as_elmt xs) (range_hashes hl hn xs) (map as_elmt xs)"
      "pb_prune_list b' = pb_prune_list b" "pb_prunable b' = pb_prunable b" "synced (pb_hash_file b')" "synced (pb_data_file b')"
      "pb_leaf_set b' = (if pb_prunable b then leaf_set_flush (pb_leaf_set b) else pb_leaf_set b)"
    using sync_store [OF h] by blast
  then have "session K put ok l as_elmt hl hn b' xs live xs live gone"
    using s np by (auto simp: session_def leaf_set_flush_def)
  then show ?thesis using b' by (simp add: at_rest_def)
qed

lemma session_discard:
  assumes s: "session K put ok l as_elmt hl hn b xs0 live0 xs live gone"
  shows "session K put ok l as_elmt hl hn (backend_discard b) xs0 live0 xs0 live0 gone" and "at_rest (backend_discard b)"
    and "pb_prunable (backend_discard b) = pb_prunable b"
proof -
  have h: "store_holds K put ok l b (range_hashes hl hn xs0) (map as_elmt xs0) (range_hashes hl hn xs) (map as_elmt xs)"
    using s by (simp add: session_def)
  note d = discard_store [OF h]
  show "session K put ok l as_elmt hl hn (backend_discard b) xs0 live0 xs0 live0 gone"
    using s d(1) by (auto simp: session_def backend_discard_def leaf_set_discard_def)
  show "at_rest (backend_discard b)" using d(2,3) by (simp add: at_rest_def)
qed (simp add: backend_discard_def)

lemma session_compact:
  assumes s: "session K put ok l as_elmt hl hn b xs live xs live gone" and r: "at_rest b" and pr: "pb_prunable b"
    and cut: "cutoff \<le> mmr_size (length xs)"
  shows "\<exists>b'. check_compact K put get b cutoff rm = Some b' \<and> at_rest b' \<and> pb_prunable b' \<and>
    session K put ok l as_elmt hl hn b' xs live xs live (gone \<union> {x. 0 < x \<and> x \<le> cutoff \<and> is_leaf x \<and> x \<notin> live \<and> x \<notin> elems K rm})"
proof -
  let ?C = "elems K (pl_pruned_cache (pb_prune_list b))"
  have h: "store_holds K put ok l b (range_hashes hl hn xs) (map as_elmt xs) (range_hashes hl hn xs) (map as_elmt xs)"
    and g: "gone \<subseteq> {..mmr_size (length xs)}" and lv: "leaves K (pb_leaf_set b) = live" "live \<subseteq> {x. 0 < x \<and> is_leaf x}" "gone \<inter> live = {}"
    and lo: "leaves_of ?C \<subseteq> gone"
    using s by (simp_all add: session_def)
  have leaf: "is_leaf x" "0 < x" if "x \<in> live" for x using that lv(2) by auto
  have dead: "pruned_dead K b (length (map as_elmt xs))"
    using session_compacted(1) [OF s g] lo lv leaf by (fastforce simp: pruned_dead_def leaves_of_def)
  obtain b' where b': "check_compact K put get b cutoff rm = Some b'" 
      "store_holds K put ok l b' (range_hashes hl hn xs) (map as_elmt xs) (range_hashes hl hn xs) (map as_elmt xs)"
      "synced (pb_hash_file b')" "synced (pb_data_file b')" "pb_prunable b'" "pb_leaf_set b' = leaf_set_flush (pb_leaf_set b)"
      "leaves_of (elems K (pl_pruned_cache (pb_prune_list b'))) \<subseteq> leaves_of ?C \<union> {x. 0 < x \<and> x \<le> cutoff \<and> is_leaf x \<and> x \<notin> leaves K (pb_leaf_set b) \<and> x \<notin> elems K rm}"
    using check_compact_store [OF h _ _ pr dead, of cutoff rm] r cut by (auto simp: at_rest_def)
  moreover from this(7) have "leaves_of (elems K (pl_pruned_cache (pb_prune_list b'))) \<subseteq>
      gone \<union> {x. 0 < x \<and> x \<le> cutoff \<and> is_leaf x \<and> x \<notin> live \<and> x \<notin> elems K rm}" using lo lv(1) by blast
  ultimately have "session K put ok l as_elmt hl hn b' xs live xs live (gone \<union> {x. 0 < x \<and> x \<le> cutoff \<and> is_leaf x \<and> x \<notin> live \<and> x \<notin> elems K rm})"
    using s cut by (auto simp: session_def leaf_set_flush_def)
  then show ?thesis using b' by (auto simp: at_rest_def)
qed

lemma session_size:
  assumes s: "session K put ok l as_elmt hl hn b xs0 live0 xs live gone"
  shows "backend_unpruned_size K b = Some (mmr_size (length xs0))"
proof -
  let ?H = "range_hashes hl hn xs0" and ?c = "compacted (pruned_roots K b)"
  have h: "file_holds write_hash (pb_hash_file b) (kept_hashes (pruned_roots K b) ?H) (kept_hashes (pruned_roots K b) (range_hashes hl hn xs))"
    and lo: "list_ok K b" and c: "?c \<subseteq> {..mmr_size (length xs0)}" and sz: "2 * mmr_size (length xs0) < u32_size"
    using s by (simp_all add: session_def store_holds_def range_ok_def)
  have "?c \<subseteq> {1..mmr_size (length xs0)}" using c compacted_gt_0 by (force simp: Suc_le_eq)
  then have "card ?c \<le> mmr_size (length xs0)" using card_mono [of "{1..mmr_size (length xs0)}" ?c] by simp
  moreover have "length (kept_hashes (pruned_roots K b) ?H) = mmr_size (length xs0) - card ?c"
    using length_kept_hashes [of "pruned_roots K b" ?H] c by simp
  ultimately show ?thesis
    using file_sizes(1) [OF h] total_leaf_shift(2) [OF K lo] sz by (simp add: backend_unpruned_size_def data_size_def width)
qed

lemma session_reopen:
  assumes s: "session K put ok l as_elmt hl hn b xs0 live0 xs live gone"
  shows "\<exists>b'. reopen_backend K get b = Some b' \<and> session K put ok l as_elmt hl hn b' xs0 live0 xs0 live0 gone \<and> at_rest b' \<and>
    pb_prunable b' = pb_prunable b"
proof -
  let ?H = "range_hashes hl hn xs0" and ?E = "map as_elmt xs0" and ?R = "pruned_roots K b"
  have h: "file_holds write_hash (pb_hash_file b) (kept_hashes ?R ?H) (kept_hashes ?R (range_hashes hl hn xs))" "elmt_len (pb_hash_file b) = Some HASH_LEN"
    and d: "file_holds put (pb_data_file b) (kept_data ?R ?E) (kept_data ?R (map as_elmt xs))" "elmt_len (pb_data_file b) = l"
    and okE: "list_all ok ?E"
    using s by (simp_all add: session_def store_holds_def)
  have hs: "size_bytes_of (pb_hash_file b) = []"
    using h(2) by (cases "size_info (pb_hash_file b)") (simp_all add: size_bytes_of_def elmt_len_def)
  obtain hf where hf: "open_file read_hash (Some HASH_LEN) (on_disk (raw (pb_hash_file b))) [] = Some hf"
      "file_holds write_hash hf (kept_hashes ?R ?H) (kept_hashes ?R ?H)" "synced hf" "elmt_len hf = Some HASH_LEN"
    using hash_file.reopen_holds [OF h(1)] h(2) hs by (auto simp: list_all_iff size_bytes_of_def)
  have "list_all ok (kept_data ?R ?E)" using okE by (simp add: kept_data_def list_all_part)
  then obtain df where df: "open_file get l (on_disk (raw (pb_data_file b))) (size_bytes_of (pb_data_file b)) = Some df"
      "file_holds put df (kept_data ?R ?E) (kept_data ?R ?E)" "synced df" "elmt_len df = l"
    using reopen_holds [OF d(1)] d(2) by (auto simp: size_bytes_of_def)
  obtain N where "prune_ok K N (pb_prune_list b)" using s by (auto simp: session_def store_holds_def list_ok_def)
  from prune_list_open_ok [OF K this] obtain pl where pl: "prune_list_open K (pl_bitmap (pb_prune_list b)) = Some pl" "prune_ok K N pl"
      "caches_ok K pl" "pl_bitmap pl = pl_bitmap (pb_prune_list b)" "elems K (pl_pruned_cache pl) = elems K (pl_pruned_cache (pb_prune_list b))" by blast
  let ?b = "\<lparr>pb_prunable = pb_prunable b, pb_hash_file = hf, pb_data_file = df, pb_leaf_set = leaf_set_open (ls_bitmap_bak (pb_leaf_set b)), pb_prune_list = pl\<rparr>"
  have "reopen_backend K get b = Some ?b" by (simp add: reopen_backend_def backend_new_def hf(1) d(2) df(1) pl(1))
  moreover have "pruned_roots K ?b = ?R" "list_ok K ?b" using pl by (auto simp: pruned_roots_def list_ok_def)
  then have "session K put ok l as_elmt hl hn ?b xs0 live0 xs0 live0 gone"
    using s hf df pl(5) unfolding session_def store_holds_def by (auto simp: leaf_set_open_def)
  ultimately show ?thesis using hf(3) df(3) by (simp add: at_rest_def)
qed

lemma session_new:
  "\<exists>b. backend_new K get prunable l [] [] [] (bm_create K) (bm_create K) = Some b \<and>
    session K put ok l as_elmt hl hn b [] {} [] {} {} \<and> at_rest b \<and> pb_prunable b = prunable"
proof -
  obtain hf where hf: "open_file read_hash (Some HASH_LEN) [] [] = Some hf" "file_rel (\<lambda>_. True) write_hash (Some HASH_LEN) hf journal_empty"
    using hash_file.new_file_rel [of "Some HASH_LEN"] by (auto simp: HASH_LEN_def)
  obtain df where df: "open_file get l [] [] = Some df" "file_rel ok put l df journal_empty" using new_file_rel [OF l_pos] by blast
  let ?pl = "\<lparr>pl_bitmap = bm_create K, pl_pruned_cache = bm_create K, pl_shift_cache = [], pl_leaf_shift_cache = []\<rparr>"
  have z: "mmr_size 0 = 0" by (simp add: mmr_size_def)
  have ok: "prune_ok K 0 ?pl" "caches_ok K ?pl" by (simp_all add: prune_ok_def caches_ok_def bitmap_elems [OF K] prune_inv_def covered_def antichain_def z)
  have pl: "prune_list_open K (bm_create K) = Some ?pl"
    by (simp add: prune_list_open_def init_caches_def build_shift_cache_def build_leaf_shift_cache_def build_pruned_cache_def
        bitmap_queries [OF K] bitmap_elems [OF K])
  let ?b = "\<lparr>pb_prunable = prunable, pb_hash_file = hf, pb_data_file = df, pb_leaf_set = leaf_set_open (bm_create K), pb_prune_list = ?pl\<rparr>"
  have "backend_new K get prunable l [] [] [] (bm_create K) (bm_create K) = Some ?b" by (simp add: backend_new_def hf(1) df(1) pl)
  moreover have c: "compacted {} = {}" "compacted (elems K (bm_create K)) = {}" by (simp_all add: bitmap_elems [OF K] compacted_def covered_def)
  have "session K put ok l as_elmt hl hn ?b [] {} [] {} {}"
    using hf(2) df(2) ok by (auto simp: session_def store_holds_def list_ok_def range_ok_def file_rel_def journal_empty_def kept_hashes_def kept_data_def
        range_hashes_def z leaf_set_open_def bitmap_elems [OF K] leaves_of_def pruned_roots_def c)
  ultimately show ?thesis using hf(2) df(2) by (simp add: at_rest_def file_rel_def journal_empty_def)
qed

lemma session_root:
  assumes "session K put ok l as_elmt hl hn b xs0 live0 xs live gone"
  shows "pmmr_root (store_backend K put get as_elmt) hn zero_hash \<lparr>last_pos = mmr_size (length xs), pm_backend = b\<rparr> = range_root hl hn zero_hash xs"
  by (rule files.root_holds [OF session_holds(1) [OF assms]])

lemma session_validate:
  assumes "session K put ok l as_elmt hl hn b xs0 live0 xs live gone"
  shows "pmmr_validate (store_backend K put get as_elmt) hn \<lparr>last_pos = mmr_size (length xs), pm_backend = b\<rparr> = Inr ()"
  by (rule files.validate_holds [OF session_holds(1) [OF assms]])

lemma session_iter:
  assumes s: "session K put ok l as_elmt hl hn b xs0 live0 xs live gone" and pr: "pb_prunable b"
  shows "be_leaf_pos_iter (store_backend K put get as_elmt) b = Some (sorted_list_of_set live)"
proof -
  have "prunable_repr K put ok l b (range_hashes hl hn xs) (map as_elmt xs) (- compacted (pruned_roots K b))"
    using session_holds(2) [OF s pr] by (simp add: pmmr_holds_def)
  from live_files.iter_live [OF this] show ?thesis using s by (simp add: session_def)
qed

text \<open>A range that is never pruned keeps every element.\<close>

lemma session_read_all:
  assumes s: "session K put ok l as_elmt hl hn b xs0 live0 xs live {}" and pr: "\<not> pb_prunable b" and m: "m < length xs"
    and p: "p = \<lparr>last_pos = mmr_size (length xs), pm_backend = b\<rparr>"
  shows "pmmr_get_data (store_backend K put get as_elmt) p (node_pos m 0) = Some (as_elmt (xs ! m))"
proof -
  have "compacted (pruned_roots K b) \<subseteq> {..mmr_size 0}" by (rule session_compacted(2) [OF s]) simp
  then have c: "compacted (pruned_roots K b) = {}" using compacted_gt_0 by (force simp: mmr_size_def)
  have "be_get_data (store_backend K put get as_elmt) b (node_pos m 0) = be_get_data_from_file (store_backend K put get as_elmt) b (node_pos m 0)"
    using pr by (simp add: store_backend_def backend_get_data_def is_leaf_node)
  also have "\<dots> = Some (as_elmt (xs ! m))" using files.holds_data [OF session_holds(1) [OF s] m] by (simp add: c)
  finally show ?thesis using m by (simp add: pmmr_get_data_def p is_leaf_node node_pos_le_size not_less)
qed

text \<open>The Merkle proof of an unspent element verifies, whatever has been compacted around it.\<close>

lemma session_merkle:
  assumes s: "session K put ok l as_elmt hl hn b xs0 live0 xs live gone" and pr: "pb_prunable b" and m: "m < length xs" "node_pos m 0 \<in> live"
    and p: "p = \<lparr>last_pos = mmr_size (length xs), pm_backend = b\<rparr>" and root: "range_root hl hn zero_hash xs = Some root"
  shows "\<exists>proof. pmmr_merkle_proof (store_backend K put get as_elmt) hn p (node_pos m 0) = Inr proof \<and>
    mp_mmr_size proof = mmr_size (length xs) \<and> merkle_verify hn proof root (hl (xs ! m)) (node_pos m 0) = Inr ()"
proof -
  have h: "pmmr_holds (store_repr K put ok l) as_elmt hl hn p xs (- compacted (pruned_roots K b))"
    unfolding p by (rule session_holds(1) [OF s])
  have q: "\<not> mmr_size (length xs) < node_pos m 0" using m(1) by (simp add: node_pos_le_size not_less)
  have "be_get_hash (store_backend K put get as_elmt) b (node_pos m 0) \<noteq> None"
    using session_read(2) [OF s pr m(1) p] m(2) q by (simp add: p pmmr_get_hash_def is_leaf_node split: if_splits)
  then show ?thesis
    using files.merkle_proof_verifies [OF h m(1), of zero_hash root] session_branch [OF s m] session_root [OF s, of zero_hash] root
    by (simp add: p)
qed

lemma session_answers:
  assumes s: "session K put ok l as_elmt hl hn b xs0 live0 xs live gone" and pr: "pb_prunable b"
  shows "answers (store_backend K put get as_elmt) as_elmt hl hn zero_hash \<lparr>last_pos = mmr_size (length xs), pm_backend = b\<rparr> xs live"
  unfolding answers_def
proof (intro conjI allI impI)
  fix m root assume "m < length xs" "node_pos m 0 \<in> live \<and> range_root hl hn zero_hash xs = Some root"
  then show "\<exists>proof. pmmr_merkle_proof (store_backend K put get as_elmt) hn \<lparr>last_pos = mmr_size (length xs), pm_backend = b\<rparr> (node_pos m 0) = Inr proof \<and>
      merkle_verify hn proof root (hl (xs ! m)) (node_pos m 0) = Inr ()"
    using session_merkle [OF s pr, of m _ zero_hash root] by blast
qed (simp_all add: session_root [OF s] session_iter [OF s pr] session_read(1) [OF s pr _ refl])

end

end
