(* ===== verification/Element_Stores.thy ===== *)
theory Element_Stores
  imports Pmmr_Session Tx_Types
begin

text \<open>
  The elements kept in the data files of the Merkle mountain ranges (the \<open>PMMRable\<close> and \<open>FixedLength\<close>
  instances of \<open>core/src/core/transaction.rs\<close> and \<open>core/src/ser.rs\<close>): output identifiers, range proofs
  and kernel entries, with their hashes of \<open>PMMRIndexHashable\<close>. Each of the three files is an instance of
  \<open>element_store\<close>, so that a range over it keeps its root, its live elements and its Merkle proofs over
  pushes, prunes, rewinds and compactions.
\<close>

section \<open>Definitions\<close>

definition OUTPUT_IDENTIFIER_LEN :: usize where "OUTPUT_IDENTIFIER_LEN = 1 + PEDERSEN_COMMITMENT_SIZE"
definition RANGE_PROOF_LEN :: "usize \<Rightarrow> usize" where "RANGE_PROOF_LEN mps = 8 + mps"
definition TX_KERNEL_ENTRY_LEN :: usize where "TX_KERNEL_ENTRY_LEN = 17 + PEDERSEN_COMMITMENT_SIZE + AGG_SIGNATURE_SIZE"

record tx_kernel_entry =
  ke_kernel :: tx_kernel

definition from_kernel :: "tx_kernel \<Rightarrow> tx_kernel_entry" where
  "from_kernel k = \<lparr>ke_kernel = k\<rparr>"

definition write_kernel_entry :: "tx_kernel_entry \<Rightarrow> u8 list" where
  "write_kernel_entry e = write_kernel (ke_kernel e)"

definition read_kernel_entry :: "tx_kernel_entry read" where
  "read_kernel_entry = read_bind read_kernel (\<lambda>k. read_ok \<lparr>ke_kernel = k\<rparr>)"

text \<open>\<open>hash_with_index\<close>: the hash of the index and the item, for a leaf and for a pair of hashes.\<close>

definition hash_with_index :: "(u8 list \<Rightarrow> hash) \<Rightarrow> ('a \<Rightarrow> u8 list) \<Rightarrow> u64 \<Rightarrow> 'a \<Rightarrow> hash" where
  "hash_with_index digest put index x = digest (write_u64 index @ put x)"

definition pair_hash_with_index :: "(u8 list \<Rightarrow> hash) \<Rightarrow> u64 \<Rightarrow> hash \<Rightarrow> hash \<Rightarrow> hash" where
  "pair_hash_with_index digest index x y = digest (write_u64 index @ write_hash x @ write_hash y)"

section \<open>The element files\<close>

definition output_identifier_ok :: "output_identifier \<Rightarrow> bool" where
  "output_identifier_ok oi \<longleftrightarrow> length (oi_commit oi) = PEDERSEN_COMMITMENT_SIZE"

definition range_proof_ok :: "usize \<Rightarrow> u8 list \<Rightarrow> bool" where
  "range_proof_ok mps p \<longleftrightarrow> length p = mps \<and> 0 < mps \<and> mps < 65528"

definition kernel_entry_ok :: "tx_kernel_entry \<Rightarrow> bool" where
  "kernel_entry_ok e \<longleftrightarrow> kernel_ok (ke_kernel e)"

text \<open>Readers that fail at the end of both kinds of source.\<close>

definition ends :: "'a read \<Rightarrow> bool" where
  "ends get \<longleftrightarrow> (\<forall>n. \<exists>e r. get (StreamingReader n []) = Some (Inl e, r)) \<and> (\<exists>e r. get (BinReader []) = Some (Inl e, r))"

lemma ends_bind: "ends get \<Longrightarrow> ends (read_bind get f)"
  unfolding ends_def using read_bind_end by fast

lemma ends_u64: "ends read_u64"
  unfolding ends_def using u64_end by blast

lemma ends_fixed_bytes: "0 < n \<Longrightarrow> n \<le> MAX_FIXED_READ \<Longrightarrow> ends (read_fixed_bytes n)"
  unfolding ends_def using fixed_bytes_end by (simp add: MAX_FIXED_READ_def)

lemma ends_u8: "ends read_u8"
  unfolding read_u8_def by (intro ends_bind ends_fixed_bytes) (simp_all add: MAX_FIXED_READ_def)

lemma ends_output_identifier: "ends read_output_identifier"
  unfolding read_output_identifier_def read_output_features_def by (intro ends_bind ends_u8)

lemma ends_range_proof: "ends (read_range_proof mps)"
  unfolding read_range_proof_def by (intro ends_bind ends_u64)

lemma ends_kernel_entry: "ends read_kernel_entry"
  unfolding read_kernel_entry_def read_kernel_def read_kernel_features_def by (intro ends_bind ends_u8)

lemma counts_features:
  "counts read_output_features (write_output_features f) f" "counts read_kernel_features (write_kernel_features g) g"
  unfolding read_output_features_def write_output_features_def read_kernel_features_def write_kernel_features_def
  by (rule counts_last [OF counts_ints(1)]; cases f; simp add: output_features_from_u8_def counts_ok_eq)
    (rule counts_last [OF counts_ints(1)]; cases g; simp add: kernel_features_from_u8_def counts_ok_eq)

lemma counts_commitment: "length c = PEDERSEN_COMMITMENT_SIZE \<Longrightarrow> counts read_commitment c c"
  unfolding read_commitment_def by (rule counts_fixed_bytes) (simp_all add: PEDERSEN_COMMITMENT_SIZE_def)

lemma counts_signature: "length c = AGG_SIGNATURE_SIZE \<Longrightarrow> counts read_signature c c"
  unfolding read_signature_def by (rule counts_fixed_bytes) (simp_all add: AGG_SIGNATURE_SIZE_def)

lemma counts_output_identifier: "output_identifier_ok oi \<Longrightarrow> counts read_output_identifier (write_output_identifier oi) oi"
  unfolding read_output_identifier_def write_output_identifier_def output_identifier_ok_def
  by (intro counts_bind [OF counts_features(1)] counts_last [OF counts_commitment] counts_ok_eq) simp_all

lemma counts_range_proof: "range_proof_ok mps p \<Longrightarrow> counts (read_range_proof mps) (write_range_proof p) p"
  unfolding read_range_proof_def write_range_proof_def write_bytes_def range_proof_ok_def
  by (rule counts_bind [OF counts_ints(3)], simp) (auto intro!: counts_last [OF counts_fixed_bytes] counts_ok_eq)

lemma counts_kernel: "kernel_ok k \<Longrightarrow> counts read_kernel (write_kernel k) k"
  unfolding read_kernel_def write_kernel_def kernel_ok_def
  by (intro counts_bind [OF counts_features(2)] counts_bind [OF counts_ints(3)] counts_bind [OF counts_commitment]
      counts_last [OF counts_signature] counts_ok_eq) simp_all

lemma counts_kernel_entry: "kernel_entry_ok e \<Longrightarrow> counts read_kernel_entry (write_kernel_entry e) e"
  unfolding read_kernel_entry_def write_kernel_entry_def kernel_entry_ok_def
  by (intro counts_last [OF counts_kernel] counts_ok_eq) simp_all

lemma element_storeI:
  fixes as_elmt :: "'t \<Rightarrow> 'e"
  assumes "\<And>x. ok x \<Longrightarrow> reads get (put x) x" and "\<And>x. ok x \<Longrightarrow> counts get (put x) x" and "ends get"
    and "\<And>x. ok x \<Longrightarrow> 0 < length (put x) \<and> length (put x) < 65536 \<and> fits l (put x)" and "l \<noteq> Some 0" and "bitmap_laws K"
  shows "element_store put get ok K l"
  by unfold_locales (use assms in \<open>simp_all add: counts_def ends_def\<close>)

lemma output_store:
  assumes "bitmap_laws K"
  shows "element_store write_output_identifier read_output_identifier output_identifier_ok K (Some OUTPUT_IDENTIFIER_LEN)"
proof (rule element_storeI [OF _ counts_output_identifier ends_output_identifier _ _ assms])
  show "reads read_output_identifier (write_output_identifier oi) oi" if "output_identifier_ok oi" for oi
    using that output_identifier_codec.reads_put by (simp add: output_identifier_ok_def)
qed (simp_all add: output_identifier_ok_def OUTPUT_IDENTIFIER_LEN_def write_output_identifier_def write_output_features_def
      write_u8_def fits_def PEDERSEN_COMMITMENT_SIZE_def)

lemma rangeproof_store:
  assumes "bitmap_laws K"
  shows "element_store write_range_proof (read_range_proof mps) (range_proof_ok mps) K (Some (RANGE_PROOF_LEN mps))"
proof (rule element_storeI [OF _ counts_range_proof ends_range_proof _ _ assms])
  show "reads (read_range_proof mps) (write_range_proof p) p" if "range_proof_ok mps p" for p
    using that reads_range_proof [of p mps] by (simp add: write_range_proof_def range_proof_ok_def MAX_FIXED_READ_def)
qed (simp_all add: write_range_proof_def write_bytes_def write_u64_def range_proof_ok_def RANGE_PROOF_LEN_def fits_def)

lemma kernel_store:
  assumes "bitmap_laws K"
  shows "element_store write_kernel_entry read_kernel_entry kernel_entry_ok K None"
proof (rule element_storeI [OF _ counts_kernel_entry ends_kernel_entry _ _ assms])
  show "reads read_kernel_entry (write_kernel_entry e) e" if "kernel_entry_ok e" for e
    using that unfolding read_kernel_entry_def write_kernel_entry_def kernel_entry_ok_def
    by (intro reads_last [OF kernel_codec.reads_put] reads_ok_eq) simp_all
qed (simp_all add: write_kernel_entry_def write_kernel_def write_kernel_features_def write_u8_def write_u64_def kernel_entry_ok_def
      kernel_ok_def fits_def PEDERSEN_COMMITMENT_SIZE_def AGG_SIGNATURE_SIZE_def)

interpretation output_files: element_store write_output_identifier read_output_identifier output_identifier_ok list_bitmap
  "Some OUTPUT_IDENTIFIER_LEN" from_output
  by (rule output_store [OF list_bitmap_laws])

interpretation rangeproof_files: element_store write_range_proof "read_range_proof mps" "range_proof_ok mps" list_bitmap
  "Some (RANGE_PROOF_LEN mps)" "\<lambda>p. p"
  by (rule rangeproof_store [OF list_bitmap_laws])

interpretation kernel_files: element_store write_kernel_entry read_kernel_entry kernel_entry_ok list_bitmap None from_kernel
  by (rule kernel_store [OF list_bitmap_laws])

section \<open>Properties\<close>

text \<open>C7: compaction of the output files is invisible. From a synced store that holds the outputs \<open>xs\<close>
  with the positions \<open>live\<close> unspent, \<open>check_compact\<close> with any cutoff within the range and any bitmap of
  positions to keep returns; the root, every unspent output and the absence of every spent one are as
  before, the Merkle proof of every unspent output still verifies against the root, and a restart finds the
  same state.\<close>

theorem compaction_keeps_outputs:
  assumes "bitmap_laws K"
    and "session K write_output_identifier output_identifier_ok (Some OUTPUT_IDENTIFIER_LEN) from_output hl hn b xs live xs live gone"
    and "at_rest b" and "pb_prunable b" and "cutoff \<le> mmr_size (length xs)"
    and "B = store_backend K write_output_identifier read_output_identifier from_output"
  shows "\<exists>b' b''. check_compact K write_output_identifier read_output_identifier b cutoff rm = Some b' \<and>
    reopen_backend K read_output_identifier b' = Some b'' \<and>
    answers B from_output hl hn zero_hash \<lparr>last_pos = mmr_size (length xs), pm_backend = b\<rparr> xs live \<and>
    answers B from_output hl hn zero_hash \<lparr>last_pos = mmr_size (length xs), pm_backend = b'\<rparr> xs live \<and>
    answers B from_output hl hn zero_hash \<lparr>last_pos = mmr_size (length xs), pm_backend = b''\<rparr> xs live"
proof -
  note st = output_store [OF assms(1)]
  let ?S = "session K write_output_identifier output_identifier_ok (Some OUTPUT_IDENTIFIER_LEN) from_output hl hn"
  let ?g = "gone \<union> {x. 0 < x \<and> x \<le> cutoff \<and> is_leaf x \<and> x \<notin> live \<and> x \<notin> elems K rm}"
  obtain b' where b': "check_compact K write_output_identifier read_output_identifier b cutoff rm = Some b'" "pb_prunable b'" "?S b' xs live xs live ?g"
    using element_store.session_compact [OF st assms(2-5), of rm] by blast
  obtain b'' where b'': "reopen_backend K read_output_identifier b' = Some b''" "pb_prunable b''" "?S b'' xs live xs live ?g"
    using element_store.session_reopen [OF st b'(3)] b'(2) by auto
  show ?thesis unfolding assms(6) using b'(1) b''(1) element_store.session_answers [OF st assms(2,4)]
    element_store.session_answers [OF st b'(3,2)] element_store.session_answers [OF st b''(3,2)] by blast
qed

lemma two_outputs_session:
  fixes hl :: "tx_output \<Rightarrow> u64 \<Rightarrow> hash" and hn :: "hash \<times> hash \<Rightarrow> u64 \<Rightarrow> hash"
  assumes "length (o_commit o1) = PEDERSEN_COMMITMENT_SIZE" and "length (o_commit o2) = PEDERSEN_COMMITMENT_SIZE"
  shows "\<exists>b. session list_bitmap write_output_identifier output_identifier_ok (Some OUTPUT_IDENTIFIER_LEN) from_output hl hn b
    [o1, o2] {2} [o1, o2] {2} {} \<and> at_rest b \<and> pb_prunable b"
proof -
  let ?S = "session list_bitmap write_output_identifier output_identifier_ok (Some OUTPUT_IDENTIFIER_LEN) from_output hl hn"
  have m: "mmr_size 0 = 0" "mmr_size (Suc 0) = 1" "mmr_size (Suc (Suc 0)) = 3" by (simp_all add: mmr_size_def count_ones.simps)
  have n: "node_pos 0 0 = 1" "node_pos (Suc 0) 0 = 2" by (simp_all add: node_pos_def m)
  have ok: "output_identifier_ok (from_output o1)" "output_identifier_ok (from_output o2)"
    using assms by (simp_all add: output_identifier_ok_def from_output_def)
  obtain b0 where b0: "?S b0 [] {} [] {} {}" "pb_prunable b0" using output_files.session_new [of True] by blast
  obtain b1 where b1: "?S b1 [] {} [o1] {1} {}" "pb_prunable b1"
    using output_files.session_push [OF b0(1) ok(1)] b0(2) by (auto simp: m n)
  obtain b2 where b2: "?S b2 [] {} [o1, o2] {2, 1} {}" "pb_prunable b2"
    using output_files.session_push [OF b1(1) ok(2)] b1(2) by (auto simp: m n)
  obtain b3 where b3: "?S b3 [] {} [o1, o2] ({2, 1} - {1}) {}" "pb_prunable b3"
    using output_files.session_prune [OF b2, of 0] by (auto simp: n)
  obtain b4 where "?S b4 [o1, o2] ({2, 1} - {1}) [o1, o2] ({2, 1} - {1}) {}" "at_rest b4" "pb_prunable b4"
    using output_files.session_sync [OF b3(1)] b3(2) by auto
  moreover have "{2, 1} - {1} = {2 :: nat}" by auto
  ultimately show ?thesis by auto
qed

theorem compaction_keeps_outputs_witness:
  "\<exists>b b' o1 o2. check_compact list_bitmap write_output_identifier read_output_identifier b 3 [] = Some b' \<and>
    pmmr_get_data (store_backend list_bitmap write_output_identifier read_output_identifier from_output) \<lparr>last_pos = 3, pm_backend = b'\<rparr> 2 =
      Some (from_output o2) \<and>
    pmmr_get_data (store_backend list_bitmap write_output_identifier read_output_identifier from_output) \<lparr>last_pos = 3, pm_backend = b'\<rparr> 1 = None \<and>
    o1 \<noteq> o2"
proof -
  define o1 where "o1 = \<lparr>o_features = PlainOutput, o_commit = replicate 33 8, o_proof = []\<rparr>"
  define o2 where "o2 = \<lparr>o_features = CoinbaseOutput, o_commit = replicate 33 9, o_proof = []\<rparr>"
  have m: "mmr_size (length [o1, o2]) = 3" "node_pos 0 0 = 1" "node_pos 1 0 = 2"
    by (simp_all add: mmr_size_def count_ones.simps node_pos_def)
  obtain b where b: "session list_bitmap write_output_identifier output_identifier_ok (Some OUTPUT_IDENTIFIER_LEN) from_output
      (\<lambda>_ _. hash_of (replicate 32 0)) (\<lambda>_ _. hash_of (replicate 32 0)) b [o1, o2] {2} [o1, o2] {2} {}" "at_rest b" "pb_prunable b"
    using two_outputs_session [of o1 o2 "\<lambda>_ _. hash_of (replicate 32 0)" "\<lambda>_ _. hash_of (replicate 32 0)"]
    by (auto simp: o1_def o2_def PEDERSEN_COMMITMENT_SIZE_def)
  have "3 \<le> mmr_size (length [o1, o2])" by (simp only: m order_refl)
  from compaction_keeps_outputs [OF list_bitmap_laws b this refl, of "[]" "hash_of (replicate 32 0)"] obtain b' where
    b': "check_compact list_bitmap write_output_identifier read_output_identifier b 3 [] = Some b'"
    "\<forall>m < length [o1, o2]. pmmr_get_data (store_backend list_bitmap write_output_identifier read_output_identifier from_output)
      \<lparr>last_pos = 3, pm_backend = b'\<rparr> (node_pos m 0) = (if node_pos m 0 \<in> {2} then Some (from_output ([o1, o2] ! m)) else None)"
    unfolding m answers_def by blast
  let ?get = "pmmr_get_data (store_backend list_bitmap write_output_identifier read_output_identifier from_output) \<lparr>last_pos = 3, pm_backend = b'\<rparr>"
  have "?get 1 = None" "?get 2 = Some (from_output o2)"
    using b'(2) [rule_format, of 0, unfolded m] b'(2) [rule_format, of 1, unfolded m] by simp_all
  moreover have "o1 \<noteq> o2" by (simp add: o1_def o2_def)
  ultimately show ?thesis using b'(1) by blast
qed

end
