(* ===== verification/Block.thy ===== *)
theory Block
  imports Pow_Codec Transaction Element_Stores Feijoada
begin

text \<open>
  Headers and blocks (\<open>core/src/core/block.rs\<close>): their binary forms, the entry of a header in the header
  range, building, cut-through and validation, and the compact form of a block (\<open>compact_block.rs\<close> and
  \<open>id.rs\<close> of the same directory). Parameters: \<open>digest\<close> is Blake2b with 32 bytes of output, \<open>sip\<close> the
  SipHash-2-4 of two keys and a string, \<open>dates\<close> the first and last second that the date library
  represents, \<open>foundation\<close> the foundation's file with its JSON parser (\<open>None\<close> where it panics), \<open>now\<close> the clock.
\<close>

section \<open>Definitions\<close>

datatype block_error =
    BlockKernelSumMismatch
  | InvalidTotalKernelSum
  | CoinbaseSumMismatch
  | InvalidFoundationOutput
  | BlockTooHeavy
  | WeightExceeded
  | KernelLockHeight u64
  | BlockTransaction tx_error
  | BlockSecp string
  | BlockKeychain string
  | BlockMerkleProof
  | BlockCommitted committed_error
  | BlockCutThrough
  | BlockSerialization ser_error
  | BlockOther string

definition ZERO_HASH :: hash where "ZERO_HASH = hash_of (replicate 32 0)"
definition CURRENT_HEADER_VERSION :: nat where "CURRENT_HEADER_VERSION = 6"

subsection \<open>Headers\<close>

record header_entry =
  he_hash :: hash
  he_timestamp :: u64
  he_total_difficulty :: difficulty
  he_secondary_scaling :: u32
  he_is_secondary :: bool

definition DIFFICULTY_LEN :: usize where "DIFFICULTY_LEN = 8 + 4 * 9"
definition HEADER_ENTRY_LEN :: usize where "HEADER_ENTRY_LEN = HASH_LEN + 8 + DIFFICULTY_LEN + 4 + 1"

definition read_header_entry :: "header_entry read" where
  "read_header_entry =
     read_bind read_hash (\<lambda>h.
     read_bind read_u64 (\<lambda>ts.
     read_bind read_difficulty (\<lambda>d.
     read_bind read_u32 (\<lambda>s.
     read_bind read_u8 (\<lambda>b.
       read_ok \<lparr>he_hash = h, he_timestamp = ts, he_total_difficulty = d, he_secondary_scaling = s, he_is_secondary = b \<noteq> 0\<rparr>)))))"

definition write_header_entry :: "header_entry \<Rightarrow> u8 list" where
  "write_header_entry e = write_hash (he_hash e) @ write_u64 (he_timestamp e) @ write_difficulty (he_total_difficulty e) @
     write_u32 (he_secondary_scaling e) @ write_u8 (if he_is_secondary e then 1 else 0)"

record block_header =
  h_version :: nat
  h_height :: u64
  prev_hash :: hash
  prev_root :: hash
  h_timestamp :: i64
  output_root :: hash
  range_proof_root :: hash
  kernel_root :: hash
  total_kernel_offset :: blinding_factor
  output_mmr_size :: u64
  kernel_mmr_size :: u64
  h_pow :: proof_of_work
  h_policy :: u8
  bottles :: policy

definition header_default :: "chain_types \<Rightarrow> block_header" where
  "header_default ct = \<lparr>h_version = CURRENT_HEADER_VERSION, h_height = 0, prev_hash = ZERO_HASH, prev_root = ZERO_HASH, h_timestamp = 0,
     output_root = ZERO_HASH, range_proof_root = ZERO_HASH, kernel_root = ZERO_HASH, total_kernel_offset = blinding_zero,
     output_mmr_size = 0, kernel_mmr_size = 0, h_pow = proof_of_work_default ct, h_policy = 0, bottles = get_bottles_default\<rparr>"

definition write_header_pre_pow :: "block_header \<Rightarrow> u8 list" where
  "write_header_pre_pow h = write_u64 (h_height h) @ write_i64 (h_timestamp h) @ write_hash (prev_hash h) @ write_hash (prev_root h) @
     write_hash (output_root h) @ write_hash (range_proof_root h) @ write_hash (kernel_root h) @ total_kernel_offset h @
     write_u64 (output_mmr_size h) @ write_u64 (kernel_mmr_size h)"

text \<open>\<open>None\<close> where writing the proof of work panics: more nonces than the size of a proof.\<close>

definition write_header :: "chain_types \<Rightarrow> serialization_mode \<Rightarrow> block_header \<Rightarrow> u8 list option" where
  "write_header ct mode h = map_option (\<lambda>p.
     write_u16 (h_version h) @ (if mode \<noteq> Hash then write_header_pre_pow h else []) @ p @ write_u8 (h_policy h) @ write_policy (bottles h))
     (write_proof_of_work ct mode (h_pow h))"

definition valid_header_version :: "u64 \<Rightarrow> nat \<Rightarrow> bool" where
  "valid_header_version height version \<longleftrightarrow> version = CURRENT_HEADER_VERSION"

definition read_header :: "chain_types \<Rightarrow> i64 \<times> i64 \<Rightarrow> block_header read" where
  "read_header ct dates =
     read_bind read_u16 (\<lambda>version.
     read_bind read_u64 (\<lambda>height.
     read_bind read_i64 (\<lambda>ts.
     read_bind read_hash (\<lambda>ph.
     read_bind read_hash (\<lambda>pr.
     read_bind read_hash (\<lambda>outr.
     read_bind read_hash (\<lambda>rpr.
     read_bind read_hash (\<lambda>kr.
     read_bind read_blinding_factor (\<lambda>ofs.
     read_bind read_u64 (\<lambda>outs.
     read_bind read_u64 (\<lambda>kers.
     read_bind (read_proof_of_work ct) (\<lambda>pow.
     read_bind read_u8 (\<lambda>pol.
     read_bind read_policy (\<lambda>bots.
       if ts > snd dates \<or> ts < fst dates then read_err CorruptedData
       else if \<not> valid_header_version height version then read_err InvalidBlockVersion
       else read_ok \<lparr>h_version = version, h_height = height, prev_hash = ph, prev_root = pr, h_timestamp = ts,
         output_root = outr, range_proof_root = rpr, kernel_root = kr, total_kernel_offset = ofs,
         output_mmr_size = outs, kernel_mmr_size = kers, h_pow = pow, h_policy = pol, bottles = bots\<rparr>))))))))))))))"

definition pre_pow :: "block_header \<Rightarrow> u8 list" where
  "pre_pow h = write_u16 (h_version h) @ write_header_pre_pow h @ write_pow_pre_pow (h_pow h) @ write_u64 (pow_nonce (h_pow h))"

text \<open>The hash of a header, alone and with an index. Where writing it panics the bytes are empty here; no
  header that has been read is of that kind (\<open>header_written\<close>).\<close>

definition header_hash :: "chain_types \<Rightarrow> (u8 list \<Rightarrow> hash) \<Rightarrow> block_header \<Rightarrow> hash" where
  "header_hash ct digest h = digest (bytes_or_nil (write_header ct Hash h))"

definition header_hash_with_index :: "chain_types \<Rightarrow> (u8 list \<Rightarrow> hash) \<Rightarrow> block_header \<Rightarrow> u64 \<Rightarrow> hash" where
  "header_hash_with_index ct digest h index = hash_with_index digest (\<lambda>h. bytes_or_nil (write_header ct Hash h)) index h"

definition header_as_elmt :: "chain_types \<Rightarrow> (u8 list \<Rightarrow> hash) \<Rightarrow> block_header \<Rightarrow> header_entry" where
  "header_as_elmt ct digest h = \<lparr>he_hash = header_hash ct digest h, he_timestamp = u64_of_i64 (h_timestamp h),
     he_total_difficulty = total_difficulty (h_pow h), he_secondary_scaling = secondary_scaling (h_pow h), he_is_secondary = is_secondary (h_pow h)\<rparr>"

text \<open>\<open>checked_neg\<close> of the least integer gives zero.\<close>

definition checked_neg_or_0 :: "i64 \<Rightarrow> i64" where
  "checked_neg_or_0 v = (if v = - 9223372036854775808 then 0 else - v)"

definition header_overage :: "chain_types \<Rightarrow> block_header \<Rightarrow> i64 option" where
  "header_overage ct h =
     Option.bind (reward_at_height (h_height h)) (\<lambda>r.
       map_option (\<lambda>f. checked_neg_or_0 (i64_of_u64 (u64_add r f))) (add_reward_foundation ct (h_height h)))"

definition header_total_overage :: "chain_types \<Rightarrow> block_header \<Rightarrow> bool \<Rightarrow> i64 option" where
  "header_total_overage ct h genesis_had_reward =
     map_option checked_neg_or_0 (total_overage_at_height ct (h_height h) genesis_had_reward)"

subsection \<open>Blocks\<close>

text \<open>The file of the foundation's coinbases: its bytes, and what its JSON parser makes of one entry.\<close>

record foundation_file =
  ff_bytes :: "u8 list"
  ff_parse :: "u8 list \<Rightarrow> (tx_output \<times> tx_kernel) option"

record block =
  b_header :: block_header
  b_body :: tx_body

definition block_with_header :: "block_header \<Rightarrow> block" where
  "block_with_header h = \<lparr>b_header = h, b_body = body_empty\<rparr>"

definition write_block :: "chain_types \<Rightarrow> serialization_mode \<Rightarrow> block \<Rightarrow> u8 list option" where
  "write_block ct mode b = map_option (\<lambda>h. h @ (if mode \<noteq> Hash then write_body mode (b_body b) else [])) (write_header ct mode (b_header b))"

definition read_block :: "chain_types \<Rightarrow> i64 \<times> i64 \<Rightarrow> hash_fun \<Rightarrow> usize \<Rightarrow> block read" where
  "read_block ct dates hash mps =
     read_bind (read_header ct dates) (\<lambda>h.
     read_bind (read_body ct hash mps) (\<lambda>body.
       case body_validate_read ct hash body AsBlock of Inl _ \<Rightarrow> read_err CorruptedData
       | Inr _ \<Rightarrow> read_ok \<lparr>b_header = h, b_body = body\<rparr>))"

definition block_total_fees :: "block \<Rightarrow> u64" where
  "block_total_fees b = fold (\<lambda>k acc. u64_sat_add acc (fee k)) (kernels (b_body b)) 0"

definition block_cut_through :: "hash_fun \<Rightarrow> block \<Rightarrow> block_error + block" where
  "block_cut_through hash b =
     bind_res (map_err BlockTransaction (cut_through hash (inputs (b_body b)) (outputs (b_body b)))) (\<lambda>(ins, outs).
     bind_res (map_err (\<lambda>e. BlockTransaction (Serialization e)) (body_init hash ins outs (kernels (b_body b)) False)) (\<lambda>body.
       Inr \<lparr>b_header = b_header b, b_body = body\<rparr>))"

text \<open>\<open>from_reward\<close> and \<open>from_coinbases\<close> differ in the list of reward outputs and kernels they add.\<close>

definition build_block :: "chain_types \<Rightarrow> secp \<Rightarrow> hash_fun \<Rightarrow> (u8 list \<Rightarrow> hash) \<Rightarrow> i64 \<Rightarrow> block_header \<Rightarrow> transaction list \<Rightarrow>
    (tx_output \<times> tx_kernel) list \<Rightarrow> difficulty \<Rightarrow> block_error + block" where
  "build_block ct S hash digest now prev txs coinbases d =
     bind_res (map_err BlockTransaction (aggregate S hash txs)) (\<lambda>tx.
       let agg_tx = fold (\<lambda>(out, kern) t. tx_with_kernel hash (tx_with_output hash t out) kern) coinbases tx in
       bind_res (map_err BlockCommitted (sum_kernel_offsets S [t_offset agg_tx, total_kernel_offset prev] [])) (\<lambda>total.
         block_cut_through hash \<lparr>
           b_header = (header_default ct)\<lparr>h_height := u64_add (h_height prev) 1, h_timestamp := now, prev_hash := header_hash ct digest prev,
             total_kernel_offset := total,
             h_pow := (proof_of_work_default ct)\<lparr>total_difficulty := difficulty_add d (total_difficulty (h_pow prev))\<rparr>\<rparr>,
           b_body = t_body agg_tx\<rparr>))"

definition from_reward :: "chain_types \<Rightarrow> secp \<Rightarrow> hash_fun \<Rightarrow> (u8 list \<Rightarrow> hash) \<Rightarrow> i64 \<Rightarrow> block_header \<Rightarrow> transaction list \<Rightarrow>
    tx_output \<Rightarrow> tx_kernel \<Rightarrow> difficulty \<Rightarrow> block_error + block" where
  "from_reward ct S hash digest now prev txs reward_out reward_kern d =
     build_block ct S hash digest now prev txs [(reward_out, reward_kern)] d"

definition from_coinbases :: "chain_types \<Rightarrow> secp \<Rightarrow> hash_fun \<Rightarrow> (u8 list \<Rightarrow> hash) \<Rightarrow> i64 \<Rightarrow> block_header \<Rightarrow> transaction list \<Rightarrow>
    tx_output \<times> tx_kernel \<Rightarrow> tx_output \<times> tx_kernel \<Rightarrow> difficulty \<Rightarrow> block_error + block" where
  "from_coinbases ct S hash digest now prev txs rew foundation d = build_block ct S hash digest now prev txs [rew, foundation] d"

definition block_with_reward :: "block \<Rightarrow> tx_output \<Rightarrow> tx_kernel \<Rightarrow> block" where
  "block_with_reward b reward_out reward_kern = b\<lparr>b_body := (b_body b)\<lparr>outputs := [reward_out], kernels := [reward_kern]\<rparr>\<rparr>"

definition block_with_coinbase :: "block \<Rightarrow> tx_output \<times> tx_kernel \<Rightarrow> tx_output \<times> tx_kernel \<Rightarrow> block" where
  "block_with_coinbase b rew foundation =
     b\<lparr>b_body := (b_body b)\<lparr>outputs := [fst rew, fst foundation], kernels := [snd rew, snd foundation]\<rparr>\<rparr>"

fun verify_kernel_lock_heights :: "u64 \<Rightarrow> tx_kernel list \<Rightarrow> block_error + unit" where
  "verify_kernel_lock_heights height [] = Inr ()"
| "verify_kernel_lock_heights height (k # ks) =
     (if lock_height k > height then Inl (KernelLockHeight (lock_height k)) else verify_kernel_lock_heights height ks)"

definition block_validate_read :: "chain_types \<Rightarrow> hash_fun \<Rightarrow> block \<Rightarrow> block_error + unit" where
  "block_validate_read ct hash b =
     bind_res (map_err BlockTransaction (body_validate_read ct hash (b_body b) AsBlock)) (\<lambda>_.
       verify_kernel_lock_heights (h_height (b_header b)) (kernels (b_body b)))"

definition block_kernel_offset :: "secp \<Rightarrow> block \<Rightarrow> blinding_factor \<Rightarrow> block_error + blinding_factor" where
  "block_kernel_offset S b prev_kernel_offset =
     (if total_kernel_offset (b_header b) = prev_kernel_offset then Inr blinding_zero
      else map_err BlockCommitted (sum_kernel_offsets S [total_kernel_offset (b_header b)] [prev_kernel_offset]))"

definition FOUNDATION_COINBASE_SIZE :: usize where "FOUNDATION_COINBASE_SIZE = 1803"

definition load_foundation_output :: "chain_types \<Rightarrow> foundation_file \<Rightarrow> u64 \<Rightarrow> (tx_output \<times> tx_kernel) option" where
  "load_foundation_output ct foundation height =
     Option.bind (foundation_index ct height) (\<lambda>index.
       let file_len = length (ff_bytes foundation);
           offset = u64_mul index FOUNDATION_COINBASE_SIZE
       in if file_len mod FOUNDATION_COINBASE_SIZE \<noteq> 0 \<or> offset \<ge> file_len \<or> offset + FOUNDATION_COINBASE_SIZE > file_len then None
          else ff_parse foundation (take FOUNDATION_COINBASE_SIZE (drop offset (ff_bytes foundation))))"

definition coinbase_sums :: "chain_types \<Rightarrow> secp \<Rightarrow> block \<Rightarrow> (block_error + unit) option" where
  "coinbase_sums ct S b =
     map_option (\<lambda>r.
       bind_res (map_err BlockSecp (commit_value S r)) (\<lambda>over_commit.
       bind_res (map_err BlockSecp (commit_sum S (map o_commit (filter output_is_coinbase (outputs (b_body b)))) [over_commit])) (\<lambda>out_adjust_sum.
       bind_res (map_err BlockSecp (commit_sum S (map excess (filter kernel_is_coinbase (kernels (b_body b)))) [])) (\<lambda>kerns_sum.
         if kerns_sum \<noteq> out_adjust_sum then Inl CoinbaseSumMismatch else Inr ()))))
       (reward_foundation ct (block_total_fees b) (h_height (b_header b)))"

definition verify_coinbase :: "chain_types \<Rightarrow> secp \<Rightarrow> foundation_file \<Rightarrow> block \<Rightarrow> (block_error + unit) option" where
  "verify_coinbase ct S foundation b =
     Option.bind (is_foundation_height ct (h_height (b_header b))) (\<lambda>fh.
       if fh then Option.bind (load_foundation_output ct foundation (h_height (b_header b))) (\<lambda>cb.
         if list_ex (\<lambda>x. o_commit x = o_commit (fst cb)) (filter output_is_coinbase (outputs (b_body b))) then coinbase_sums ct S b
         else Some (Inl InvalidFoundationOutput))
       else coinbase_sums ct S b)"

definition block_validate :: "chain_types \<Rightarrow> secp \<Rightarrow> hash_fun \<Rightarrow> foundation_file \<Rightarrow> block \<Rightarrow> blinding_factor \<Rightarrow>
    (block_error + commitment) option" where
  "block_validate ct S hash foundation b prev_kernel_offset =
     (case bind_res (map_err BlockTransaction (body_validate ct S hash (b_body b) AsBlock)) (\<lambda>_.
           verify_kernel_lock_heights (h_height (b_header b)) (kernels (b_body b))) of
        Inl e \<Rightarrow> Some (Inl e)
      | Inr _ \<Rightarrow> Option.bind (verify_coinbase ct S foundation b) (\<lambda>r.
          case r of Inl e \<Rightarrow> Some (Inl e)
          | Inr _ \<Rightarrow> Option.bind (header_overage ct (b_header b)) (\<lambda>ovg.
              case block_kernel_offset S b prev_kernel_offset of Inl e \<Rightarrow> Some (Inl e)
              | Inr ofs \<Rightarrow> map_option (\<lambda>r. bind_res (map_err BlockCommitted r) (\<lambda>(_, kernel_sum). Inr kernel_sum))
                  (verify_kernel_sums S (body_committed (b_body b)) ovg ofs))))"

subsection \<open>Compact blocks\<close>

type_synonym short_id = "u8 list"

definition SHORT_ID_SIZE :: usize where "SHORT_ID_SIZE = 6"

definition read_short_id :: "short_id read" where
  "read_short_id = read_fixed_bytes SHORT_ID_SIZE"

text \<open>\<open>short_id\<close> of a kernel: the low six bytes, little-endian, of the keyed hash of its hash.\<close>

definition le_nat :: "u8 list \<Rightarrow> nat" where "le_nat bs = be_nat (rev bs)"

definition short_id_of :: "(u8 list \<Rightarrow> hash) \<Rightarrow> (u64 \<Rightarrow> u64 \<Rightarrow> u8 list \<Rightarrow> u64) \<Rightarrow> tx_kernel \<Rightarrow> hash \<Rightarrow> u64 \<Rightarrow> short_id" where
  "short_id_of digest sip k h nonce =
     (let hash_with_nonce = hash_bytes (digest (write_hash h @ write_u64 nonce));
          k0 = le_nat (take 8 hash_with_nonce);
          k1 = le_nat (take 8 (drop 8 hash_with_nonce));
          res = sip k0 k1 (hash_bytes (digest (write_kernel k)))
      in take SHORT_ID_SIZE (rev (be_bytes 8 res)))"

record compact_block_body =
  out_full :: "tx_output list"
  kern_full :: "tx_kernel list"
  kern_ids :: "short_id list"

record compact_block =
  cb_header :: block_header
  cb_nonce :: u64
  cb_body :: compact_block_body

definition cb_verify_sorted :: "hash_fun \<Rightarrow> compact_block_body \<Rightarrow> ser_error + unit" where
  "cb_verify_sorted hash b =
     bind_res (verify_sorted_and_unique (map (output_hash hash) (out_full b))) (\<lambda>_.
     bind_res (verify_sorted_and_unique (map (kernel_hash hash) (kern_full b))) (\<lambda>_.
     verify_sorted_and_unique (map hash (kern_ids b))))"

definition cb_body_init :: "hash_fun \<Rightarrow> tx_output list \<Rightarrow> tx_kernel list \<Rightarrow> short_id list \<Rightarrow> bool \<Rightarrow> ser_error + compact_block_body" where
  "cb_body_init hash outs kers ids verify_srt =
     (if verify_srt then let body = \<lparr>out_full = outs, kern_full = kers, kern_ids = ids\<rparr> in bind_res (cb_verify_sorted hash body) (\<lambda>_. Inr body)
      else Inr \<lparr>out_full = sort_key (output_hash hash) outs, kern_full = sort_key (kernel_hash hash) kers, kern_ids = sort_key hash ids\<rparr>)"

definition write_cb_body :: "serialization_mode \<Rightarrow> compact_block_body \<Rightarrow> u8 list" where
  "write_cb_body mode b = write_u64 (length (out_full b)) @ write_u64 (length (kern_full b)) @ write_u64 (length (kern_ids b)) @
     write_vec (write_output mode) (out_full b) @ write_vec write_kernel (kern_full b) @ write_vec (\<lambda>x. x) (kern_ids b)"

definition read_cb_body :: "hash_fun \<Rightarrow> usize \<Rightarrow> compact_block_body read" where
  "read_cb_body hash mps =
     read_bind read_u64 (\<lambda>out_full_len.
     read_bind read_u64 (\<lambda>kern_full_len.
     read_bind read_u64 (\<lambda>kern_id_len.
     read_bind (read_multi (read_output mps) out_full_len) (\<lambda>outs.
     read_bind (read_multi read_kernel kern_full_len) (\<lambda>kers.
     read_bind (read_multi read_short_id kern_id_len) (\<lambda>ids.
       case cb_body_init hash outs kers ids True of Inl _ \<Rightarrow> read_err CorruptedData | Inr b \<Rightarrow> read_ok b))))))"

definition write_compact_block :: "chain_types \<Rightarrow> serialization_mode \<Rightarrow> compact_block \<Rightarrow> u8 list option" where
  "write_compact_block ct mode cb = map_option (\<lambda>h. h @
     (if mode \<noteq> Hash then write_u64 (cb_nonce cb) @ write_cb_body mode (cb_body cb) else [])) (write_header ct mode (cb_header cb))"

definition read_compact_block :: "chain_types \<Rightarrow> i64 \<times> i64 \<Rightarrow> hash_fun \<Rightarrow> usize \<Rightarrow> compact_block read" where
  "read_compact_block ct dates hash mps =
     read_bind (read_header ct dates) (\<lambda>h.
     read_bind read_u64 (\<lambda>nonce.
     read_bind (read_cb_body hash mps) (\<lambda>body.
       case cb_verify_sorted hash body of Inl _ \<Rightarrow> read_err CorruptedData
       | Inr _ \<Rightarrow> read_ok \<lparr>cb_header = h, cb_nonce = nonce, cb_body = body\<rparr>)))"

definition compact_block_from :: "chain_types \<Rightarrow> (u8 list \<Rightarrow> hash) \<Rightarrow> (u64 \<Rightarrow> u64 \<Rightarrow> u8 list \<Rightarrow> u64) \<Rightarrow> u64 \<Rightarrow> block \<Rightarrow> compact_block" where
  "compact_block_from ct digest sip nonce b =
     (let h = header_hash ct digest (b_header b);
          ids = map (\<lambda>k. short_id_of digest sip k h nonce) (filter (\<lambda>k. \<not> kernel_is_coinbase k) (kernels (b_body b)))
      in \<lparr>cb_header = b_header b, cb_nonce = nonce,
          cb_body = projr (cb_body_init (\<lambda>bs. hash_bytes (digest bs)) (filter output_is_coinbase (outputs (b_body b)))
            (filter kernel_is_coinbase (kernels (b_body b))) ids False)\<rparr>)"

text \<open>The hash sets of \<open>hydrate_from\<close> keep one of several equal items; their order is lost in the sorting.\<close>

definition hydrate_from :: "hash_fun \<Rightarrow> compact_block \<Rightarrow> transaction list \<Rightarrow> block_error + block" where
  "hydrate_from hash cb txs =
     (let all_inputs = remdups (concat (map (\<lambda>t. inputs (t_body t)) txs));
          all_outputs = remdups (concat (map (\<lambda>t. outputs (t_body t)) txs) @ out_full (cb_body cb));
          all_kernels = remdups (concat (map (\<lambda>t. kernels (t_body t)) txs) @ kern_full (cb_body cb))
      in bind_res (map_err (\<lambda>e. BlockTransaction (Serialization e)) (body_init hash all_inputs all_outputs all_kernels False)) (\<lambda>body.
           block_cut_through hash \<lparr>b_header = cb_header cb, b_body = body\<rparr>))"

section \<open>Everything is read back\<close>

definition header_ok :: "chain_types \<Rightarrow> i64 \<times> i64 \<Rightarrow> block_header \<Rightarrow> bool" where
  "header_ok ct dates h \<longleftrightarrow> h_version h = CURRENT_HEADER_VERSION \<and> h_height h < u64_size \<and>
     fst dates \<le> h_timestamp h \<and> h_timestamp h \<le> snd dates \<and> - 9223372036854775808 \<le> h_timestamp h \<and> h_timestamp h < 9223372036854775808 \<and>
     length (total_kernel_offset h) = SECRET_KEY_SIZE \<and> output_mmr_size h < u64_size \<and> kernel_mmr_size h < u64_size \<and>
     pow_ok ct (h_pow h) \<and> h_policy h < 256 \<and> (\<forall>p v. bottles h p = Some v \<longrightarrow> v < u32_size)"

lemma reads_header:
  assumes "header_ok ct dates h"
  shows "\<exists>bs. write_header ct Full h = Some bs \<and> reads (read_header ct dates) bs h"
proof -
  obtain p where p: "write_proof_of_work ct Full (h_pow h) = Some p" "reads (read_proof_of_work ct) p (h_pow h)"
    using reads_proof_of_work assms unfolding header_ok_def by blast
  have "reads (read_header ct dates) (write_u16 (h_version h) @ write_u64 (h_height h) @ write_i64 (h_timestamp h) @ write_hash (prev_hash h) @
      write_hash (prev_root h) @ write_hash (output_root h) @ write_hash (range_proof_root h) @ write_hash (kernel_root h) @ total_kernel_offset h @
      write_u64 (output_mmr_size h) @ write_u64 (kernel_mmr_size h) @ p @ write_u8 (h_policy h) @ write_policy (bottles h)) h"
    unfolding read_header_def using assms p(2)
    by (intro reads_bind [OF reads_ints(2)] reads_bind [OF reads_ints(4)] reads_bind [OF reads_i64] reads_bind [OF hash_codec.reads_put]
        reads_bind [OF reads_blinding_factor] reads_bind [of "read_proof_of_work ct"] reads_bind [OF reads_ints(1)]
        reads_last [OF policy_codec.reads_put])
      (auto simp: header_ok_def CURRENT_HEADER_VERSION_def valid_header_version_def intro: reads_ok_eq)
  then show ?thesis by (simp add: write_header_def write_header_pre_pow_def p(1))
qed

lemma header_written:
  assumes "header_ok ct dates h"
  shows "\<exists>bs. write_header ct Hash h = Some bs"
proof -
  have "write_proof ct Full (pow_proof (h_pow h)) \<noteq> None"
    using assms reads_proof [of ct "pow_proof (h_pow h)"] by (auto simp: header_ok_def pow_ok_def)
  then show ?thesis by (cases "pow_proof (h_pow h)") (auto simp: write_header_def write_proof_of_work_def)
qed

interpretation header_codec: codec "\<lambda>h. bytes_or_nil (write_header ct Full h)" "read_header ct dates" "header_ok ct dates"
  using reads_header [of ct dates] by unfold_locales fastforce

definition block_ok :: "chain_types \<Rightarrow> i64 \<times> i64 \<Rightarrow> hash_fun \<Rightarrow> usize \<Rightarrow> block \<Rightarrow> bool" where
  "block_ok ct dates hash mps b \<longleftrightarrow> header_ok ct dates (b_header b) \<and> body_ok ct hash mps (b_body b) \<and>
     body_validate_read ct hash (b_body b) AsBlock = Inr ()"

interpretation block_codec: codec "\<lambda>b. bytes_or_nil (write_block ct Full b)" "read_block ct dates hash mps" "block_ok ct dates hash mps"
proof
  fix b assume b: "block_ok ct dates hash mps b"
  obtain h where h: "write_header ct Full (b_header b) = Some h" "reads (read_header ct dates) h (b_header b)"
    using reads_header b unfolding block_ok_def by blast
  have "reads (read_block ct dates hash mps) (h @ write_body Full (b_body b)) b"
    unfolding read_block_def using b
    by (intro reads_bind [OF h(2)] reads_last [OF body_codec.reads_put]) (simp_all add: block_ok_def reads_ok_eq)
  then show "reads (read_block ct dates hash mps) (bytes_or_nil (write_block ct Full b)) b" by (simp add: write_block_def h(1))
qed

definition cb_ok :: "chain_types \<Rightarrow> i64 \<times> i64 \<Rightarrow> hash_fun \<Rightarrow> usize \<Rightarrow> compact_block \<Rightarrow> bool" where
  "cb_ok ct dates hash mps cb \<longleftrightarrow> header_ok ct dates (cb_header cb) \<and> cb_nonce cb < u64_size \<and>
     list_all (output_ok mps) (out_full (cb_body cb)) \<and> list_all kernel_ok (kern_full (cb_body cb)) \<and>
     list_all (\<lambda>x. length x = SHORT_ID_SIZE) (kern_ids (cb_body cb)) \<and> length (out_full (cb_body cb)) \<le> 1000000 \<and>
     length (kern_full (cb_body cb)) \<le> 1000000 \<and> length (kern_ids (cb_body cb)) \<le> 1000000 \<and> cb_verify_sorted hash (cb_body cb) = Inr ()"

interpretation short_id_codec: codec "\<lambda>x. x" read_short_id "\<lambda>x. length x = SHORT_ID_SIZE"
  by unfold_locales (unfold read_short_id_def, rule reads_fixed_bytes, simp_all add: SHORT_ID_SIZE_def MAX_FIXED_READ_def)

interpretation compact_block_codec: codec "\<lambda>cb. bytes_or_nil (write_compact_block ct Full cb)" "read_compact_block ct dates hash mps"
  "cb_ok ct dates hash mps"
proof
  fix cb assume cb: "cb_ok ct dates hash mps cb"
  let ?b = "cb_body cb"
  obtain h where h: "write_header ct Full (cb_header cb) = Some h" "reads (read_header ct dates) h (cb_header cb)"
    using reads_header cb unfolding cb_ok_def by blast
  have eta: "\<lparr>out_full = out_full ?b, kern_full = kern_full ?b, kern_ids = kern_ids ?b\<rparr> = ?b" by simp
  have init: "cb_body_init hash (out_full ?b) (kern_full ?b) (kern_ids ?b) True = Inr ?b"
    unfolding cb_body_init_def Let_def if_True eta using cb by (simp add: cb_ok_def)
  have "reads (read_cb_body hash mps) (write_cb_body Full ?b) ?b"
    unfolding read_cb_body_def write_cb_body_def using cb
    by (intro reads_bind [OF reads_ints(4)] reads_bind [OF output_codec.reads_multi] reads_bind [OF kernel_codec.reads_multi]
        reads_last [OF short_id_codec.reads_multi]) (simp_all add: cb_ok_def init reads_ok)
  then have "reads (read_compact_block ct dates hash mps) (h @ write_u64 (cb_nonce cb) @ write_cb_body Full ?b) cb"
    unfolding read_compact_block_def using cb
    by (intro reads_bind [OF h(2)] reads_bind [OF reads_ints(4)] reads_last [of "read_cb_body hash mps"]) (auto simp: cb_ok_def reads_ok_eq)
  then show "reads (read_compact_block ct dates hash mps) (bytes_or_nil (write_compact_block ct Full cb)) cb"
    by (simp add: write_compact_block_def h(1))
qed

section \<open>The header file\<close>

text \<open>The entries of the header range have their fixed length only while the total difficulty has a value for
  each of the four algorithms.\<close>

definition header_entry_ok :: "header_entry \<Rightarrow> bool" where
  "header_entry_ok e \<longleftrightarrow> he_timestamp e < u64_size \<and> he_secondary_scaling e < u32_size \<and>
     list_all (\<lambda>p. case num (he_total_difficulty e) p of None \<Rightarrow> False | Some v \<Rightarrow> v < u64_size) pow_types"

lemma header_entry_difficulty:
  assumes "header_entry_ok e"
  shows "\<forall>p v. num (he_total_difficulty e) p = Some v \<longrightarrow> v < u64_size"
    and "length (write_difficulty (he_total_difficulty e)) = DIFFICULTY_LEN"
proof -
  have all: "\<exists>v. num (he_total_difficulty e) p = Some v \<and> v < u64_size" for p
  proof -
    have "case num (he_total_difficulty e) p of None \<Rightarrow> False | Some v \<Rightarrow> v < u64_size"
      using assms pow_types_all [of p] unfolding header_entry_ok_def list_all_iff by blast
    then show ?thesis by (cases "num (he_total_difficulty e) p") simp_all
  qed
  then show "\<forall>p v. num (he_total_difficulty e) p = Some v \<longrightarrow> v < u64_size" by (metis option.inject)
  obtain a b c d where "num (he_total_difficulty e) Cuckaroo = Some a" "num (he_total_difficulty e) Cuckatoo = Some b"
    "num (he_total_difficulty e) RandomX = Some c" "num (he_total_difficulty e) ProgPow = Some d"
    using all [of Cuckaroo] all [of Cuckatoo] all [of RandomX] all [of ProgPow] by auto
  then have "dict_entries (num (he_total_difficulty e)) = [(Cuckaroo, a), (Cuckatoo, b), (RandomX, c), (ProgPow, d)]"
    by (simp add: dict_entries_def pow_types_def List.map_filter_simps)
  then show "length (write_difficulty (he_total_difficulty e)) = DIFFICULTY_LEN"
    by (simp add: write_difficulty_def write_vec_def DIFFICULTY_LEN_def)
qed

lemma counts_dict:
  "\<forall>e \<in> set es. counts get (put e) e \<Longrightarrow>
   counts (read_dict get (length es) m) (write_vec put es) (fold (\<lambda>(p, v) m. m(p \<mapsto> v)) es m)"
proof (induction es arbitrary: m)
  case (Cons e es)
  then show ?case by (cases e) (auto simp: write_vec_def simp del: fun_upd_apply intro!: counts_bind)
qed (simp add: write_vec_def counts_ok_eq)

lemma counts_u32: "n < u32_size \<Longrightarrow> counts read_u32 (write_u32 n) n"
  using counts_uint [of n 4] by (simp add: read_u32_def write_u32_def)

lemma counts_difficulty_entry: "v < u64_size \<Longrightarrow> counts read_difficulty_entry (write_u8 (pow_to_u8 p) @ write_u64 v) (p, v)"
  unfolding read_difficulty_entry_def
  by (intro counts_bind [OF counts_ints(1)] counts_last [OF counts_ints(3)]) (simp_all add: counts_ok_eq del: pow_try_from.simps)

lemma counts_difficulty:
  assumes "\<forall>p v. num d p = Some v \<longrightarrow> v < u64_size"
  shows "counts read_difficulty (write_difficulty d) d"
proof -
  let ?es = "dict_entries (num d)"
  have "\<forall>e \<in> set ?es. counts read_difficulty_entry ((\<lambda>(p, n). write_u8 (pow_to_u8 p) @ write_u64 n) e) e"
    using assms dict_entries_set by (fastforce intro: counts_difficulty_entry)
  moreover have r: "counts (read_ok \<lparr>num = num d\<rparr>) [] d" using counts_ok_eq [of d d] by (cases d) simp
  ultimately show ?thesis
    using counts_dict [of ?es read_difficulty_entry "\<lambda>(p, n). write_u8 (pow_to_u8 p) @ write_u64 n" Map.empty]
    unfolding read_difficulty_def write_difficulty_def Let_def fold_dict_entries
    using dict_entries_length [of "num d"] r
    by (intro counts_bind [OF counts_ints(3)]) (auto intro!: counts_last)
qed

lemma counts_hash: "counts read_hash (write_hash h) h"
  unfolding write_hash_def read_hash_def
  by (rule counts_last [OF counts_fixed_bytes]) (simp_all add: hash_bytes_inverse counts_ok_eq)

lemma header_entry_codecs:
  assumes "header_entry_ok e"
  shows "counts read_header_entry (write_header_entry e) e" and "reads read_header_entry (write_header_entry e) e"
proof -
  note d = header_entry_difficulty(1) [OF assms]
  show "counts read_header_entry (write_header_entry e) e"
    unfolding read_header_entry_def write_header_entry_def using assms
    by (intro counts_bind [OF counts_hash] counts_bind [OF counts_ints(3)] counts_bind [OF counts_difficulty [OF d]] counts_bind [OF counts_u32]
        counts_last [OF counts_ints(1)] counts_ok_eq) (simp_all add: header_entry_ok_def)
  show "reads read_header_entry (write_header_entry e) e"
    unfolding read_header_entry_def write_header_entry_def using assms
    by (intro reads_bind [OF hash_codec.reads_put] reads_bind [OF reads_ints(4)] reads_bind [OF difficulty_codec.reads_put [OF d]]
        reads_bind [OF reads_ints(3)] reads_last [OF reads_ints(1)] reads_ok_eq) (simp_all add: header_entry_ok_def)
qed

lemma header_store:
  assumes "bitmap_laws K"
  shows "element_store write_header_entry read_header_entry header_entry_ok K (Some HEADER_ENTRY_LEN)"
proof (rule element_storeI [OF header_entry_codecs(2,1) _ _ _ assms])
  show "ends read_header_entry" unfolding read_header_entry_def read_hash_def
    by (intro ends_bind ends_fixed_bytes) (simp_all add: MAX_FIXED_READ_def)
  show "0 < length (write_header_entry e) \<and> length (write_header_entry e) < 65536 \<and> fits (Some HEADER_ENTRY_LEN) (write_header_entry e)"
    if "header_entry_ok e" for e
    using header_entry_difficulty(2) [OF that]
    by (simp add: write_header_entry_def fits_def HEADER_ENTRY_LEN_def HASH_LEN_def DIFFICULTY_LEN_def write_hash_def)
qed (simp_all add: HEADER_ENTRY_LEN_def)

interpretation header_files: element_store write_header_entry read_header_entry header_entry_ok list_bitmap
  "Some HEADER_ENTRY_LEN" "header_as_elmt ct digest" for ct digest
  by (rule header_store [OF list_bitmap_laws])

section \<open>Hydrating\<close>

lemma block_eta: "\<lparr>b_header = b_header b, b_body = b_body b\<rparr> = (b :: block)"
  by simp

lemma sort_key_unique:
  fixes f :: "'a \<Rightarrow> 'k::linorder"
  assumes "sorted_wrt (<) (map f ys)" and "distinct xs" and "set xs = set ys"
  shows "sort_key f xs = ys"
proof (rule sort_key_inj_key_eq)
  have ys: "distinct (map f ys)" "sorted (map f ys)" using assms(1) by (simp_all add: strict_sorted_iff)
  then show "sorted (map f ys)" "inj_on f (set xs)" using assms(3) by (simp_all add: distinct_map)
  show "mset xs = mset ys" using assms(2,3) ys(1) by (simp add: set_eq_iff_mset_eq_distinct distinct_map)
qed

lemma sort_key_same: "sorted_wrt (<) (map f xs) \<Longrightarrow> sort_key f xs = (xs :: 'a list)" for f :: "'a \<Rightarrow> 'k::linorder"
  by (rule sort_key_unique) (auto simp: strict_sorted_iff distinct_map)

lemma block_cut_through_id:
  assumes "verify_sorted hash (b_body b) = Inr ()" and "verify_cut_through hash (b_body b) = Inr ()"
  shows "block_cut_through hash b = Inr b"
proof -
  let ?b = "b_body b"
  have s: "sorted_wrt (<) (map (input_hash hash) (inputs ?b))" "sorted_wrt (<) (map (output_hash hash) (outputs ?b))"
    "sorted_wrt (<) (map (kernel_hash hash) (kernels ?b))" using assms(1) by (simp_all add: sorted_bodies)
  then have d: "sorted (map (input_hash hash) (inputs ?b))" "sorted (map (output_hash hash) (outputs ?b))"
    "distinct (map (output_hash hash) (outputs ?b))" by (simp_all add: strict_sorted_iff)
  have "input_hash hash ` set (inputs ?b) \<inter> output_hash hash ` set (outputs ?b) = {}"
    using assms(2) disjoint_sorted_iff [OF d(1,2)] by (simp add: verify_cut_through_def split: if_splits)
  then have "cut_through hash (inputs ?b) (outputs ?b) = Inr (inputs ?b, outputs ?b)"
    using d(3) s by (simp add: cut_through_eq sort_key_same cut_merge_none)
  moreover have "\<lparr>inputs = inputs ?b, outputs = outputs ?b, kernels = kernels ?b\<rparr> = ?b" by (rule body_eta)
  ultimately show ?thesis
    using s by (simp add: block_cut_through_def body_init_def body_sort_def sort_key_same Let_def map_err_def)
qed

text \<open>C39: a block is rebuilt from its compact form. If the transactions a node has found make up the block
  together with its coinbase outputs and kernels, hydrating the compact block with them, in whatever order,
  gives back exactly the block; duplicates among the transactions do not matter.\<close>

theorem compact_block_hydrates:
  assumes "hash = (\<lambda>bs. hash_bytes (digest bs))"
    and "verify_sorted hash (b_body b) = Inr ()" and "verify_cut_through hash (b_body b) = Inr ()"
    and "set (concat (map (\<lambda>t. inputs (t_body t)) txs)) = set (inputs (b_body b))"
    and "set (concat (map (\<lambda>t. outputs (t_body t)) txs)) \<union> {x \<in> set (outputs (b_body b)). output_is_coinbase x} = set (outputs (b_body b))"
    and "set (concat (map (\<lambda>t. kernels (t_body t)) txs)) \<union> {x \<in> set (kernels (b_body b)). kernel_is_coinbase x} = set (kernels (b_body b))"
  shows "hydrate_from hash (compact_block_from ct digest sip nonce b) txs = Inr b"
proof -
  let ?b = "b_body b"
  let ?cb = "compact_block_from ct digest sip nonce b"
  have cb: "cb_header ?cb = b_header b" "set (out_full (cb_body ?cb)) = {x \<in> set (outputs ?b). output_is_coinbase x}"
    "set (kern_full (cb_body ?cb)) = {x \<in> set (kernels ?b). kernel_is_coinbase x}"
    by (auto simp: compact_block_from_def cb_body_init_def Let_def)
  have s: "sorted_wrt (<) (map (input_hash hash) (inputs ?b))" "sorted_wrt (<) (map (output_hash hash) (outputs ?b))"
    "sorted_wrt (<) (map (kernel_hash hash) (kernels ?b))" using assms(2) by (simp_all add: sorted_bodies)
  have "sort_key (input_hash hash) (remdups (concat (map (\<lambda>t. inputs (t_body t)) txs))) = inputs ?b"
    by (rule sort_key_unique [OF s(1)]) (use assms(4) in simp_all)
  moreover have "sort_key (output_hash hash) (remdups (concat (map (\<lambda>t. outputs (t_body t)) txs) @ out_full (cb_body ?cb))) = outputs ?b"
    by (rule sort_key_unique [OF s(2)]) (use assms(5) cb(2) in simp_all)
  moreover have "sort_key (kernel_hash hash) (remdups (concat (map (\<lambda>t. kernels (t_body t)) txs) @ kern_full (cb_body ?cb))) = kernels ?b"
    by (rule sort_key_unique [OF s(3)]) (use assms(6) cb(3) in simp_all)
  ultimately have "body_init hash (remdups (concat (map (\<lambda>t. inputs (t_body t)) txs)))
      (remdups (concat (map (\<lambda>t. outputs (t_body t)) txs) @ out_full (cb_body ?cb)))
      (remdups (concat (map (\<lambda>t. kernels (t_body t)) txs) @ kern_full (cb_body ?cb))) False = Inr ?b"
    by (simp add: body_init_def body_sort_def body_eta)
  then show ?thesis using block_cut_through_id [OF assms(2,3)] cb(1) by (simp add: hydrate_from_def Let_def map_err_def block_eta)
qed

definition example_kernel :: "kernel_features \<Rightarrow> nat \<Rightarrow> u8 list \<Rightarrow> tx_kernel" where
  "example_kernel f n e = \<lparr>k_features = f, fee = n, lock_height = 0, excess = e, excess_sig = []\<rparr>"

definition example_block :: block where
  "example_block = \<lparr>b_header = (header_default Mainnet)\<lparr>h_height := 1, total_kernel_offset := [0, 1] @ replicate 30 0\<rparr>, b_body = \<lparr>
     inputs = [\<lparr>i_features = PlainOutput, i_commit = [0, 50]\<rparr>],
     outputs = [\<lparr>o_features = PlainOutput, o_commit = [0, 47], o_proof = []\<rparr>, \<lparr>o_features = CoinbaseOutput, o_commit = [0, 1457920003], o_proof = []\<rparr>],
     kernels = [example_kernel PlainKernel 3 [1, 1], example_kernel CoinbaseKernel 0 [0, 0]]\<rparr>\<rparr>"

definition example_digest :: "u8 list \<Rightarrow> hash" where
  "example_digest bs = hash_of (take 32 (bs @ replicate 32 0))"

lemma example_block_structure:
  "verify_sorted (\<lambda>bs. hash_bytes (example_digest bs)) (b_body example_block) = Inr ()"
  "verify_cut_through (\<lambda>bs. hash_bytes (example_digest bs)) (b_body example_block) = Inr ()"
  by (simp_all add: example_block_def example_kernel_def example_digest_def sorted_bodies write_input_def write_output_def
      write_kernel_def write_output_features_def write_kernel_features_def write_u8_def write_u64_def be_bytes_def verify_cut_through_def)

theorem compact_block_hydrates_witness:
  "hydrate_from (\<lambda>bs. hash_bytes (example_digest bs)) (compact_block_from Mainnet example_digest (\<lambda>_ _ _. 7) 5 example_block)
    [example_tx 50 47 3, example_tx 50 47 3] = Inr example_block"
  by (rule compact_block_hydrates [OF refl example_block_structure])
    (auto simp: example_block_def example_tx_def example_kernel_def output_is_coinbase_def kernel_is_coinbase_def)

section \<open>What a valid block creates\<close>

lemma sum_filter_split:
  "sum_list (map f xs) = sum_list (map f (filter P xs)) + (sum_list (map f (filter (\<lambda>x. \<not> P x) xs)) :: 'g::ab_group_add)"
  by (induction xs) simp_all

lemma block_validate_parts:
  assumes "block_validate ct S hash foundation b prev = Some (Inr ks)"
  shows "body_validate ct S hash (b_body b) AsBlock = Inr ()"
    and "verify_kernel_lock_heights (h_height (b_header b)) (kernels (b_body b)) = Inr ()"
    and "coinbase_sums ct S b = Some (Inr ())"
    and "\<exists>ovg ofs u. header_overage ct (b_header b) = Some ovg \<and> block_kernel_offset S b prev = Inr ofs \<and>
      verify_kernel_sums S (body_committed (b_body b)) ovg ofs = Some (Inr (u, ks))"
proof -
  obtain e where e: "bind_res (map_err BlockTransaction (body_validate ct S hash (b_body b) AsBlock)) (\<lambda>_.
      verify_kernel_lock_heights (h_height (b_header b)) (kernels (b_body b))) = Inr e"
    using assms by (auto simp: block_validate_def split: sum.splits)
  then show "body_validate ct S hash (b_body b) AsBlock = Inr ()"
    "verify_kernel_lock_heights (h_height (b_header b)) (kernels (b_body b)) = Inr ()" by (auto simp: bind_res_Inr_iff)
  have v: "Option.bind (verify_coinbase ct S foundation b) (\<lambda>r. case r of Inl e \<Rightarrow> Some (Inl e)
      | Inr _ \<Rightarrow> Option.bind (header_overage ct (b_header b)) (\<lambda>ovg.
          case block_kernel_offset S b prev of Inl e \<Rightarrow> Some (Inl e)
          | Inr ofs \<Rightarrow> map_option (\<lambda>r. bind_res (map_err BlockCommitted r) (\<lambda>(_, kernel_sum). Inr kernel_sum))
              (verify_kernel_sums S (body_committed (b_body b)) ovg ofs))) = Some (Inr ks)"
    using assms unfolding block_validate_def e by simp
  then obtain r where r: "verify_coinbase ct S foundation b = Some r" by (cases "verify_coinbase ct S foundation b") simp_all
  with v have r': "r = Inr ()" by (cases r) simp_all
  then show "coinbase_sums ct S b = Some (Inr ())"
    using r by (auto simp: verify_coinbase_def bind_eq_Some_conv split: if_splits)
  show "\<exists>ovg ofs u. header_overage ct (b_header b) = Some ovg \<and> block_kernel_offset S b prev = Inr ofs \<and>
      verify_kernel_sums S (body_committed (b_body b)) ovg ofs = Some (Inr (u, ks))"
    using v unfolding r r' by (cases "block_kernel_offset S b prev") (auto simp: bind_eq_Some_conv bind_res_Inr_iff)
qed

lemma coinbase_sums_cval:
  assumes L: "secp_laws S cval kval hval" and c: "coinbase_sums ct S b = Some (Inr ())"
    and r: "reward_foundation ct (block_total_fees b) (h_height (b_header b)) = Some v"
  shows "sum_list (map (cval \<circ> o_commit) (filter output_is_coinbase (outputs (b_body b)))) =
    sum_list (map (cval \<circ> excess) (filter kernel_is_coinbase (kernels (b_body b)))) + hval v"
proof -
  obtain oc os where oc: "commit_value S v = Inr oc"
      "commit_sum S (map o_commit (filter output_is_coinbase (outputs (b_body b)))) [oc] = Inr os"
      "commit_sum S (map excess (filter kernel_is_coinbase (kernels (b_body b)))) [] = Inr os"
    using c r by (auto simp: coinbase_sums_def bind_res_Inr_iff split: if_splits)
  show ?thesis using secp_lawsD(1) [OF L oc(2)] secp_lawsD(1) [OF L oc(3)] secp_lawsD(4) [OF L oc(1)] by (simp add: algebra_simps)
qed

text \<open>C6: a block that validates creates exactly its reward. Its coinbase outputs carry, beyond the coinbase
  kernels, the miner's reward, the foundation's part and the fees of its kernels; the rest of the block
  balances as one transaction that pays those fees under the offset the block adds. No other value appears
  or disappears.\<close>

theorem block_creates_reward:
  assumes "secp_laws S cval kval hval"
    and "block_validate ct S hash foundation b prev = Some (Inr ks)"
    and "reward_at_height (h_height (b_header b)) = Some r" and "add_reward_foundation ct (h_height (b_header b)) = Some f"
    and "r + f + sum_list (map fee (kernels (b_body b))) < 9223372036854775808"
  shows "\<exists>ofs. block_kernel_offset S b prev = Inr ofs \<and>
    sum_list (map (cval \<circ> o_commit) (filter output_is_coinbase (outputs (b_body b)))) =
      sum_list (map (cval \<circ> excess) (filter kernel_is_coinbase (kernels (b_body b)))) +
      hval (r + f + sum_list (map fee (kernels (b_body b)))) \<and>
    sum_list (map (cval \<circ> o_commit) (filter (\<lambda>x. \<not> output_is_coinbase x) (outputs (b_body b)))) +
      hval (sum_list (map fee (kernels (b_body b)))) =
      sum_list (map (cval \<circ> i_commit) (inputs (b_body b))) +
      sum_list (map (cval \<circ> excess) (filter (\<lambda>x. \<not> kernel_is_coinbase x) (kernels (b_body b)))) + kval ofs"
proof -
  let ?fees = "sum_list (map fee (kernels (b_body b)))"
  have "block_total_fees b = body_fee (b_body b)" by (simp add: block_total_fees_def body_fee_def)
  then have fees: "block_total_fees b = ?fees" using assms(5) by (simp add: body_fee_sum)
  have rf: "reward_foundation ct (block_total_fees b) (h_height (b_header b)) = Some (r + f + ?fees)"
    using assms(3-5) by (simp add: reward_foundation_def reward_def fees u64_sat_add_def width)
  have cb: "sum_list (map (cval \<circ> o_commit) (filter output_is_coinbase (outputs (b_body b)))) =
      sum_list (map (cval \<circ> excess) (filter kernel_is_coinbase (kernels (b_body b)))) + hval (r + f + ?fees)"
    by (rule coinbase_sums_cval [OF assms(1) block_validate_parts(3) [OF assms(2)] rf])
  obtain ovg ofs u where o: "header_overage ct (b_header b) = Some ovg" "block_kernel_offset S b prev = Inr ofs"
      "verify_kernel_sums S (body_committed (b_body b)) ovg ofs = Some (Inr (u, ks))"
    using block_validate_parts(4) [OF assms(2)] by blast
  have "ovg = - int (r + f)" using o(1) assms(3-5) by (auto simp: header_overage_def checked_neg_or_0_def width)
  then have ov: "oval hval ovg = - hval (r + f)" using hval_0 [OF assms(1)] by (cases "r + f = 0") (simp_all add: oval_def del: of_nat_add)
  have bal: "sum_list (map (cval \<circ> o_commit) (outputs (b_body b))) - sum_list (map (cval \<circ> i_commit) (inputs (b_body b))) + oval hval ovg =
      sum_list (map (cval \<circ> excess) (kernels (b_body b))) + kval ofs"
    using verify_kernel_sums_balanced(1) [OF assms(1) o(3) refl] by (simp add: balanced_tx)
  have "hval (r + f + ?fees) = hval (r + f) + hval ?fees" using secp_lawsD(8) [OF assms(1)] by blast
  then show ?thesis
    using cb bal o(2) unfolding ov sum_filter_split [of _ "outputs (b_body b)" output_is_coinbase]
      sum_filter_split [of _ "kernels (b_body b)" kernel_is_coinbase]
    by (intro exI [of _ ofs]) (simp add: algebra_simps)
qed

theorem block_creates_reward_witness:
  "\<exists>ks ofs. block_validate Mainnet int_secp (\<lambda>bs. hash_bytes (example_digest bs)) \<lparr>ff_bytes = [], ff_parse = \<lambda>_. None\<rparr> example_block blinding_zero = Some (Inr ks) \<and>
    block_kernel_offset int_secp example_block blinding_zero = Inr ofs \<and>
    sum_list (map (dec_int \<circ> o_commit) (filter output_is_coinbase (outputs (b_body example_block)))) =
      sum_list (map (dec_int \<circ> excess) (filter kernel_is_coinbase (kernels (b_body example_block)))) + int (1457920000 + 0 + 3)"
proof -
  have r: "reward_at_height (h_height (b_header example_block)) = Some 1457920000" "add_reward_foundation Mainnet (h_height (b_header example_block)) = Some 0"
    "is_foundation_height Mainnet (h_height (b_header example_block)) = Some False"
    using reward_at_height_closed [of 1] add_reward_foundation_closed [of 1] is_foundation_height_closed [of 1]
    by (simp_all add: example_block_def levy_index_def reward_early foundation_part_def foundation_rate_def levy_rate_def)
  have k: "sum_list (map fee (kernels (b_body example_block))) = 3" by (simp add: example_block_def example_kernel_def)
  have "\<exists>ks. block_validate Mainnet int_secp (\<lambda>bs. hash_bytes (example_digest bs)) \<lparr>ff_bytes = [], ff_parse = \<lambda>_. None\<rparr> example_block blinding_zero = Some (Inr ks)"
  proof -
    have kern: "verify_kernels int_secp hash (kernels (b_body example_block)) = Inr ()" for hash
      by (simp add: example_block_def example_kernel_def kernel_verify_def kernel_is_coinbase_def kernel_is_height_locked_def int_secp_def
          map_err_def msg_to_sign_def kernel_sig_msg_def)
    have body: "body_validate Mainnet int_secp (\<lambda>bs. hash_bytes (example_digest bs)) (b_body example_block) AsBlock = Inr ()"
      unfolding body_validate_def body_validate_read_def kern using example_block_structure
      by (simp add: verify_weight_def body_weight_as_block_def weight_as_block_def BLOCK_INPUT_WEIGHT_def BLOCK_OUTPUT_WEIGHT_def
          BLOCK_KERNEL_WEIGHT_def max_block_weight_def example_block_def batch_verify_proofs_def int_secp_def map_err_def u64_sat_add_def u64_sat_mul_def)
    have cb: "verify_coinbase Mainnet int_secp \<lparr>ff_bytes = [], ff_parse = \<lambda>_. None\<rparr> example_block = Some (Inr ())"
      using r by (simp add: verify_coinbase_def coinbase_sums_def reward_foundation_def reward_def block_total_fees_def
          example_block_def example_kernel_def int_secp_def map_err_def u64_sat_add_def width output_is_coinbase_def kernel_is_coinbase_def)
    have ofs: "block_kernel_offset int_secp example_block blinding_zero = Inr ([0, 1] @ replicate 30 0)"
      by (simp add: block_kernel_offset_def example_block_def sum_kernel_offsets_def to_secrets_def List.map_filter_simps secret_key_def int_secp_def
          map_err_def enc_int_def blinding_from_slice_def SECRET_KEY_SIZE_def)
    have ovg: "header_overage Mainnet (b_header example_block) = Some (- 1457920000)"
      using r by (simp add: header_overage_def checked_neg_or_0_def width)
    show ?thesis using body cb ofs ovg unfolding block_validate_def
      by (simp add: map_err_def verify_kernel_sums_def sum_commitments_def sum_commits_def sum_kernel_excesses_def secret_key_def
        int_secp_def body_committed_def example_block_def example_kernel_def enc_int_def)
  qed
  then obtain ks where ks: "block_validate Mainnet int_secp (\<lambda>bs. hash_bytes (example_digest bs)) \<lparr>ff_bytes = [], ff_parse = \<lambda>_. None\<rparr> example_block blinding_zero = Some (Inr ks)" by blast
  then show ?thesis using block_creates_reward [OF int_secp_laws ks r(1,2)] unfolding k by auto
qed

end
