(* ===== verification/Chain_Store.thy ===== *)
theory Chain_Store
  imports Block
begin

text \<open>
  The chain's database (\<open>chain/src/store.rs\<close>), its errors (\<open>chain/src/error.rs\<close>) and tips
  (\<open>chain/src/types.rs\<close>). LMDB is external: a batch is a value that holds, for every prefix of the keys,
  the entries below it, so that a child batch is a copy that is either dropped or takes the place of its
  parent. What LMDB itself may report (a full disk, a damaged file) is left out; the error that remains
  is a missing entry, whose message names the kind of entry and leaves out its key. Heights, hashes and headers are those of \<open>Block\<close>.
\<close>

section \<open>Definitions\<close>

datatype store_error = NotFoundErr string

datatype chain_error =
    Unfit string
  | Orphan
  | DifficultyTooLow
  | DifficultyTooHigh
  | WrongTotalDifficulty
  | LowEdgebits
  | InvalidScaling
  | InvalidPow
  | OldBlock
  | InvalidBlockProof block_error
  | InvalidBlockTime
  | InvalidBlockHeight
  | InvalidRoot
  | InvalidMMRSize
  | ChainKeychain string
  | ChainSecp string
  | AlreadySpent commitment
  | DuplicateCommitment commitment
  | ImmatureCoinbase
  | ChainMerkleProof
  | OutputNotFound
  | RangeproofNotFound
  | TxKernelNotFound
  | OutputSpent
  | ChainInvalidBlockVersion nat
  | InvalidTxHashSet string
  | StoreErr store_error string
  | FileReadErr string
  | ChainSerErr ser_error
  | TxHashSetErr string
  | TxLockHeight
  | GenesisBlockRequired
  | ChainTransaction tx_error
  | ChainOther string
  | ChainCommitted committed_error
  | Stopped
  | BitmapErr
  | InvalidSortAlgo
  | ThereIsNotPolicy
  | PolicyIsNotAllowed
  | InvalidSeed

fun is_bad_data :: "chain_error \<Rightarrow> bool" where
  "is_bad_data (Unfit _) = False"
| "is_bad_data Orphan = False"
| "is_bad_data (StoreErr _ _) = False"
| "is_bad_data (ChainSerErr _) = False"
| "is_bad_data (TxHashSetErr _) = False"
| "is_bad_data GenesisBlockRequired = False"
| "is_bad_data (ChainOther _) = False"
| "is_bad_data _ = True"

record tip =
  tip_height :: u64
  last_block_h :: hash
  prev_block_h :: hash
  tip_total_difficulty :: difficulty

definition tip_from_header :: "chain_types \<Rightarrow> (u8 list \<Rightarrow> hash) \<Rightarrow> block_header \<Rightarrow> tip" where
  "tip_from_header ct digest h = \<lparr>tip_height = h_height h, last_block_h = header_hash ct digest h, prev_block_h = prev_hash h,
     tip_total_difficulty = total_difficulty (h_pow h)\<rparr>"

definition write_tip :: "tip \<Rightarrow> u8 list" where
  "write_tip t = write_u64 (tip_height t) @ write_hash (last_block_h t) @ write_hash (prev_block_h t) @ write_difficulty (tip_total_difficulty t)"

definition read_tip :: "tip read" where
  "read_tip = read_bind read_u64 (\<lambda>h. read_bind read_hash (\<lambda>l. read_bind read_hash (\<lambda>p. read_bind read_difficulty (\<lambda>d.
     read_ok \<lparr>tip_height = h, last_block_h = l, prev_block_h = p, tip_total_difficulty = d\<rparr>))))"

record 'bm chain_store =
  cs_head :: "tip option"
  cs_tail :: "tip option"
  cs_header_head :: "tip option"
  cs_sync_head :: "tip option"
  cs_headers :: "hash \<Rightarrow> block_header option"
  cs_blocks :: "hash \<Rightarrow> block option"
  cs_output_pos :: "commitment \<Rightarrow> u64 option"
  cs_input_bitmap :: "hash \<Rightarrow> 'bm option"
  cs_block_sums :: "hash \<Rightarrow> block_sums option"

definition option_to_not_found :: "string \<Rightarrow> 'a option \<Rightarrow> store_error + 'a" where
  "option_to_not_found field_name res = (case res of None \<Rightarrow> Inl (NotFoundErr field_name) | Some x \<Rightarrow> Inr x)"

text \<open>The conversion by \<open>?\<close> of an error of the store.\<close>

definition of_store :: "store_error + 'a \<Rightarrow> chain_error + 'a" where
  "of_store r = map_err (\<lambda>e. StoreErr e ''store error'') r"

definition get_head :: "'bm chain_store \<Rightarrow> store_error + tip" where
  "get_head s = option_to_not_found ''HEAD'' (cs_head s)"

definition get_header_head :: "'bm chain_store \<Rightarrow> store_error + tip" where
  "get_header_head s = option_to_not_found ''HEADER_HEAD'' (cs_header_head s)"

definition get_sync_head :: "'bm chain_store \<Rightarrow> store_error + tip" where
  "get_sync_head s = option_to_not_found ''SYNC_HEAD'' (cs_sync_head s)"

definition get_block :: "'bm chain_store \<Rightarrow> hash \<Rightarrow> store_error + block" where
  "get_block s h = option_to_not_found ''BLOCK'' (cs_blocks s h)"

definition get_block_header :: "'bm chain_store \<Rightarrow> hash \<Rightarrow> store_error + block_header" where
  "get_block_header s h = option_to_not_found ''BLOCK HEADER'' (cs_headers s h)"

definition get_previous_header :: "'bm chain_store \<Rightarrow> block_header \<Rightarrow> store_error + block_header" where
  "get_previous_header s h = get_block_header s (prev_hash h)"

definition head_header :: "'bm chain_store \<Rightarrow> store_error + block_header" where
  "head_header s = bind_res (get_head s) (\<lambda>t. get_block_header s (last_block_h t))"

definition get_output_pos :: "'bm chain_store \<Rightarrow> commitment \<Rightarrow> store_error + u64" where
  "get_output_pos s c = option_to_not_found ''Output position'' (cs_output_pos s c)"

definition get_block_sums :: "'bm chain_store \<Rightarrow> hash \<Rightarrow> store_error + block_sums" where
  "get_block_sums s h = option_to_not_found ''Block sums'' (cs_block_sums s h)"

definition save_head :: "'bm chain_store \<Rightarrow> tip \<Rightarrow> 'bm chain_store" where
  "save_head s t = s\<lparr>cs_head := Some t, cs_header_head := Some t\<rparr>"

definition reset_sync_head :: "'bm chain_store \<Rightarrow> store_error + 'bm chain_store" where
  "reset_sync_head s = bind_res (get_header_head s) (\<lambda>t. Inr (s\<lparr>cs_sync_head := Some t\<rparr>))"

definition reset_header_head :: "'bm chain_store \<Rightarrow> store_error + 'bm chain_store" where
  "reset_header_head s = bind_res (get_head s) (\<lambda>t. Inr (s\<lparr>cs_header_head := Some t\<rparr>))"

definition save_block_header :: "chain_types \<Rightarrow> (u8 list \<Rightarrow> hash) \<Rightarrow> 'bm chain_store \<Rightarrow> block_header \<Rightarrow> 'bm chain_store" where
  "save_block_header ct digest s h = s\<lparr>cs_headers := (cs_headers s)(header_hash ct digest h \<mapsto> h)\<rparr>"

definition save_output_pos :: "'bm chain_store \<Rightarrow> commitment \<Rightarrow> u64 \<Rightarrow> 'bm chain_store" where
  "save_output_pos s c pos = s\<lparr>cs_output_pos := (cs_output_pos s)(c \<mapsto> pos)\<rparr>"

definition clear_output_pos :: "'bm chain_store \<Rightarrow> 'bm chain_store" where
  "clear_output_pos s = s\<lparr>cs_output_pos := Map.empty\<rparr>"

definition build_block_input_bitmap :: "'bm bitmap_ops \<Rightarrow> 'bm chain_store \<Rightarrow> block \<Rightarrow> 'bm" where
  "build_block_input_bitmap K s b = bm_collect K (map as_u32 (List.map_filter (\<lambda>x. cs_output_pos s (i_commit x)) (inputs (b_body b))))"

definition build_and_store_block_input_bitmap :: "chain_types \<Rightarrow> (u8 list \<Rightarrow> hash) \<Rightarrow> 'bm bitmap_ops \<Rightarrow> 'bm chain_store \<Rightarrow> block \<Rightarrow>
    'bm \<times> 'bm chain_store" where
  "build_and_store_block_input_bitmap ct digest K s b =
     (let bitmap = build_block_input_bitmap K s b
      in (bitmap, s\<lparr>cs_input_bitmap := (cs_input_bitmap s)(header_hash ct digest (b_header b) \<mapsto> bitmap)\<rparr>))"

definition save_block :: "chain_types \<Rightarrow> (u8 list \<Rightarrow> hash) \<Rightarrow> 'bm bitmap_ops \<Rightarrow> 'bm chain_store \<Rightarrow> block \<Rightarrow> 'bm chain_store" where
  "save_block ct digest K s b =
     (let s' = snd (build_and_store_block_input_bitmap ct digest K s b)
      in s'\<lparr>cs_blocks := (cs_blocks s')(header_hash ct digest (b_header b) \<mapsto> b)\<rparr>)"

definition delete_block :: "'bm chain_store \<Rightarrow> hash \<Rightarrow> 'bm chain_store" where
  "delete_block s h = s\<lparr>cs_blocks := (cs_blocks s)(h := None), cs_block_sums := (cs_block_sums s)(h := None),
     cs_input_bitmap := (cs_input_bitmap s)(h := None)\<rparr>"

definition get_block_input_bitmap :: "chain_types \<Rightarrow> (u8 list \<Rightarrow> hash) \<Rightarrow> 'bm bitmap_ops \<Rightarrow> 'bm chain_store \<Rightarrow> hash \<Rightarrow>
    (store_error + 'bm) \<times> 'bm chain_store" where
  "get_block_input_bitmap ct digest K s h = (case cs_input_bitmap s h of
     Some bitmap \<Rightarrow> (Inr bitmap, s)
   | None \<Rightarrow> (case get_block s h of
       Inl e \<Rightarrow> (Inl e, s)
     | Inr b \<Rightarrow> let (bitmap, s') = build_and_store_block_input_bitmap ct digest K s b in (Inr bitmap, s')))"

subsection \<open>Iterators over the headers\<close>

abbreviation header_type :: "block_header \<Rightarrow> pow_type" where
  "header_type h \<equiv> pow_type_from (pow_proof (h_pow h))"

definition i64_sat_sub :: "i64 \<Rightarrow> i64 \<Rightarrow> i64" where
  "i64_sat_sub a b = max (- 9223372036854775808) (min 9223372036854775807 (a - b))"

text \<open>The inner loop of \<open>DifficultyIter::next\<close>: back to the next header of the same algorithm. The first
  predecessor gives the difficulty and the time span. \<open>None\<close>: the loop does not end.\<close>

partial_function (option) difficulty_search :: "'bm chain_store \<Rightarrow> block_header \<Rightarrow> block_header \<Rightarrow> bool \<Rightarrow> difficulty \<Rightarrow> i64 \<Rightarrow>
    (block_header option \<times> difficulty \<times> i64 \<times> u32) option" where
  "difficulty_search s header head first_time prev_difficulty prev_timespan =
     (case get_previous_header s head of
        Inr prev \<Rightarrow>
          let d = (if first_time then difficulty_sub (total_difficulty (h_pow header)) (total_difficulty (h_pow prev)) else prev_difficulty);
              ts = (if first_time then i64_sat_sub (h_timestamp header) (h_timestamp prev) else prev_timespan)
          in if header_type header = header_type prev then Some (Some prev, d, ts, secondary_scaling (h_pow head))
             else difficulty_search s header prev False d ts
      | Inl _ \<Rightarrow> Some (None, prev_difficulty, prev_timespan, secondary_scaling (h_pow head)))"

text \<open>The items of \<open>DifficultyIter\<close> from a header on.\<close>

partial_function (option) difficulty_items :: "'bm chain_store \<Rightarrow> block_header option \<Rightarrow> header_info list option" where
  "difficulty_items s start = (case start of
     None \<Rightarrow> Some []
   | Some header \<Rightarrow>
       Option.bind (difficulty_search s header header True (total_difficulty (h_pow header)) 60) (\<lambda>(prev, d, ts, scaling).
       Option.bind (difficulty_items s prev) (\<lambda>infos.
         Some (\<lparr>hi_timestamp = u64_of_i64 (h_timestamp header), hi_difficulty = d, hi_secondary_scaling = scaling,
           hi_is_secondary = is_secondary (h_pow header), hi_prev_timespan = u64_of_i64 ts\<rparr> # infos))))"

definition difficulty_iter :: "'bm chain_store \<Rightarrow> hash \<Rightarrow> header_info list option" where
  "difficulty_iter s start = difficulty_items s (cs_headers s start)"

text \<open>\<open>BottleIter::next\<close>: the search for the predecessor under the same policy gives up after 200 steps.\<close>

fun bottle_search :: "nat \<Rightarrow> 'bm chain_store \<Rightarrow> u8 \<Rightarrow> block_header \<Rightarrow> block_header option option" where
  "bottle_search 0 s pol head = None"
| "bottle_search (Suc i) s pol head = (case get_previous_header s head of
     Inr prev \<Rightarrow> if pol = h_policy prev then Some (Some prev) else bottle_search i s pol prev
   | Inl _ \<Rightarrow> Some None)"

definition bottle_next :: "'bm chain_store \<Rightarrow> u8 \<Rightarrow> block_header option \<Rightarrow> (policy \<times> block_header option) option" where
  "bottle_next s pol h = (case h of
     None \<Rightarrow> None
   | Some header \<Rightarrow> (case bottle_search 200 s pol header of
       None \<Rightarrow> None
     | Some prev \<Rightarrow>
         if h_policy header = pol then Some (bottles header, prev)
         else map_option (\<lambda>p. (bottles p, prev)) prev))"

section \<open>The iterator over the difficulties ends\<close>

text \<open>Every header is higher than the one it names as its predecessor.\<close>

definition descending :: "'bm chain_store \<Rightarrow> bool" where
  "descending s \<longleftrightarrow> (\<forall>k h p. cs_headers s k = Some h \<and> cs_headers s (prev_hash h) = Some p \<longrightarrow> h_height p < h_height h)"

text \<open>The headers from one back to the last that is known, at most \<open>n\<close> of them, and what each of them added to the total difficulty.\<close>

primrec chain_back :: "'bm chain_store \<Rightarrow> nat \<Rightarrow> block_header \<Rightarrow> block_header list" where
  "chain_back s 0 h = []"
| "chain_back s (Suc n) h = h # (case cs_headers s (prev_hash h) of None \<Rightarrow> [] | Some p \<Rightarrow> chain_back s n p)"

definition added_difficulty :: "'bm chain_store \<Rightarrow> block_header \<Rightarrow> difficulty" where
  "added_difficulty s h = (case cs_headers s (prev_hash h) of None \<Rightarrow> total_difficulty (h_pow h)
     | Some p \<Rightarrow> difficulty_sub (total_difficulty (h_pow h)) (total_difficulty (h_pow p)))"

definition ancestors :: "'bm chain_store \<Rightarrow> block_header \<Rightarrow> block_header list" where
  "ancestors s h = chain_back s (Suc (h_height h)) h"

lemma chain_back_more:
  assumes "descending s" and "cs_headers s k = Some h" and "h_height h < n" and "h_height h < m"
  shows "chain_back s n h = chain_back s m h"
  using assms(2-4)
proof (induction n arbitrary: k h m)
  case (Suc n)
  obtain j where j: "m = Suc j" using Suc.prems(3) by (cases m) auto
  show ?case
  proof (cases "cs_headers s (prev_hash h)")
    case (Some p)
    then have "h_height p < h_height h" using assms(1) Suc.prems(1) by (auto simp: descending_def)
    then show ?thesis using Suc.IH [OF Some, of j] Suc.prems Some j by simp
  qed (simp add: j)
qed simp

lemma ancestors_tl:
  assumes "descending s" and "cs_headers s k = Some h"
  shows "tl (ancestors s h) = (case cs_headers s (prev_hash h) of None \<Rightarrow> [] | Some p \<Rightarrow> ancestors s p)"
proof (cases "cs_headers s (prev_hash h)")
  case (Some p)
  then have "h_height p < h_height h" using assms by (auto simp: descending_def)
  then show ?thesis using chain_back_more [OF assms(1) Some, of "h_height h" "Suc (h_height p)"] Some by (simp add: ancestors_def)
qed (simp add: ancestors_def)

lemma ancestors_Cons: "ancestors s h = h # tl (ancestors s h)"
  by (simp add: ancestors_def)

lemma find_None_filter: "find Q xs = None \<Longrightarrow> filter Q xs = []"
  by (induction xs) (auto split: if_splits)

lemma find_ancestor:
  assumes d: "descending s" and k: "cs_headers s k = Some h"
  shows "find Q (tl (ancestors s h)) = Some p \<Longrightarrow>
      (\<exists>k. cs_headers s k = Some p) \<and> h_height p < h_height h \<and> filter Q (tl (ancestors s h)) = filter Q (ancestors s p) \<and> Q p"
    and "find Q (tl (ancestors s h)) = None \<Longrightarrow> filter Q (tl (ancestors s h)) = []"
proof -
  show "find Q (tl (ancestors s h)) = None \<Longrightarrow> filter Q (tl (ancestors s h)) = []" by (rule find_None_filter)
  show "find Q (tl (ancestors s h)) = Some p \<Longrightarrow>
      (\<exists>k. cs_headers s k = Some p) \<and> h_height p < h_height h \<and> filter Q (tl (ancestors s h)) = filter Q (ancestors s p) \<and> Q p"
    using k
  proof (induction "h_height h" arbitrary: h k rule: less_induct)
    case less
    show ?case
    proof (cases "cs_headers s (prev_hash h)")
      case None
      then show ?thesis using less.prems ancestors_tl [OF d less.prems(2)] by simp
    next
      case (Some q)
      then have lt: "h_height q < h_height h" using d less.prems(2) by (auto simp: descending_def)
      have tl: "tl (ancestors s h) = ancestors s q" using ancestors_tl [OF d less.prems(2)] Some by simp
      show ?thesis
      proof (cases "Q q")
        case True
        have "find Q (q # tl (ancestors s q)) = Some p" using less.prems(1) unfolding tl ancestors_Cons [of s q, symmetric] .
        then have "p = q" using True by simp
        then show ?thesis using True tl lt Some by auto
      next
        case False
        then have f: "find Q (tl (ancestors s h)) = find Q (tl (ancestors s q))" "filter Q (tl (ancestors s h)) = filter Q (tl (ancestors s q))"
          unfolding tl by (subst ancestors_Cons, simp)+
        show ?thesis using less.hyps [OF lt _ Some] less.prems(1) lt unfolding f by auto
      qed
    qed
  qed
qed

lemma difficulty_search_ends:
  assumes d: "descending s" and k: "cs_headers s k = Some head"
  shows "\<exists>d' ts' sc. difficulty_search s header head first d ts =
      Some (find (\<lambda>q. header_type header = header_type q) (tl (ancestors s head)), d', ts', sc) \<and>
    d' = (case cs_headers s (prev_hash head) of
        Some p \<Rightarrow> if first then difficulty_sub (total_difficulty (h_pow header)) (total_difficulty (h_pow p)) else d | None \<Rightarrow> d)"
  using k
proof (induction "h_height head" arbitrary: head k first d ts rule: less_induct)
  case less
  note un = difficulty_search.simps [of s header head first d ts]
  show ?case
  proof (cases "cs_headers s (prev_hash head)")
    case None
    then show ?thesis using ancestors_tl [OF d less.prems] un by (simp add: get_previous_header_def get_block_header_def option_to_not_found_def)
  next
    case (Some q)
    then have lt: "h_height q < h_height head" using d less.prems by (auto simp: descending_def)
    have tl: "tl (ancestors s head) = q # tl (ancestors s q)" using ancestors_tl [OF d less.prems] Some ancestors_Cons [of s q] by simp
    let ?d = "if first then difficulty_sub (total_difficulty (h_pow header)) (total_difficulty (h_pow q)) else d"
    let ?ts = "if first then i64_sat_sub (h_timestamp header) (h_timestamp q) else ts"
    have run: "difficulty_search s header head first d ts = (if header_type header = header_type q
        then Some (Some q, ?d, ?ts, secondary_scaling (h_pow head)) else difficulty_search s header q False ?d ?ts)"
      using un Some by (simp add: get_previous_header_def get_block_header_def option_to_not_found_def Let_def)
    show ?thesis
    proof (cases "header_type header = header_type q")
      case False
      obtain d' ts' sc where "difficulty_search s header q False ?d ?ts = Some (find (\<lambda>q. header_type header = header_type q) (tl (ancestors s q)), d', ts', sc)"
          "d' = (case cs_headers s (prev_hash q) of Some p \<Rightarrow> if False then difficulty_sub (total_difficulty (h_pow header)) (total_difficulty (h_pow p)) else ?d | None \<Rightarrow> ?d)"
        using less.hyps [OF lt Some, of False ?d ?ts] by blast
      then show ?thesis using run False Some unfolding tl by (auto split: option.splits)
    qed (use run Some tl in simp)
  qed
qed

text \<open>C4: the iterator over the difficulties ends. In a database in which every header is higher than its predecessor,
  the iterator that feeds the difficulty adjustment reaches its end, from every starting point; it visits exactly the headers
  of the algorithm of the one it starts from, newest first, and gives each with the difficulty it added to its direct
  predecessor, whichever algorithm that one has.\<close>

theorem difficulty_iter_ends:
  assumes "descending s" and "cs_headers s start = Some h"
  shows "\<exists>infos. difficulty_iter s start = Some infos \<and>
    map (\<lambda>i. (hi_timestamp i, hi_difficulty i)) infos =
      map (\<lambda>q. (u64_of_i64 (h_timestamp q), added_difficulty s q)) (filter (\<lambda>q. header_type h = header_type q) (ancestors s h))"
proof -
  have "\<exists>infos. difficulty_items s (Some h) = Some infos \<and>
      map (\<lambda>i. (hi_timestamp i, hi_difficulty i)) infos =
        map (\<lambda>q. (u64_of_i64 (h_timestamp q), added_difficulty s q)) (filter (\<lambda>q. header_type h = header_type q) (ancestors s h))"
    using assms(2)
  proof (induction "h_height h" arbitrary: h start rule: less_induct)
    case less
    let ?Q = "\<lambda>q. header_type h = header_type q"
    obtain d' ts' sc where r: "difficulty_search s h h True (total_difficulty (h_pow h)) 60 = Some (find ?Q (tl (ancestors s h)), d', ts', sc)"
        "d' = added_difficulty s h"
      using difficulty_search_ends [OF assms(1) less.prems, of h True "total_difficulty (h_pow h)" 60] unfolding added_difficulty_def
      by (auto split: option.splits)
    have run: "difficulty_items s (Some h) = Option.bind (difficulty_items s (find ?Q (tl (ancestors s h)))) (\<lambda>infos.
        Some (\<lparr>hi_timestamp = u64_of_i64 (h_timestamp h), hi_difficulty = added_difficulty s h, hi_secondary_scaling = sc,
          hi_is_secondary = is_secondary (h_pow h), hi_prev_timespan = u64_of_i64 ts'\<rparr> # infos))"
      using r by (subst difficulty_items.simps) simp
    have an: "filter ?Q (ancestors s h) = h # filter ?Q (tl (ancestors s h))" by (subst ancestors_Cons) simp
    show ?case
    proof (cases "find ?Q (tl (ancestors s h))")
      case None
      then have "filter ?Q (ancestors s h) = [h]" using find_ancestor(2) [OF assms(1) less.prems None] unfolding an by simp
      moreover have "difficulty_items s None = Some []" by (subst difficulty_items.simps) simp
      ultimately show ?thesis using run None by simp
    next
      case (Some p)
      then obtain k where k: "cs_headers s k = Some p" "h_height p < h_height h" "filter ?Q (tl (ancestors s h)) = filter ?Q (ancestors s p)" "header_type h = header_type p"
        using find_ancestor(1) [OF assms(1) less.prems Some] by blast
      obtain infos where "difficulty_items s (Some p) = Some infos" "map (\<lambda>i. (hi_timestamp i, hi_difficulty i)) infos =
          map (\<lambda>q. (u64_of_i64 (h_timestamp q), added_difficulty s q)) (filter (\<lambda>q. header_type p = header_type q) (ancestors s p))"
        using less.hyps [OF k(2,1)] by blast
      then show ?thesis using run Some k(4) unfolding an k(3) by simp
    qed
  qed
  then show ?thesis using assms(2) by (simp add: difficulty_iter_def)
qed

lemma hash_of_eq: "length a = 32 \<Longrightarrow> length b = 32 \<Longrightarrow> hash_of a = hash_of b \<longleftrightarrow> a = b"
  by (simp add: hash_of_inject)

definition two_headers :: "nat list chain_store" where
  "two_headers = \<lparr>cs_head = None, cs_tail = None, cs_header_head = None, cs_sync_head = None,
     cs_headers = [hash_of (replicate 32 1) \<mapsto> header_default Mainnet,
       hash_of (replicate 32 2) \<mapsto> (header_default Mainnet)\<lparr>h_height := 1, h_timestamp := 60, prev_hash := hash_of (replicate 32 1)\<rparr>],
     cs_blocks = Map.empty, cs_output_pos = Map.empty, cs_input_bitmap = Map.empty, cs_block_sums = Map.empty\<rparr>"

lemma two_headers_headers:
  "cs_headers two_headers (hash_of (replicate 32 2)) =
    Some ((header_default Mainnet)\<lparr>h_height := 1, h_timestamp := 60, prev_hash := hash_of (replicate 32 1)\<rparr>)"
  "cs_headers two_headers (hash_of (replicate 32 1)) = Some (header_default Mainnet)"
  "cs_headers two_headers ZERO_HASH = None"
  by (simp_all add: two_headers_def hash_of_eq ZERO_HASH_def)

lemma two_headers_descending: "descending two_headers"
  unfolding descending_def
proof (intro allI impI, elim conjE)
  fix k h p assume "cs_headers two_headers k = Some h" "cs_headers two_headers (prev_hash h) = Some p"
  moreover have "prev_hash (header_default Mainnet) = ZERO_HASH" "h_height (header_default Mainnet) = 0" by (simp_all add: header_default_def)
  ultimately show "h_height p < h_height h" using two_headers_headers by (auto simp: two_headers_def split: if_splits)
qed

theorem difficulty_iter_ends_witness:
  "\<exists>infos. difficulty_iter two_headers (hash_of (replicate 32 2)) = Some infos \<and> map hi_timestamp infos = [60, 0]"
proof -
  let ?h = "(header_default Mainnet)\<lparr>h_height := 1, h_timestamp := 60, prev_hash := hash_of (replicate 32 1)\<rparr>"
  have an: "ancestors two_headers ?h = [?h, header_default Mainnet]" using two_headers_headers by (simp add: ancestors_def header_default_def)
  obtain infos where i: "difficulty_iter two_headers (hash_of (replicate 32 2)) = Some infos"
      "map (\<lambda>i. (hi_timestamp i, hi_difficulty i)) infos = map (\<lambda>q. (u64_of_i64 (h_timestamp q), added_difficulty two_headers q))
        (filter (\<lambda>q. header_type ?h = header_type q) (ancestors two_headers ?h))"
    using difficulty_iter_ends [OF two_headers_descending two_headers_headers(1)] by blast
  have "map fst (map (\<lambda>i. (hi_timestamp i, hi_difficulty i)) infos) = [60, 0]"
    unfolding i(2) an by (simp add: header_default_def u64_of_i64_def)
  then show ?thesis using i(1) by (simp add: comp_def)
qed

end
