(* ===== verification/Txhashset.thy ===== *)
theory Txhashset
  imports Chain_Store
begin

text \<open>
  The set of Merkle mountain ranges of the chain and the units of work on it
  (\<open>chain/src/txhashset/txhashset.rs\<close>, \<open>utxo_view.rs\<close>, \<open>rewindable_kernel_view.rs\<close>). An operation takes
  the state and gives a result and the state it leaves behind, also when the result is an error: what an
  operation has changed before it fails is undone by the unit of work around it and by nothing else.
  \<open>None\<close> is a panic or a loop that does not end. Closures are operations on the extension.
\<close>

section \<open>Definitions\<close>

subsection \<open>Operations with a state\<close>

type_synonym ('s, 'a) op = "'s \<Rightarrow> ((chain_error + 'a) \<times> 's) option"

definition op_ok :: "'a \<Rightarrow> ('s, 'a) op" where
  "op_ok x = (\<lambda>s. Some (Inr x, s))"

definition op_bind :: "('s, 'a) op \<Rightarrow> ('a \<Rightarrow> ('s, 'b) op) \<Rightarrow> ('s, 'b) op" where
  "op_bind m f = (\<lambda>s. case m s of None \<Rightarrow> None | Some (Inl e, s') \<Rightarrow> Some (Inl e, s') | Some (Inr x, s') \<Rightarrow> f x s')"

text \<open>Reading the state, with the possibility of an error or a panic; changing it; the calls that report
  an error as a string.\<close>

definition op_read :: "('s \<Rightarrow> (chain_error + 'a) option) \<Rightarrow> ('s, 'a) op" where
  "op_read f = (\<lambda>s. map_option (\<lambda>r. (r, s)) (f s))"

definition op_set :: "('s \<Rightarrow> 's) \<Rightarrow> ('s, unit) op" where
  "op_set f = (\<lambda>s. Some (Inr (), f s))"

definition op_str :: "('s \<Rightarrow> string + 'a \<times> 's) \<Rightarrow> ('s, 'a) op" where
  "op_str f = (\<lambda>s. case f s of Inl e \<Rightarrow> Some (Inl (TxHashSetErr e), s) | Inr (x, s') \<Rightarrow> Some (Inr x, s'))"

primrec op_for :: "('x \<Rightarrow> ('s, unit) op) \<Rightarrow> 'x list \<Rightarrow> ('s, unit) op" where
  "op_for f [] = op_ok ()"
| "op_for f (x # xs) = op_bind (f x) (\<lambda>_. op_for f xs)"

subsection \<open>The ranges\<close>

text \<open>What the code takes from its surroundings: the network, the hash function, the bitmaps, the size of a
  range proof and the curve.\<close>

record 'bm env =
  ev_ct :: chain_types
  ev_digest :: "u8 list \<Rightarrow> hash"
  ev_K :: "'bm bitmap_ops"
  ev_mps :: usize
  ev_secp :: secp

abbreviation ev_hash :: "'bm env \<Rightarrow> block_header \<Rightarrow> hash" where
  "ev_hash E \<equiv> header_hash (ev_ct E) (ev_digest E)"

definition header_be :: "'bm env \<Rightarrow> ('bm pmmr_backend, block_header, header_entry, hash, 'bm) backend" where
  "header_be E = store_backend (ev_K E) write_header_entry read_header_entry (header_as_elmt (ev_ct E) (ev_digest E))"

definition output_be :: "'bm env \<Rightarrow> ('bm pmmr_backend, tx_output, output_identifier, hash, 'bm) backend" where
  "output_be E = store_backend (ev_K E) write_output_identifier read_output_identifier from_output"

definition rproof_be :: "'bm env \<Rightarrow> ('bm pmmr_backend, u8 list, u8 list, hash, 'bm) backend" where
  "rproof_be E = store_backend (ev_K E) write_range_proof (read_range_proof (ev_mps E)) (\<lambda>p. p)"

definition kernel_be :: "'bm env \<Rightarrow> ('bm pmmr_backend, tx_kernel, tx_kernel_entry, hash, 'bm) backend" where
  "kernel_be E = store_backend (ev_K E) write_kernel_entry read_kernel_entry from_kernel"

definition header_leaf :: "'bm env \<Rightarrow> block_header \<Rightarrow> u64 \<Rightarrow> hash" where
  "header_leaf E h index = header_hash_with_index (ev_ct E) (ev_digest E) h index"

definition output_leaf :: "'bm env \<Rightarrow> tx_output \<Rightarrow> u64 \<Rightarrow> hash" where
  "output_leaf E out index = hash_with_index (ev_digest E) (write_output Hash) index out"

definition rproof_leaf :: "'bm env \<Rightarrow> u8 list \<Rightarrow> u64 \<Rightarrow> hash" where
  "rproof_leaf E p index = hash_with_index (ev_digest E) write_range_proof index p"

definition kernel_leaf :: "'bm env \<Rightarrow> tx_kernel \<Rightarrow> u64 \<Rightarrow> hash" where
  "kernel_leaf E k index = hash_with_index (ev_digest E) write_kernel index k"

definition parent_hash :: "'bm env \<Rightarrow> hash \<times> hash \<Rightarrow> u64 \<Rightarrow> hash" where
  "parent_hash E = (\<lambda>(x, y) index. pair_hash_with_index (ev_digest E) index x y)"

record 'bm txhashset =
  header_pmmr_h :: "'bm pmmr_handle"
  sync_pmmr_h :: "'bm pmmr_handle"
  output_pmmr_h :: "'bm pmmr_handle"
  rproof_pmmr_h :: "'bm pmmr_handle"
  kernel_pmmr_h :: "'bm pmmr_handle"

abbreviation handle_pmmr :: "'bm pmmr_handle \<Rightarrow> 'bm pmmr_backend pmmr" where
  "handle_pmmr h \<equiv> \<lparr>last_pos = ph_last_pos h, pm_backend = ph_backend h\<rparr>"

definition is_unspent :: "'bm env \<Rightarrow> 'bm txhashset \<Rightarrow> 'bm chain_store \<Rightarrow> output_identifier \<Rightarrow> chain_error + hash \<times> u64" where
  "is_unspent E trees s output_id = (case get_output_pos s (oi_commit output_id) of
     Inr pos \<Rightarrow> (case pmmr_get_hash (output_be E) (handle_pmmr (output_pmmr_h trees)) pos of
         Some hash \<Rightarrow> if hash = hash_with_index (ev_digest E) write_output_identifier (u64_sub pos 1) output_id then Inr (hash, pos)
           else Inl (TxHashSetErr ''txhashset hash mismatch'')
       | None \<Rightarrow> Inl OutputNotFound)
   | Inl (NotFoundErr _) \<Rightarrow> Inl OutputNotFound)"

definition get_header_hash_by_height :: "'bm env \<Rightarrow> 'bm txhashset \<Rightarrow> u64 \<Rightarrow> chain_error + hash" where
  "get_header_hash_by_height E trees height =
     (case pmmr_get_data (header_be E) (handle_pmmr (header_pmmr_h trees)) (insertion_to_pmmr_index (u64_add height 1)) of
        Some entry \<Rightarrow> Inr (he_hash entry)
      | None \<Rightarrow> Inl (ChainOther ''get header hash by height''))"

text \<open>The header at a height through the header range and the database, as extensions and views find it.\<close>

definition header_at :: "'bm env \<Rightarrow> 'bm pmmr_backend pmmr \<Rightarrow> 'bm chain_store \<Rightarrow> u64 \<Rightarrow> chain_error + block_header" where
  "header_at E p s height = (case pmmr_get_data (header_be E) p (insertion_to_pmmr_index (u64_add height 1)) of
     Some entry \<Rightarrow> of_store (get_block_header s (he_hash entry))
   | None \<Rightarrow> Inl (ChainOther ''get header by height''))"

definition is_on_current_chain :: "'bm env \<Rightarrow> 'bm pmmr_backend pmmr \<Rightarrow> 'bm chain_store \<Rightarrow> block_header \<Rightarrow> chain_error + unit" where
  "is_on_current_chain E p s header = bind_res (header_at E p s (h_height header)) (\<lambda>chain_header.
     if ev_hash E chain_header = ev_hash E header then Inr () else Inl (ChainOther ''not on current chain''))"

text \<open>\<open>input_pos_to_rewind\<close>: the closure \<open>bitmap_fast_or\<close> gathers the bitmaps and merges every 256 of them;
  the loop goes back from the head.\<close>

definition bitmap_fast_or :: "'bm bitmap_ops \<Rightarrow> 'bm option \<Rightarrow> 'bm list \<Rightarrow> 'bm option \<times> 'bm list" where
  "bitmap_fast_or K b_res block_input_bitmaps =
     (let bitmaps = (case b_res of Some b \<Rightarrow> block_input_bitmaps @ [b] | None \<Rightarrow> block_input_bitmaps)
      in if b_res \<noteq> None \<and> length bitmaps < 256 then (None, bitmaps)
         else let bitmap = foldr (bm_or K) bitmaps (bm_create K) in (Some bitmap, [bitmap]))"

partial_function (option) input_bitmaps :: "'bm env \<Rightarrow> block_header \<Rightarrow> block_header \<Rightarrow> 'bm list \<Rightarrow> 'bm chain_store \<Rightarrow>
    ((chain_error + 'bm list) \<times> 'bm chain_store) option" where
  "input_bitmaps E block_header current bitmaps s =
     (if ev_hash E current = ev_hash E block_header \<or> h_height current < 1 then Some (Inr bitmaps, s)
      else let (r, s') = get_block_input_bitmap (ev_ct E) (ev_digest E) (ev_K E) s (ev_hash E current);
               bitmaps' = (case r of Inr b \<Rightarrow> snd (bitmap_fast_or (ev_K E) (Some b) bitmaps) | Inl _ \<Rightarrow> bitmaps)
        in case of_store (get_previous_header s' current) of
             Inl e \<Rightarrow> Some (Inl e, s')
           | Inr previous \<Rightarrow> input_bitmaps E block_header previous bitmaps' s')"

definition input_pos_to_rewind :: "'bm env \<Rightarrow> block_header \<Rightarrow> block_header \<Rightarrow> ('bm chain_store, 'bm) op" where
  "input_pos_to_rewind E block_header current_head s =
     (if h_height current_head < h_height block_header then Some (Inr (bm_create (ev_K E)), s)
      else map_option (\<lambda>(r, s'). (bind_res r (\<lambda>bitmaps. case fst (bitmap_fast_or (ev_K E) None bitmaps) of
          None \<Rightarrow> Inl BitmapErr | Some b \<Rightarrow> Inr b), s')) (input_bitmaps E block_header current_head [] s))"

subsection \<open>Header extensions\<close>

record 'bm header_extension =
  hx_header :: block_header
  hx_pmmr :: "'bm pmmr_backend pmmr"
  hx_rollback :: bool
  hx_batch :: "'bm chain_store"

definition hx_root :: "'bm env \<Rightarrow> 'bm header_extension \<Rightarrow> hash option" where
  "hx_root E x = pmmr_root (header_be E) (parent_hash E) ZERO_HASH (hx_pmmr x)"

definition hx_apply_header :: "'bm env \<Rightarrow> block_header \<Rightarrow> ('bm header_extension, hash) op" where
  "hx_apply_header E header =
     op_bind (op_str (\<lambda>x. bind_res (pmmr_push (header_be E) (header_leaf E) (parent_hash E) (hx_pmmr x) header)
         (\<lambda>(_, p). Inr ((), x\<lparr>hx_pmmr := p\<rparr>)))) (\<lambda>_.
     op_bind (op_set (\<lambda>x. x\<lparr>hx_header := header\<rparr>)) (\<lambda>_.
     op_read (\<lambda>x. map_option Inr (hx_root E x))))"

definition hx_rewind :: "'bm env \<Rightarrow> block_header \<Rightarrow> ('bm header_extension, unit) op" where
  "hx_rewind E header =
     op_bind (op_str (\<lambda>x. bind_res (pmmr_rewind (header_be E) (hx_pmmr x) (insertion_to_pmmr_index (u64_add (h_height header) 1)) (bm_create (ev_K E)))
         (\<lambda>p. Inr ((), x\<lparr>hx_pmmr := p\<rparr>)))) (\<lambda>_.
     op_set (\<lambda>x. x\<lparr>hx_header := header\<rparr>))"

definition hx_truncate :: "'bm env \<Rightarrow> ('bm header_extension, unit) op" where
  "hx_truncate E = op_str (\<lambda>x. bind_res (pmmr_truncate (header_be E) (bm_create (ev_K E)) (hx_pmmr x)) (\<lambda>p. Inr ((), x\<lparr>hx_pmmr := p\<rparr>)))"

definition hx_validate_root :: "'bm env \<Rightarrow> block_header \<Rightarrow> ('bm header_extension, unit) op" where
  "hx_validate_root E header = op_read (\<lambda>x.
     if h_height header = 0 then Some (Inr ())
     else map_option (\<lambda>root. if root \<noteq> prev_root header then Inl InvalidRoot else Inr ()) (hx_root E x))"

text \<open>\<open>rebuild\<close>: the hashes of all headers from the head back to, and without, the genesis, and the headers
  applied again from the genesis on.\<close>

partial_function (option) header_hashes_back :: "'bm env \<Rightarrow> 'bm chain_store \<Rightarrow> block_header \<Rightarrow> hash list \<Rightarrow> (chain_error + hash list) option" where
  "header_hashes_back E s current header_hashes =
     (if h_height current > 0 then
        (case of_store (get_previous_header s current) of
           Inl e \<Rightarrow> Some (Inl e)
         | Inr previous \<Rightarrow> header_hashes_back E s previous (header_hashes @ [ev_hash E current]))
      else Some (Inr header_hashes))"

definition hx_rebuild :: "'bm env \<Rightarrow> tip \<Rightarrow> block_header \<Rightarrow> ('bm header_extension, unit) op" where
  "hx_rebuild E head genesis =
     op_bind (op_read (\<lambda>x. case of_store (get_block_header (hx_batch x) (last_block_h head)) of
         Inl e \<Rightarrow> Some (Inl e) | Inr current \<Rightarrow> header_hashes_back E (hx_batch x) current [])) (\<lambda>header_hashes.
     op_bind (hx_truncate E) (\<lambda>_.
     op_bind (hx_apply_header E genesis) (\<lambda>_.
     op_for (\<lambda>h. op_bind (op_read (\<lambda>x. Some (of_store (get_block_header (hx_batch x) h)))) (\<lambda>header.
         op_bind (hx_validate_root E header) (\<lambda>_.
         op_bind (hx_apply_header E header) (\<lambda>_. op_ok ())))) (rev header_hashes))))"

subsection \<open>Extensions\<close>

record 'bm extension =
  ext_header :: block_header
  header_pmmr :: "'bm pmmr_backend pmmr"
  output_pmmr :: "'bm pmmr_backend pmmr"
  rproof_pmmr :: "'bm pmmr_backend pmmr"
  kernel_pmmr :: "'bm pmmr_backend pmmr"
  ext_rollback :: bool
  ext_batch :: "'bm chain_store"

definition extension_new :: "'bm txhashset \<Rightarrow> 'bm chain_store \<Rightarrow> block_header \<Rightarrow> 'bm extension" where
  "extension_new trees s header = \<lparr>ext_header = header, header_pmmr = handle_pmmr (header_pmmr_h trees),
     output_pmmr = handle_pmmr (output_pmmr_h trees), rproof_pmmr = handle_pmmr (rproof_pmmr_h trees),
     kernel_pmmr = handle_pmmr (kernel_pmmr_h trees), ext_rollback = False, ext_batch = s\<rparr>"

definition apply_input :: "'bm env \<Rightarrow> tx_input \<Rightarrow> ('bm extension, unit) op" where
  "apply_input E inp x = (case get_output_pos (ext_batch x) (i_commit inp) of
     Inl _ \<Rightarrow> Some (Inl (AlreadySpent (i_commit inp)), x)
   | Inr pos \<Rightarrow>
       if (case pmmr_get_hash (output_be E) (output_pmmr x) pos of
             Some hash \<Rightarrow> hash \<noteq> hash_with_index (ev_digest E) write_input (u64_sub pos 1) inp | None \<Rightarrow> False)
       then Some (Inl (TxHashSetErr ''output pmmr hash mismatch''), x)
       else (case pmmr_prune (output_be E) (output_pmmr x) pos of
           None \<Rightarrow> None
         | Some (Inl e) \<Rightarrow> Some (Inl (TxHashSetErr e), x)
         | Some (Inr (False, p)) \<Rightarrow> Some (Inl (AlreadySpent (i_commit inp)), x\<lparr>output_pmmr := p\<rparr>)
         | Some (Inr (True, p)) \<Rightarrow> (case pmmr_prune (rproof_be E) (rproof_pmmr x) pos of
             None \<Rightarrow> None
           | Some (Inl e) \<Rightarrow> Some (Inl (TxHashSetErr e), x\<lparr>output_pmmr := p\<rparr>)
           | Some (Inr (_, q)) \<Rightarrow> Some (Inr (), x\<lparr>output_pmmr := p, rproof_pmmr := q\<rparr>))))"

definition apply_output :: "'bm env \<Rightarrow> tx_output \<Rightarrow> ('bm extension, u64) op" where
  "apply_output E out =
     op_bind (op_read (\<lambda>x. case get_output_pos (ext_batch x) (o_commit out) of
         Inr pos \<Rightarrow> (case pmmr_get_data (output_be E) (output_pmmr x) pos of
             Some out_mmr \<Rightarrow> Some (if oi_commit out_mmr = o_commit out then Inl (DuplicateCommitment (o_commit out)) else Inr ())
           | None \<Rightarrow> Some (Inr ()))
       | Inl _ \<Rightarrow> Some (Inr ()))) (\<lambda>_.
     op_bind (op_str (\<lambda>x. bind_res (pmmr_push (output_be E) (output_leaf E) (parent_hash E) (output_pmmr x) out)
         (\<lambda>(pos, p). Inr (pos, x\<lparr>output_pmmr := p\<rparr>)))) (\<lambda>output_pos.
     op_bind (op_str (\<lambda>x. bind_res (pmmr_push (rproof_be E) (rproof_leaf E) (parent_hash E) (rproof_pmmr x) (o_proof out))
         (\<lambda>(pos, p). Inr (pos, x\<lparr>rproof_pmmr := p\<rparr>)))) (\<lambda>rproof_pos.
     op_read (\<lambda>x. Some (
       if pmmr_unpruned_size (output_pmmr x) \<noteq> pmmr_unpruned_size (rproof_pmmr x) then Inl (ChainOther ''output vs rproof MMRs different sizes'')
       else if output_pos \<noteq> rproof_pos then Inl (ChainOther ''output vs rproof MMRs different pos'')
       else Inr output_pos)))))"

definition apply_kernel :: "'bm env \<Rightarrow> tx_kernel \<Rightarrow> ('bm extension, unit) op" where
  "apply_kernel E k = op_str (\<lambda>x. bind_res (pmmr_push (kernel_be E) (kernel_leaf E) (parent_hash E) (kernel_pmmr x) k)
     (\<lambda>(_, p). Inr ((), x\<lparr>kernel_pmmr := p\<rparr>)))"

definition apply_header :: "'bm env \<Rightarrow> block_header \<Rightarrow> ('bm extension, unit) op" where
  "apply_header E h = op_str (\<lambda>x. bind_res (pmmr_push (header_be E) (header_leaf E) (parent_hash E) (header_pmmr x) h)
     (\<lambda>(_, p). Inr ((), x\<lparr>header_pmmr := p\<rparr>)))"

definition apply_block :: "'bm env \<Rightarrow> block \<Rightarrow> ('bm extension, unit) op" where
  "apply_block E b =
     op_bind (apply_header E (b_header b)) (\<lambda>_.
     op_bind (op_for (\<lambda>out. op_bind (apply_output E out) (\<lambda>pos.
         op_set (\<lambda>x. x\<lparr>ext_batch := save_output_pos (ext_batch x) (o_commit out) pos\<rparr>))) (outputs (b_body b))) (\<lambda>_.
     op_bind (op_for (apply_input E) (inputs (b_body b))) (\<lambda>_.
     op_bind (op_for (apply_kernel E) (kernels (b_body b))) (\<lambda>_.
     op_set (\<lambda>x. x\<lparr>ext_header := b_header b\<rparr>)))))"

definition ext_merkle_proof :: "'bm env \<Rightarrow> output_identifier \<Rightarrow> 'bm extension \<Rightarrow> chain_error + hash merkle_proof" where
  "ext_merkle_proof E oi x = bind_res (of_store (get_output_pos (ext_batch x) (oi_commit oi))) (\<lambda>pos.
     map_err TxHashSetErr (pmmr_merkle_proof (output_be E) (parent_hash E) (output_pmmr x) pos))"

definition rewind_to_pos :: "'bm env \<Rightarrow> u64 \<Rightarrow> u64 \<Rightarrow> u64 \<Rightarrow> 'bm \<Rightarrow> ('bm extension, unit) op" where
  "rewind_to_pos E header_pos output_pos kernel_pos rewind_rm_pos =
     op_bind (op_str (\<lambda>x. bind_res (pmmr_rewind (header_be E) (header_pmmr x) header_pos (bm_create (ev_K E))) (\<lambda>p. Inr ((), x\<lparr>header_pmmr := p\<rparr>)))) (\<lambda>_.
     op_bind (op_str (\<lambda>x. bind_res (pmmr_rewind (output_be E) (output_pmmr x) output_pos rewind_rm_pos) (\<lambda>p. Inr ((), x\<lparr>output_pmmr := p\<rparr>)))) (\<lambda>_.
     op_bind (op_str (\<lambda>x. bind_res (pmmr_rewind (rproof_be E) (rproof_pmmr x) output_pos rewind_rm_pos) (\<lambda>p. Inr ((), x\<lparr>rproof_pmmr := p\<rparr>)))) (\<lambda>_.
     op_str (\<lambda>x. bind_res (pmmr_rewind (kernel_be E) (kernel_pmmr x) kernel_pos (bm_create (ev_K E))) (\<lambda>p. Inr ((), x\<lparr>kernel_pmmr := p\<rparr>))))))"

definition ext_rewind :: "'bm env \<Rightarrow> block_header \<Rightarrow> ('bm extension, unit) op" where
  "ext_rewind E header =
     op_bind (\<lambda>x. map_option (\<lambda>(r, s). (r, x\<lparr>ext_batch := s\<rparr>)) (input_pos_to_rewind E header (ext_header x) (ext_batch x))) (\<lambda>rewind_rm_pos.
     op_bind (rewind_to_pos E (insertion_to_pmmr_index (u64_add (h_height header) 1)) (output_mmr_size header) (kernel_mmr_size header) rewind_rm_pos) (\<lambda>_.
     op_set (\<lambda>x. x\<lparr>ext_header := header\<rparr>)))"

record txhashset_roots =
  r_header_root :: hash
  r_output_root :: hash
  r_rproof_root :: hash
  r_kernel_root :: hash

definition ext_roots :: "'bm env \<Rightarrow> 'bm extension \<Rightarrow> txhashset_roots option" where
  "ext_roots E x =
     Option.bind (pmmr_root (header_be E) (parent_hash E) ZERO_HASH (header_pmmr x)) (\<lambda>hr.
     Option.bind (pmmr_root (output_be E) (parent_hash E) ZERO_HASH (output_pmmr x)) (\<lambda>outr.
     Option.bind (pmmr_root (rproof_be E) (parent_hash E) ZERO_HASH (rproof_pmmr x)) (\<lambda>rpr.
     Option.bind (pmmr_root (kernel_be E) (parent_hash E) ZERO_HASH (kernel_pmmr x)) (\<lambda>kr.
       Some \<lparr>r_header_root = hr, r_output_root = outr, r_rproof_root = rpr, r_kernel_root = kr\<rparr>))))"

definition validate_roots :: "'bm env \<Rightarrow> ('bm extension, unit) op" where
  "validate_roots E = op_read (\<lambda>x.
     if h_height (ext_header x) = 0 then Some (Inr ())
     else map_option (\<lambda>roots.
         if r_output_root roots \<noteq> output_root (ext_header x) \<or> r_rproof_root roots \<noteq> range_proof_root (ext_header x) \<or>
           r_kernel_root roots \<noteq> kernel_root (ext_header x) then Inl InvalidRoot else Inr ()) (ext_roots E x))"

definition validate_header_root :: "'bm env \<Rightarrow> block_header \<Rightarrow> ('bm extension, unit) op" where
  "validate_header_root E header = op_read (\<lambda>x.
     if h_height header = 0 then Some (Inr ())
     else map_option (\<lambda>roots. if r_header_root roots \<noteq> prev_root header then Inl InvalidRoot else Inr ()) (ext_roots E x))"

definition validate_sizes :: "('bm extension, unit) op" where
  "validate_sizes = op_read (\<lambda>x. Some (
     if h_height (ext_header x) = 0 then Inr ()
     else if pmmr_unpruned_size (header_pmmr x) \<noteq> u64_sub (insertion_to_pmmr_index (u64_add (h_height (ext_header x)) 2)) 1 then Inl InvalidMMRSize
     else if pmmr_unpruned_size (output_pmmr x) \<noteq> output_mmr_size (ext_header x) then Inl InvalidMMRSize
     else if pmmr_unpruned_size (kernel_pmmr x) \<noteq> kernel_mmr_size (ext_header x) then Inl InvalidMMRSize
     else if pmmr_unpruned_size (output_pmmr x) \<noteq> pmmr_unpruned_size (rproof_pmmr x) then Inl InvalidMMRSize
     else Inr ()))"

definition validate_mmrs :: "'bm env \<Rightarrow> 'bm extension \<Rightarrow> chain_error + unit" where
  "validate_mmrs E x = map_err InvalidTxHashSet (
     bind_res (pmmr_validate (header_be E) (parent_hash E) (header_pmmr x)) (\<lambda>_.
     bind_res (pmmr_validate (output_be E) (parent_hash E) (output_pmmr x)) (\<lambda>_.
     bind_res (pmmr_validate (rproof_be E) (parent_hash E) (rproof_pmmr x)) (\<lambda>_.
     pmmr_validate (kernel_be E) (parent_hash E) (kernel_pmmr x)))))"

text \<open>The sums over the whole state, and the verification of everything in it.\<close>

definition ext_outputs_committed :: "'bm env \<Rightarrow> 'bm extension \<Rightarrow> commitment list option" where
  "ext_outputs_committed E x = map_option (List.map_filter (\<lambda>pos. map_option oi_commit (pmmr_get_data (output_be E) (output_pmmr x) pos)))
     (be_leaf_pos_iter (output_be E) (pm_backend (output_pmmr x)))"

definition ext_kernels_committed :: "'bm env \<Rightarrow> 'bm extension \<Rightarrow> commitment list" where
  "ext_kernels_committed E x = List.map_filter (\<lambda>n. map_option (\<lambda>e. excess (ke_kernel e)) (pmmr_get_data (kernel_be E) (kernel_pmmr x) n))
     (filter is_leaf [1..<pmmr_unpruned_size (kernel_pmmr x) + 1])"

definition validate_kernel_sums :: "'bm env \<Rightarrow> 'bm extension \<Rightarrow> (chain_error + commitment \<times> commitment) option" where
  "validate_kernel_sums E x = (case header_at E (header_pmmr x) (ext_batch x) 0 of
     Inl e \<Rightarrow> Some (Inl e)
   | Inr genesis \<Rightarrow>
       Option.bind (header_total_overage (ev_ct E) (ext_header x) (kernel_mmr_size genesis > 0)) (\<lambda>overage.
       Option.bind (ext_outputs_committed E x) (\<lambda>outs.
         map_option (map_err ChainCommitted) (verify_kernel_sums (ev_secp E)
           \<lparr>inputs_committed = [], outputs_committed = outs, kernels_committed = ext_kernels_committed E x\<rparr> overage
           (total_kernel_offset (ext_header x))))))"

fun verify_all_kernels :: "'bm env \<Rightarrow> 'bm extension \<Rightarrow> u64 list \<Rightarrow> chain_error + unit" where
  "verify_all_kernels E x [] = Inr ()"
| "verify_all_kernels E x (n # ns) =
     (if is_leaf n then (case pmmr_get_data (kernel_be E) (kernel_pmmr x) n of
          None \<Rightarrow> Inl TxKernelNotFound
        | Some e \<Rightarrow> bind_res (map_err ChainTransaction (kernel_verify (ev_secp E) (\<lambda>bs. hash_bytes (ev_digest E bs)) (ke_kernel e))) (\<lambda>_. verify_all_kernels E x ns))
      else verify_all_kernels E x ns)"

definition verify_kernel_signatures :: "'bm env \<Rightarrow> 'bm extension \<Rightarrow> chain_error + unit" where
  "verify_kernel_signatures E x = verify_all_kernels E x [1..<pmmr_unpruned_size (kernel_pmmr x) + 1]"

text \<open>Range proofs are verified a thousand at a time.\<close>

fun verify_proof_batches :: "'bm env \<Rightarrow> 'bm extension \<Rightarrow> commitment list \<Rightarrow> u8 list list \<Rightarrow> u64 list \<Rightarrow> chain_error + unit" where
  "verify_proof_batches E x commits proofs [] =
     (if length proofs > 0 then map_err ChainTransaction (batch_verify_proofs (ev_secp E) commits proofs) else Inr ())"
| "verify_proof_batches E x commits proofs (pos # rest) =
     (case pmmr_get_data (output_be E) (output_pmmr x) pos of
        None \<Rightarrow> Inl OutputNotFound
      | Some output \<Rightarrow> (case pmmr_get_data (rproof_be E) (rproof_pmmr x) pos of
          None \<Rightarrow> Inl RangeproofNotFound
        | Some proof \<Rightarrow>
            let commits' = commits @ [oi_commit output]; proofs' = proofs @ [proof]
            in if length proofs' \<ge> 1000
               then bind_res (map_err ChainTransaction (batch_verify_proofs (ev_secp E) commits' proofs')) (\<lambda>_. verify_proof_batches E x [] [] rest)
               else verify_proof_batches E x commits' proofs' rest))"

definition verify_rangeproofs :: "'bm env \<Rightarrow> 'bm extension \<Rightarrow> (chain_error + unit) option" where
  "verify_rangeproofs E x = map_option (verify_proof_batches E x [] []) (be_leaf_pos_iter (output_be E) (pm_backend (output_pmmr x)))"

definition ext_validate :: "'bm env \<Rightarrow> bool \<Rightarrow> ('bm extension, commitment \<times> commitment) op" where
  "ext_validate E fast_validation =
     op_bind (op_read (\<lambda>x. Some (validate_mmrs E x))) (\<lambda>_.
     op_bind (validate_roots E) (\<lambda>_.
     op_bind validate_sizes (\<lambda>_.
     op_read (\<lambda>x.
       if h_height (ext_header x) = 0 then Some (Inr (commit_to_zero_value, commit_to_zero_value))
       else Option.bind (validate_kernel_sums E x) (\<lambda>r. case r of
           Inl e \<Rightarrow> Some (Inl e)
         | Inr both \<Rightarrow>
             if fast_validation then Some (Inr both)
             else map_option (\<lambda>rp. bind_res rp (\<lambda>_. bind_res (verify_kernel_signatures E x) (\<lambda>_. Inr both))) (verify_rangeproofs E x))))))"

definition rebuild_index :: "'bm env \<Rightarrow> ('bm extension, unit) op" where
  "rebuild_index E x = map_option (\<lambda>positions.
     (Inr (), x\<lparr>ext_batch := fold (\<lambda>pos s. case pmmr_get_data (output_be E) (output_pmmr x) pos of
         Some out \<Rightarrow> save_output_pos s (oi_commit out) pos | None \<Rightarrow> s) positions (clear_output_pos (ext_batch x))\<rparr>))
     (be_leaf_pos_iter (output_be E) (pm_backend (output_pmmr x)))"

subsection \<open>Units of work\<close>

type_synonym 'bm chain_ctx = "'bm txhashset \<times> 'bm chain_store"

text \<open>What an extension leaves in the ranges it borrowed, and the sizes it reports.\<close>

definition give_back :: "'bm extension \<Rightarrow> 'bm txhashset \<Rightarrow> 'bm txhashset" where
  "give_back x t = t\<lparr>header_pmmr_h := (header_pmmr_h t)\<lparr>ph_backend := pm_backend (header_pmmr x)\<rparr>,
     output_pmmr_h := (output_pmmr_h t)\<lparr>ph_backend := pm_backend (output_pmmr x)\<rparr>,
     rproof_pmmr_h := (rproof_pmmr_h t)\<lparr>ph_backend := pm_backend (rproof_pmmr x)\<rparr>,
     kernel_pmmr_h := (kernel_pmmr_h t)\<lparr>ph_backend := pm_backend (kernel_pmmr x)\<rparr>\<rparr>"

definition handle_discard :: "'bm pmmr_handle \<Rightarrow> 'bm pmmr_handle" where
  "handle_discard h = h\<lparr>ph_backend := backend_discard (ph_backend h)\<rparr>"

definition discard_trees :: "'bm txhashset \<Rightarrow> 'bm txhashset" where
  "discard_trees t = t\<lparr>header_pmmr_h := handle_discard (header_pmmr_h t), output_pmmr_h := handle_discard (output_pmmr_h t),
     rproof_pmmr_h := handle_discard (rproof_pmmr_h t), kernel_pmmr_h := handle_discard (kernel_pmmr_h t)\<rparr>"

text \<open>Syncing one of the ranges, named by its field.\<close>

definition sync_handle :: "('bm txhashset \<Rightarrow> 'bm pmmr_handle) \<Rightarrow> (('bm pmmr_handle \<Rightarrow> 'bm pmmr_handle) \<Rightarrow> 'bm txhashset \<Rightarrow> 'bm txhashset) \<Rightarrow>
    ('bm chain_ctx, unit) op" where
  "sync_handle field field_update = (\<lambda>(t, s). case backend_sync (ph_backend (field t)) of
     None \<Rightarrow> None
   | Some (Inl _) \<Rightarrow> Some (Inl (TxHashSetErr ''io''), (t, s))
   | Some (Inr b) \<Rightarrow> Some (Inr (), (field_update (\<lambda>h. h\<lparr>ph_backend := b\<rparr>) t, s)))"

definition extending :: "('bm extension, 'a) op \<Rightarrow> ('bm chain_ctx, 'a) op" where
  "extending inner = (\<lambda>(trees, s).
     case of_store (head_header s) of
       Inl e \<Rightarrow> Some (Inl e, (trees, s))
     | Inr header \<Rightarrow> (case inner (extension_new trees s header) of
         None \<Rightarrow> None
       | Some (res, x) \<Rightarrow>
           let trees' = give_back x trees in
           (case res of
              Inl e \<Rightarrow> Some (Inl e, (discard_trees trees', s))
            | Inr r \<Rightarrow>
                if ext_rollback x then Some (Inr r, (discard_trees trees', s))
                else op_bind (sync_handle header_pmmr_h header_pmmr_h_update) (\<lambda>_.
                  op_bind (sync_handle output_pmmr_h output_pmmr_h_update) (\<lambda>_.
                  op_bind (sync_handle rproof_pmmr_h rproof_pmmr_h_update) (\<lambda>_.
                  op_bind (sync_handle kernel_pmmr_h kernel_pmmr_h_update) (\<lambda>_.
                  op_bind (op_set (\<lambda>(t, s). (t\<lparr>
                    header_pmmr_h := (header_pmmr_h t)\<lparr>ph_last_pos := last_pos (header_pmmr x)\<rparr>,
                    output_pmmr_h := (output_pmmr_h t)\<lparr>ph_last_pos := last_pos (output_pmmr x)\<rparr>,
                    rproof_pmmr_h := (rproof_pmmr_h t)\<lparr>ph_last_pos := last_pos (rproof_pmmr x)\<rparr>,
                    kernel_pmmr_h := (kernel_pmmr_h t)\<lparr>ph_last_pos := last_pos (kernel_pmmr x)\<rparr>\<rparr>, s))) (\<lambda>_.
                  op_ok r))))) (trees', ext_batch x))))"

text \<open>The read-only unit of work has a batch of its own, which is dropped.\<close>

definition extending_readonly :: "('bm extension, 'a) op \<Rightarrow> ('bm chain_ctx, 'a) op" where
  "extending_readonly inner = (\<lambda>(trees, s).
     case of_store (head_header s) of
       Inl e \<Rightarrow> Some (Inl e, (trees, s))
     | Inr header \<Rightarrow> map_option (\<lambda>(res, x). (res, (discard_trees (give_back x trees), s)))
         (inner ((extension_new trees s header)\<lparr>ext_rollback := True\<rparr>)))"

text \<open>The units of work on one header range, \<open>header_extending\<close> on the chain's and \<open>sync_extending\<close> on the one of the sync.\<close>

definition header_range_extending :: "('bm chain_store \<Rightarrow> store_error + tip) \<Rightarrow> ('bm txhashset \<Rightarrow> 'bm pmmr_handle) \<Rightarrow>
    (('bm pmmr_handle \<Rightarrow> 'bm pmmr_handle) \<Rightarrow> 'bm txhashset \<Rightarrow> 'bm txhashset) \<Rightarrow> ('bm header_extension, 'a) op \<Rightarrow> ('bm chain_ctx, 'a) op" where
  "header_range_extending head_of field field_update inner = (\<lambda>(trees, s).
     case of_store (bind_res (head_of s) (\<lambda>head. get_block_header s (last_block_h head))) of
       Inl e \<Rightarrow> Some (Inl e, (trees, s))
     | Inr header \<Rightarrow> (case inner \<lparr>hx_header = header, hx_pmmr = handle_pmmr (field trees), hx_rollback = False, hx_batch = s\<rparr> of
         None \<Rightarrow> None
       | Some (res, x) \<Rightarrow>
           let trees' = field_update (\<lambda>h. h\<lparr>ph_backend := pm_backend (hx_pmmr x)\<rparr>) trees in
           (case res of
              Inl e \<Rightarrow> Some (Inl e, (field_update handle_discard trees', s))
            | Inr r \<Rightarrow>
                if hx_rollback x then Some (Inr r, (field_update handle_discard trees', s))
                else op_bind (sync_handle field field_update) (\<lambda>_.
                  op_bind (op_set (\<lambda>(t, s). (field_update (\<lambda>h. h\<lparr>ph_last_pos := last_pos (hx_pmmr x)\<rparr>) t, s))) (\<lambda>_.
                  op_ok r)) (trees', hx_batch x))))"

definition header_extending :: "('bm header_extension, 'a) op \<Rightarrow> ('bm chain_ctx, 'a) op" where
  "header_extending = header_range_extending get_head header_pmmr_h header_pmmr_h_update"

definition sync_extending :: "('bm header_extension, 'a) op \<Rightarrow> ('bm chain_ctx, 'a) op" where
  "sync_extending = header_range_extending get_sync_head sync_pmmr_h sync_pmmr_h_update"

definition txhashset_compact :: "'bm env \<Rightarrow> ('bm chain_ctx, unit) op" where
  "txhashset_compact E = (\<lambda>(trees, s).
     case of_store (head_header s) of
       Inl e \<Rightarrow> Some (Inl e, (trees, s))
     | Inr hd_header \<Rightarrow>
         (case bind_res (get_header_hash_by_height E trees (u64_sat_sub (h_height hd_header) (cut_through_horizon (ev_ct E))))
             (\<lambda>h. of_store (get_block_header s h)) of
            Inl e \<Rightarrow> Some (Inl e, (trees, s))
          | Inr horizon_header \<Rightarrow> (case input_pos_to_rewind E horizon_header hd_header s of
              None \<Rightarrow> None
            | Some (Inl e, s') \<Rightarrow> Some (Inl e, (trees, s'))
            | Some (Inr rm, s') \<Rightarrow>
                Option.bind (check_compact (ev_K E) write_output_identifier read_output_identifier (ph_backend (output_pmmr_h trees))
                    (output_mmr_size horizon_header) rm) (\<lambda>ob.
                Option.bind (check_compact (ev_K E) write_range_proof (read_range_proof (ev_mps E)) (ph_backend (rproof_pmmr_h trees))
                    (output_mmr_size horizon_header) rm) (\<lambda>rb.
                  Some (Inr (), (trees\<lparr>output_pmmr_h := (output_pmmr_h trees)\<lparr>ph_backend := ob\<rparr>,
                    rproof_pmmr_h := (rproof_pmmr_h trees)\<lparr>ph_backend := rb\<rparr>\<rparr>, s')))))))"

subsection \<open>The view on the unspent outputs\<close>

definition utxo_validate_input :: "'bm env \<Rightarrow> tx_input \<Rightarrow> 'bm extension \<Rightarrow> chain_error + unit" where
  "utxo_validate_input E inp x =
     (if (case get_output_pos (ext_batch x) (i_commit inp) of
            Inr pos \<Rightarrow> pmmr_get_hash (output_be E) (output_pmmr x) pos = Some (hash_with_index (ev_digest E) write_input (u64_sub pos 1) inp)
          | Inl _ \<Rightarrow> False)
      then Inr () else Inl (AlreadySpent (i_commit inp)))"

definition utxo_validate_output :: "'bm env \<Rightarrow> tx_output \<Rightarrow> 'bm extension \<Rightarrow> chain_error + unit" where
  "utxo_validate_output E out x =
     (case get_output_pos (ext_batch x) (o_commit out) of
        Inr pos \<Rightarrow> (case pmmr_get_data (output_be E) (output_pmmr x) pos of
            Some out_mmr \<Rightarrow> if oi_commit out_mmr = o_commit out then Inl (DuplicateCommitment (o_commit out)) else Inr ()
          | None \<Rightarrow> Inr ())
      | Inl _ \<Rightarrow> Inr ())"

text \<open>\<open>validate_block\<close> and \<open>validate_tx\<close> on the body.\<close>

definition utxo_validate :: "'bm env \<Rightarrow> tx_body \<Rightarrow> ('bm extension, unit) op" where
  "utxo_validate E b =
     op_bind (op_for (\<lambda>out. op_read (\<lambda>x. Some (utxo_validate_output E out x))) (outputs b)) (\<lambda>_.
     op_for (\<lambda>inp. op_read (\<lambda>x. Some (utxo_validate_input E inp x))) (inputs b))"

definition verify_coinbase_maturity :: "'bm env \<Rightarrow> tx_input list \<Rightarrow> u64 \<Rightarrow> ('bm extension, unit) op" where
  "verify_coinbase_maturity E ins height = op_read (\<lambda>x.
     let pos = fold max (List.map_filter (\<lambda>i. cs_output_pos (ext_batch x) (i_commit i)) (filter (\<lambda>i. i_features i = CoinbaseOutput) ins)) 0
     in Some (
       if pos > 0 then
         (if height < coinbase_maturity (ev_ct E) then Inl ImmatureCoinbase
          else bind_res (header_at E (header_pmmr x) (ext_batch x) (height - coinbase_maturity (ev_ct E))) (\<lambda>cutoff_header.
            if pos > output_mmr_size cutoff_header then Inl ImmatureCoinbase else Inr ()))
       else Inr ()))"

subsection \<open>The view on the kernels\<close>

record 'bm kernel_view =
  kv_pmmr :: "'bm pmmr_backend pmmr"
  kv_header :: block_header

definition kv_rewind :: "block_header \<Rightarrow> 'bm kernel_view \<Rightarrow> 'bm kernel_view" where
  "kv_rewind header v = v\<lparr>kv_pmmr := (kv_pmmr v)\<lparr>last_pos := rewind_pos (kernel_mmr_size header)\<rparr>, kv_header := header\<rparr>"

definition kv_validate_root :: "'bm env \<Rightarrow> 'bm kernel_view \<Rightarrow> chain_error + unit" where
  "kv_validate_root E v = (case pmmr_root (kernel_be E) (parent_hash E) ZERO_HASH (kv_pmmr v) of
     None \<Rightarrow> Inl InvalidRoot
   | Some r \<Rightarrow> if r \<noteq> kernel_root (kv_header v) then Inl (InvalidTxHashSet ''Kernel root does not match'') else Inr ())"

section \<open>What a discard brings back\<close>

fun anchored :: "aof \<Rightarrow> bool" where
  "anchored (AppendOnlyFile (FixedSize n) f) \<longleftrightarrow> 0 < buffer_start_pos f \<or> 0 < buffer_start_pos_bak f"
| "anchored (AppendOnlyFile (VariableSize s) f) \<longleftrightarrow> anchored s \<and> (0 < buffer_start_pos f \<or> 0 < buffer_start_pos_bak f)"

lemma discard_rewind: "anchored f \<Longrightarrow> aof_discard (aof_rewind f pos) = aof_discard f \<and> anchored (aof_rewind f pos)"
  by (induction f pos rule: aof_rewind.induct) (auto simp: rewind_raw_def discard_raw_def Let_def)

lemma discard_append: "aof_append f bytes = Some (Inr f') \<Longrightarrow> aof_discard f' = aof_discard f \<and> anchored f' = anchored f"
proof (induction f bytes arbitrary: f' rule: aof_append.induct)
  case (2 s f bytes)
  then obtain o1 s' where s': "aof_append s (write_size_entry \<lparr>se_offset = o1, se_size = length bytes mod 65536\<rparr>) = Some (Inr s')"
      "f' = AppendOnlyFile (VariableSize s') (f\<lparr>buffer := buffer f @ bytes\<rparr>)"
    by (auto simp: io_bind_def split: option.splits sum.splits if_splits)
  moreover have "aof_discard s' = aof_discard s \<and> anchored s' = anchored s"
  proof (cases "size_info s")
    case (FixedSize n)
    then show ?thesis using s'(1) by (cases s) (auto simp: discard_raw_def Let_def)
  next
    case (VariableSize t)
    then show ?thesis using 2 s'(1) by (cases s) (auto simp: discard_raw_def Let_def io_bind_def split: option.splits sum.splits if_splits)
  qed
  ultimately show ?case by (simp add: discard_raw_def Let_def)
qed (auto simp: discard_raw_def Let_def)

definition anchored_backend :: "'bm pmmr_backend \<Rightarrow> bool" where
  "anchored_backend b \<longleftrightarrow> anchored (pb_hash_file b) \<and> anchored (pb_data_file b)"

text \<open>\<open>same_base b b'\<close>: discarding brings \<open>b'\<close> back to where discarding brings \<open>b\<close>, as long as something is on disk.\<close>

definition same_base :: "'bm pmmr_backend \<Rightarrow> 'bm pmmr_backend \<Rightarrow> bool" where
  "same_base b b' \<longleftrightarrow> (anchored_backend b \<longrightarrow> anchored_backend b' \<and> backend_discard b' = backend_discard b)"

lemma same_base_refl [simp]: "same_base b b"
  by (simp add: same_base_def)

lemma same_base_trans: "same_base b c \<Longrightarrow> same_base c d \<Longrightarrow> same_base b d"
  by (simp add: same_base_def)

lemma discard_append_hashes: "append_hashes f hs = Some (Inr f') \<Longrightarrow> aof_discard f' = aof_discard f \<and> anchored f' = anchored f"
proof (induction hs arbitrary: f)
  case (Cons h hs)
  then obtain g where "aof_append f (write_hash h) = Some (Inr g)" "append_hashes g hs = Some (Inr f')"
    by (auto simp: io_bind_def data_append_def split: option.splits sum.splits)
  then show ?case using Cons.IH discard_append by metis
qed simp

lemma same_base_append: "backend_append K put as_elmt b x hs = Some (Inr b') \<Longrightarrow> same_base b b'"
  unfolding backend_append_def data_append_def
  by (auto simp: same_base_def anchored_backend_def backend_discard_def leaf_set_discard_def leaf_set_add_def io_bind_def Let_def
      dest!: discard_append discard_append_hashes split: option.splits sum.splits if_splits prod.splits)

lemma same_base_rewind: "backend_rewind K b pos rm = Some (Inr b') \<Longrightarrow> same_base b b'"
  unfolding backend_rewind_def
  by (auto simp: same_base_def anchored_backend_def backend_discard_def leaf_set_discard_def leaf_set_rewind_def Let_def discard_rewind
      bind_eq_Some_conv split: if_splits)

lemma same_base_remove: "backend_remove K b pos = Some (Inr b') \<Longrightarrow> same_base b b'"
  by (auto simp: backend_remove_def same_base_def anchored_backend_def backend_discard_def leaf_set_discard_def leaf_set_remove_def split: if_splits)

lemma panic_err_Inr: "panic_err r = Inr x \<longleftrightarrow> r = Some (Inr x)"
  by (simp add: panic_err_def split: option.splits)

lemma same_base_push:
  assumes "pmmr_push (store_backend K put get as_elmt) hl hn p x = Inr (pos, q)"
  shows "same_base (pm_backend p) (pm_backend q)"
proof -
  obtain hs where "backend_append K put as_elmt (pm_backend p) x hs = Some (Inr (pm_backend q))"
    using assms by (auto simp: pmmr_push_def Let_def bind_res_Inr_iff store_backend_def panic_err_Inr split: prod.splits if_splits)
  then show ?thesis by (rule same_base_append)
qed

lemma same_base_pmmr_rewind:
  "pmmr_rewind (store_backend K put get as_elmt) p pos rm = Inr q \<Longrightarrow> same_base (pm_backend p) (pm_backend q)"
  by (auto simp: pmmr_rewind_def Let_def bind_res_Inr_iff store_backend_def panic_err_Inr dest: same_base_rewind)

lemma same_base_truncate:
  "pmmr_truncate (store_backend K put get as_elmt) e p = Inr q \<Longrightarrow> same_base (pm_backend p) (pm_backend q)"
  by (auto simp: pmmr_truncate_def bind_res_Inr_iff store_backend_def panic_err_Inr dest: same_base_rewind)

lemma same_base_prune:
  "pmmr_prune (store_backend K put get as_elmt) p pos = Some (Inr (r, q)) \<Longrightarrow> same_base (pm_backend p) (pm_backend q)"
  by (auto simp: pmmr_prune_def bind_res_Inr_iff store_backend_def dest: same_base_remove split: if_splits)

section \<open>Operations keep what is on disk\<close>

definition ext_base :: "'bm extension \<Rightarrow> 'bm extension \<Rightarrow> bool" where
  "ext_base x y \<longleftrightarrow>
     same_base (pm_backend (header_pmmr x)) (pm_backend (header_pmmr y)) \<and> same_base (pm_backend (output_pmmr x)) (pm_backend (output_pmmr y)) \<and>
     same_base (pm_backend (rproof_pmmr x)) (pm_backend (rproof_pmmr y)) \<and> same_base (pm_backend (kernel_pmmr x)) (pm_backend (kernel_pmmr y))"

lemma ext_base_refl: "ext_base x x"
  by (simp add: ext_base_def)

lemma ext_base_trans: "ext_base x y \<Longrightarrow> ext_base y z \<Longrightarrow> ext_base x z"
  unfolding ext_base_def by (auto intro: same_base_trans)

text \<open>\<open>op_keeps R m\<close>: the state before and after \<open>m\<close> are related by \<open>R\<close>, whether it fails or not. The rules
  of the locale derive it for an operation from its parts.\<close>

definition op_keeps :: "('s \<Rightarrow> 's \<Rightarrow> bool) \<Rightarrow> ('s, 'a) op \<Rightarrow> bool" where
  "op_keeps R m \<longleftrightarrow> (\<forall>x r y. m x = Some (r, y) \<longrightarrow> R x y)"

lemma op_bind_cases:
  assumes "op_bind m f x = Some (r, y)"
  obtains (err) e where "m x = Some (Inl e, y)" "r = Inl e" | (ok) v z where "m x = Some (Inr v, z)" "f v z = Some (r, y)"
  using assms by (auto simp: op_bind_def split: option.splits prod.splits sum.splits)

named_theorems keeps

locale kept =
  fixes R :: "'s \<Rightarrow> 's \<Rightarrow> bool"
  assumes kept_refl: "R x x" and kept_trans: "R x y \<Longrightarrow> R y z \<Longrightarrow> R x z"
begin

lemma keeps_ok: "op_keeps R (op_ok v)"
  by (simp add: op_keeps_def op_ok_def kept_refl)

lemma keeps_read: "op_keeps R (op_read f)"
  by (auto simp: op_keeps_def op_read_def kept_refl)

lemma keeps_bind:
  assumes m: "op_keeps R m" and f: "\<And>v. op_keeps R (f v)"
  shows "op_keeps R (op_bind m f)"
  unfolding op_keeps_def
proof (intro allI impI)
  fix x r y assume "op_bind m f x = Some (r, y)"
  then show "R x y"
  proof (cases rule: op_bind_cases)
    case err
    then show ?thesis using m unfolding op_keeps_def by blast
  next
    case (ok v z)
    have "R x z" using m ok(1) unfolding op_keeps_def by blast
    moreover have "R z y" using f [of v] ok(2) unfolding op_keeps_def by blast
    ultimately show ?thesis by (rule kept_trans)
  qed
qed

lemma keeps_for: "(\<And>v. op_keeps R (f v)) \<Longrightarrow> op_keeps R (op_for f xs)"
  by (induction xs) (simp_all add: keeps_ok keeps_bind)

end

interpretation ext_kept: kept ext_base
  using ext_base_refl ext_base_trans by unfold_locales

lemmas [keeps] = ext_kept.keeps_ok ext_kept.keeps_read ext_kept.keeps_bind ext_kept.keeps_for

lemma keeps_set_batch [keeps]: "op_keeps ext_base (op_set (\<lambda>x. x\<lparr>ext_batch := g x\<rparr>))" and
  keeps_set_header [keeps]: "op_keeps ext_base (op_set (\<lambda>x. x\<lparr>ext_header := h\<rparr>))" and
  keeps_force_rollback [keeps]: "op_keeps ext_base (op_set (\<lambda>x. x\<lparr>ext_rollback := v\<rparr>))"
  by (auto simp: op_keeps_def op_set_def ext_base_def)

lemmas range_backends = header_be_def output_be_def rproof_be_def kernel_be_def
lemmas same_base_pmmr = same_base_push same_base_pmmr_rewind same_base_prune

lemma keeps_apply_header [keeps]: "op_keeps ext_base (apply_header E h)"
  and keeps_apply_kernel [keeps]: "op_keeps ext_base (apply_kernel E k)"
  by (auto simp: op_keeps_def ext_base_def apply_header_def apply_kernel_def op_str_def bind_res_Inr_iff range_backends
      dest: same_base_push split: sum.splits)

lemma keeps_apply_output [keeps]: "op_keeps ext_base (apply_output E out)"
  unfolding apply_output_def
  by (intro keeps) (auto simp: op_keeps_def ext_base_def op_str_def bind_res_Inr_iff range_backends dest: same_base_push split: sum.splits)

lemma keeps_apply_input [keeps]: "op_keeps ext_base (apply_input E inp)"
  unfolding op_keeps_def ext_base_def apply_input_def range_backends
  by (auto dest: same_base_prune split: sum.splits option.splits if_splits bool.splits)

lemma keeps_apply_block [keeps]: "op_keeps ext_base (apply_block E b)"
  unfolding apply_block_def by (intro keeps)

lemma keeps_rewind_to_pos [keeps]: "op_keeps ext_base (rewind_to_pos E hp opos kp rm)"
  unfolding rewind_to_pos_def
  by (intro keeps) (auto simp: op_keeps_def ext_base_def op_str_def bind_res_Inr_iff range_backends dest: same_base_pmmr_rewind split: sum.splits)

lemma keeps_ext_rewind [keeps]: "op_keeps ext_base (ext_rewind E h)"
  unfolding ext_rewind_def by (intro keeps) (auto simp: op_keeps_def ext_base_def)

lemma keeps_validations [keeps]:
  "op_keeps ext_base (validate_roots E)" "op_keeps ext_base (validate_header_root E h)" "op_keeps ext_base validate_sizes" "op_keeps ext_base (ext_validate E f)"
  "op_keeps ext_base (utxo_validate E body)" "op_keeps ext_base (verify_coinbase_maturity E ins ht)"
  unfolding validate_roots_def validate_header_root_def validate_sizes_def ext_validate_def utxo_validate_def verify_coinbase_maturity_def
  by (intro keeps)+

definition hx_base :: "'bm header_extension \<Rightarrow> 'bm header_extension \<Rightarrow> bool" where
  "hx_base x y \<longleftrightarrow> same_base (pm_backend (hx_pmmr x)) (pm_backend (hx_pmmr y))"

interpretation hx_kept: kept hx_base
  unfolding hx_base_def by unfold_locales (auto intro: same_base_trans)

lemmas [keeps] = hx_kept.keeps_ok hx_kept.keeps_read hx_kept.keeps_bind hx_kept.keeps_for

lemma keeps_hx_set [keeps]: "op_keeps hx_base (op_set (\<lambda>x. x\<lparr>hx_batch := g x\<rparr>))" "op_keeps hx_base (op_set (\<lambda>x. x\<lparr>hx_header := h\<rparr>))"
  "op_keeps hx_base (op_set (\<lambda>x. x\<lparr>hx_rollback := v\<rparr>))"
  by (auto simp: op_keeps_def op_set_def hx_base_def)

lemma keeps_hx [keeps]: "op_keeps hx_base (hx_apply_header E h)" "op_keeps hx_base (hx_rewind E h)"
  unfolding hx_apply_header_def hx_rewind_def
  by (intro keeps; auto simp: op_keeps_def hx_base_def op_str_def bind_res_Inr_iff header_be_def
      dest: same_base_push same_base_pmmr_rewind split: sum.splits)+

lemma keeps_hx_truncate [keeps]: "op_keeps hx_base (hx_truncate E)" and keeps_hx_validate_root [keeps]: "op_keeps hx_base (hx_validate_root E h)"
  by (auto simp: hx_truncate_def hx_validate_root_def op_keeps_def hx_base_def op_str_def op_read_def bind_res_Inr_iff header_be_def
      dest: same_base_truncate split: sum.splits)

lemma keeps_hx_rebuild [keeps]: "op_keeps hx_base (hx_rebuild E head genesis)"
  unfolding hx_rebuild_def by (intro keeps)

section \<open>A unit of work that fails leaves no trace\<close>

text \<open>At rest: nothing to discard, and something on disk.\<close>

definition settled :: "'bm pmmr_handle \<Rightarrow> bool" where
  "settled h \<longleftrightarrow> handle_discard h = h \<and> anchored_backend (ph_backend h)"

definition settled_trees :: "'bm txhashset \<Rightarrow> bool" where
  "settled_trees t \<longleftrightarrow> settled (header_pmmr_h t) \<and> settled (sync_pmmr_h t) \<and> settled (output_pmmr_h t) \<and> settled (rproof_pmmr_h t) \<and> settled (kernel_pmmr_h t)"

lemma settled_back: "settled h \<Longrightarrow> same_base (ph_backend h) b \<Longrightarrow> handle_discard (h\<lparr>ph_backend := b\<rparr>) = h"
  by (cases h) (simp add: settled_def same_base_def handle_discard_def)

lemma rolled_back:
  assumes "settled_trees t" and "ext_base (extension_new t s h) x"
  shows "discard_trees (give_back x t) = t"
  using assms settled_back [of "header_pmmr_h t"] settled_back [of "output_pmmr_h t"] settled_back [of "rproof_pmmr_h t"] settled_back [of "kernel_pmmr_h t"]
  by (cases t) (simp add: discard_trees_def give_back_def settled_trees_def ext_base_def extension_new_def)

end
