(* ===== verification/Ledger.thy ===== *)
theory Ledger
  imports Txhashset
begin

text \<open>
  What the set of ranges stands for: the headers, outputs and kernels of the chain in the order they were
  added, the outputs that are unspent, and the index from commitments to positions. The operations of an
  extension are shown to act on this ledger; the ranges on disk stay as they are until the unit of work
  commits.
\<close>

section \<open>Ranges as sequences\<close>

record ledger =
  lg_headers :: "block_header list"
  lg_outputs :: "tx_output list"
  lg_live :: "nat set"
  lg_kernels :: "tx_kernel list"

text \<open>The four files of an extension: \<open>G0\<close> is the ledger on disk, \<open>G\<close> the current one, \<open>gone\<close> what compaction
  has taken away.\<close>

definition header_file :: "'bm env \<Rightarrow> 'bm pmmr_backend \<Rightarrow> block_header list \<Rightarrow> block_header list \<Rightarrow> bool" where
  "header_file E b hs0 hs \<longleftrightarrow> \<not> pb_prunable b \<and> session (ev_K E) write_header_entry header_entry_ok (Some HEADER_ENTRY_LEN)
     (header_as_elmt (ev_ct E) (ev_digest E)) (header_leaf E) (parent_hash E) b hs0 {} hs {} {}"

definition output_file :: "'bm env \<Rightarrow> nat set \<Rightarrow> 'bm pmmr_backend \<Rightarrow> tx_output list \<Rightarrow> nat set \<Rightarrow> tx_output list \<Rightarrow> nat set \<Rightarrow> bool" where
  "output_file E gone b os0 live0 os live \<longleftrightarrow> pb_prunable b \<and> session (ev_K E) write_output_identifier output_identifier_ok (Some OUTPUT_IDENTIFIER_LEN)
     from_output (output_leaf E) (parent_hash E) b os0 live0 os live gone"

definition rproof_file :: "'bm env \<Rightarrow> nat set \<Rightarrow> 'bm pmmr_backend \<Rightarrow> u8 list list \<Rightarrow> nat set \<Rightarrow> u8 list list \<Rightarrow> nat set \<Rightarrow> bool" where
  "rproof_file E gone b ps0 live0 ps live \<longleftrightarrow> pb_prunable b \<and> session (ev_K E) write_range_proof (range_proof_ok (ev_mps E)) (Some (RANGE_PROOF_LEN (ev_mps E)))
     (\<lambda>p. p) (rproof_leaf E) (parent_hash E) b ps0 live0 ps live gone"

definition kernel_file :: "'bm env \<Rightarrow> 'bm pmmr_backend \<Rightarrow> tx_kernel list \<Rightarrow> tx_kernel list \<Rightarrow> bool" where
  "kernel_file E b ks0 ks \<longleftrightarrow> \<not> pb_prunable b \<and> session (ev_K E) write_kernel_entry kernel_entry_ok None
     from_kernel (kernel_leaf E) (parent_hash E) b ks0 {} ks {} {}"

definition holds :: "'bm env \<Rightarrow> nat set \<Rightarrow> ledger \<Rightarrow> ledger \<Rightarrow> 'bm extension \<Rightarrow> bool" where
  "holds E gone G0 G x \<longleftrightarrow>
     header_file E (pm_backend (header_pmmr x)) (lg_headers G0) (lg_headers G) \<and>
     last_pos (header_pmmr x) = mmr_size (length (lg_headers G)) \<and>
     output_file E gone (pm_backend (output_pmmr x)) (lg_outputs G0) (lg_live G0) (lg_outputs G) (lg_live G) \<and>
     last_pos (output_pmmr x) = mmr_size (length (lg_outputs G)) \<and>
     rproof_file E gone (pm_backend (rproof_pmmr x)) (map o_proof (lg_outputs G0)) (lg_live G0) (map o_proof (lg_outputs G)) (lg_live G) \<and>
     last_pos (rproof_pmmr x) = mmr_size (length (lg_outputs G)) \<and>
     kernel_file E (pm_backend (kernel_pmmr x)) (lg_kernels G0) (lg_kernels G) \<and>
     last_pos (kernel_pmmr x) = mmr_size (length (lg_kernels G))"

text \<open>The index finds every unspent output, and holds positions of leaves only. It may hold commitments of
  spent outputs and of outputs behind the end of the range.\<close>

definition unspent :: "ledger \<Rightarrow> nat \<Rightarrow> bool" where
  "unspent G m \<longleftrightarrow> m < length (lg_outputs G) \<and> node_pos m 0 \<in> lg_live G"

definition indexed :: "(commitment \<Rightarrow> u64 option) \<Rightarrow> ledger \<Rightarrow> bool" where
  "indexed idx G \<longleftrightarrow> (\<forall>m. unspent G m \<longrightarrow> idx (o_commit (lg_outputs G ! m)) = Some (node_pos m 0)) \<and>
     (\<forall>c p. idx c = Some p \<longrightarrow> (\<exists>m. p = node_pos m 0) \<and> p < u32_size)"

lemma indexed_find: "indexed idx G \<Longrightarrow> unspent G m \<Longrightarrow> idx (o_commit (lg_outputs G ! m)) = Some (node_pos m 0)"
  unfolding indexed_def by blast

lemma indexed_pos:
  assumes "indexed idx G" and "idx c = Some p"
  obtains m where "p = node_pos m 0" "p < u32_size"
  using assms unfolding indexed_def by blast

lemma leaf_pos_eq: "node_pos m 0 = node_pos n 0 \<longleftrightarrow> m = n"
  using node_pos_inj [of m 0 n 0] by auto

lemma indexed_unique:
  assumes "indexed idx G" and "unspent G m" and "unspent G n" and "o_commit (lg_outputs G ! m) = o_commit (lg_outputs G ! n)"
  shows "m = n"
proof -
  have "node_pos m 0 = node_pos n 0" using indexed_find [OF assms(1,2)] indexed_find [OF assms(1,3)] assms(4) by simp
  then show ?thesis by (simp add: leaf_pos_eq)
qed

section \<open>The operations of an extension on the ledger\<close>

context element_store
begin

lemma session_get_hash_beyond:
  assumes s: "session K put ok l as_elmt hl hn b xs0 live0 xs live gone" and p: "mmr_size (length xs) < p" "p < u32_size"
  shows "be_get_hash (store_backend K put get as_elmt) b p = None"
proof -
  let ?R = "pruned_roots K b" and ?H = "range_hashes hl hn xs"
  have h: "file_holds write_hash (pb_hash_file b) (kept_hashes ?R (range_hashes hl hn xs0)) (kept_hashes ?R ?H)" and lo: "list_ok K b"
    and g: "gone \<subseteq> {..mmr_size (length xs)}" using s by (simp_all add: session_def store_holds_def)
  have c: "compacted ?R \<subseteq> {..mmr_size (length xs)}" by (rule session_compacted(2) [OF s g])
  have sub: "compacted ?R \<subseteq> {1..mmr_size (length xs)}" using c compacted_gt_0 by (force simp: Suc_le_eq)
  then have "{q \<in> compacted ?R. q \<le> p} = compacted ?R" using p(1) by auto
  then have sh: "get_shift K (pb_prune_list b) p = Some (card (compacted ?R))" "p \<notin> compacted ?R" "\<not> is_compacted K b p"
    using list_ok_facts(3,4) [OF K lo p(2)] sub p(1) by auto
  have card: "card (compacted ?R) \<le> mmr_size (length xs)" using card_mono [OF _ sub] by simp
  have "length (kept_hashes ?R ?H) = mmr_size (length xs) - card (compacted ?R)"
    using length_kept_hashes [of ?R ?H] c by simp
  then have "data_read read_hash (pb_hash_file b) (p - card (compacted ?R)) = Some None"
    using hash_file.data_read_holds [OF h, of "p - card (compacted ?R)"] card p(1) by (simp add: list_all_iff)
  moreover have "u64_sub p (card (compacted ?R)) = p - card (compacted ?R)" using p card by (simp add: width)
  ultimately have "data_read read_hash (pb_hash_file b) (u64_sub p (card (compacted ?R))) = Some None" by simp
  then show ?thesis using sh by (simp add: store_backend_def backend_get_hash_def backend_get_from_file_def)
qed

end

lemma header_push:
  assumes K: "bitmap_laws (ev_K E)" and f: "header_file E b hs0 hs" and ok: "header_entry_ok (header_as_elmt (ev_ct E) (ev_digest E) h)"
    and sz: "2 * mmr_size (Suc (length hs)) < u32_size"
  shows "\<exists>b'. pmmr_push (header_be E) (header_leaf E) (parent_hash E) \<lparr>last_pos = mmr_size (length hs), pm_backend = b\<rparr> h =
      Inr (node_pos (length hs) 0, \<lparr>last_pos = mmr_size (Suc (length hs)), pm_backend = b'\<rparr>) \<and> header_file E b' hs0 (hs @ [h])"
  using element_store.session_push [OF header_store [OF K], of _ _ _ _ hs0 "{}" hs "{}" "{}" h] f ok sz
  unfolding header_file_def header_be_def by fastforce

lemma output_push:
  assumes K: "bitmap_laws (ev_K E)" and f: "output_file E gone b os0 live0 os live" and ok: "output_identifier_ok (from_output out)"
    and sz: "2 * mmr_size (Suc (length os)) < u32_size"
  shows "\<exists>b'. pmmr_push (output_be E) (output_leaf E) (parent_hash E) \<lparr>last_pos = mmr_size (length os), pm_backend = b\<rparr> out =
      Inr (node_pos (length os) 0, \<lparr>last_pos = mmr_size (Suc (length os)), pm_backend = b'\<rparr>) \<and>
    output_file E gone b' os0 live0 (os @ [out]) (insert (node_pos (length os) 0) live)"
  using element_store.session_push [OF output_store [OF K], of _ _ _ _ os0 live0 os live gone out] f ok sz
  unfolding output_file_def output_be_def by fastforce

lemma rproof_push:
  assumes K: "bitmap_laws (ev_K E)" and f: "rproof_file E gone b ps0 live0 ps live" and ok: "range_proof_ok (ev_mps E) p"
    and sz: "2 * mmr_size (Suc (length ps)) < u32_size"
  shows "\<exists>b'. pmmr_push (rproof_be E) (rproof_leaf E) (parent_hash E) \<lparr>last_pos = mmr_size (length ps), pm_backend = b\<rparr> p =
      Inr (node_pos (length ps) 0, \<lparr>last_pos = mmr_size (Suc (length ps)), pm_backend = b'\<rparr>) \<and>
    rproof_file E gone b' ps0 live0 (ps @ [p]) (insert (node_pos (length ps) 0) live)"
  using element_store.session_push [OF rangeproof_store [OF K], of _ "\<lambda>p. p" _ _ _ ps0 live0 ps live gone p] f ok sz
  unfolding rproof_file_def rproof_be_def by fastforce

lemma kernel_push:
  assumes K: "bitmap_laws (ev_K E)" and f: "kernel_file E b ks0 ks" and ok: "kernel_ok k"
    and sz: "2 * mmr_size (Suc (length ks)) < u32_size"
  shows "\<exists>b'. pmmr_push (kernel_be E) (kernel_leaf E) (parent_hash E) \<lparr>last_pos = mmr_size (length ks), pm_backend = b\<rparr> k =
      Inr (node_pos (length ks) 0, \<lparr>last_pos = mmr_size (Suc (length ks)), pm_backend = b'\<rparr>) \<and> kernel_file E b' ks0 (ks @ [k])"
  using element_store.session_push [OF kernel_store [OF K], of from_kernel _ _ _ ks0 "{}" ks "{}" "{}" k] f ok sz
  unfolding kernel_file_def kernel_be_def by (fastforce simp: kernel_entry_ok_def from_kernel_def)

lemma pmmr_eta: "last_pos p = n \<Longrightarrow> p = \<lparr>last_pos = n, pm_backend = pm_backend p\<rparr>"
  by simp

lemma output_read:
  assumes K: "bitmap_laws (ev_K E)" and f: "output_file E gone b os0 live0 os live"
  shows "pmmr_get_data (output_be E) \<lparr>last_pos = mmr_size (length os), pm_backend = b\<rparr> (node_pos m 0) =
      (if m < length os \<and> node_pos m 0 \<in> live then Some (from_output (os ! m)) else None)"
    and "pmmr_get_hash (output_be E) \<lparr>last_pos = mmr_size (length os), pm_backend = b\<rparr> (node_pos m 0) =
      (if m < length os \<and> node_pos m 0 \<in> live then Some (output_leaf E (os ! m) (mmr_size m)) else None)"
proof -
  have s: "session (ev_K E) write_output_identifier output_identifier_ok (Some OUTPUT_IDENTIFIER_LEN)
     from_output (output_leaf E) (parent_hash E) b os0 live0 os live gone" "pb_prunable b" using f by (simp_all add: output_file_def)
  have far: "m \<ge> length os \<Longrightarrow> mmr_size (length os) < node_pos m 0" using node_pos_le_size [of m 0 "length os"] by simp
  show "pmmr_get_data (output_be E) \<lparr>last_pos = mmr_size (length os), pm_backend = b\<rparr> (node_pos m 0) =
      (if m < length os \<and> node_pos m 0 \<in> live then Some (from_output (os ! m)) else None)"
    using element_store.session_read(1) [OF output_store [OF K] s, of m] far
    by (cases "m < length os") (auto simp: output_be_def pmmr_get_data_def)
  show "pmmr_get_hash (output_be E) \<lparr>last_pos = mmr_size (length os), pm_backend = b\<rparr> (node_pos m 0) =
      (if m < length os \<and> node_pos m 0 \<in> live then Some (output_leaf E (os ! m) (mmr_size m)) else None)"
    using element_store.session_read(2) [OF output_store [OF K] s, of m] far
    by (cases "m < length os") (auto simp: output_be_def pmmr_get_hash_def)
qed

lemma output_prune:
  assumes K: "bitmap_laws (ev_K E)" and f: "output_file E gone b os0 live0 os live" and u: "node_pos m 0 < u32_size"
  shows "\<exists>b'. pmmr_prune (output_be E) \<lparr>last_pos = mmr_size (length os), pm_backend = b\<rparr> (node_pos m 0) =
      Some (Inr (m < length os \<and> node_pos m 0 \<in> live, \<lparr>last_pos = mmr_size (length os), pm_backend = b'\<rparr>)) \<and>
    (m < length os \<and> node_pos m 0 \<in> live \<longrightarrow> output_file E gone b' os0 live0 os (live - {node_pos m 0})) \<and>
    (\<not> (m < length os \<and> node_pos m 0 \<in> live) \<longrightarrow> b' = b)"
proof -
  have s: "session (ev_K E) write_output_identifier output_identifier_ok (Some OUTPUT_IDENTIFIER_LEN)
     from_output (output_leaf E) (parent_hash E) b os0 live0 os live gone" "pb_prunable b" using f by (simp_all add: output_file_def)
  show ?thesis
  proof (cases "m < length os \<and> node_pos m 0 \<in> live")
    case True
    then show ?thesis using element_store.session_prune [OF output_store [OF K] s, of m] by (auto simp: output_be_def output_file_def)
  next
    case False
    have "be_get_hash (output_be E) b (node_pos m 0) = None"
    proof (cases "m < length os")
      case True
      then show ?thesis using output_read(2) [OF K f, of m] False node_pos_le_size [of m 0 "length os"]
        by (simp add: pmmr_get_hash_def is_leaf_node not_less)
    next
      case False
      then have "mmr_size (length os) < node_pos m 0" using node_pos_le_size [of m 0 "length os"] by simp
      then show ?thesis using element_store.session_get_hash_beyond [OF output_store [OF K] s(1) _ u] by (simp add: output_be_def)
    qed
    then show ?thesis using False by (auto simp: pmmr_prune_def is_leaf_node)
  qed
qed

lemma rproof_prune:
  assumes K: "bitmap_laws (ev_K E)" and f: "rproof_file E gone b ps0 live0 ps live" and m: "m < length ps"
  shows "\<exists>b'. pmmr_prune (rproof_be E) \<lparr>last_pos = mmr_size (length ps), pm_backend = b\<rparr> (node_pos m 0) =
      Some (Inr (node_pos m 0 \<in> live, \<lparr>last_pos = mmr_size (length ps), pm_backend = b'\<rparr>)) \<and>
    rproof_file E gone b' ps0 live0 ps (live - {node_pos m 0})"
proof -
  have s: "session (ev_K E) write_range_proof (range_proof_ok (ev_mps E)) (Some (RANGE_PROOF_LEN (ev_mps E)))
     (\<lambda>p. p) (rproof_leaf E) (parent_hash E) b ps0 live0 ps live gone" "pb_prunable b" using f by (simp_all add: rproof_file_def)
  show ?thesis using element_store.session_prune [OF rangeproof_store [OF K] s m] by (auto simp: rproof_be_def rproof_file_def)
qed

text \<open>An output is refused exactly if there is an unspent one with its commitment.\<close>

definition output_fits :: "'bm env \<Rightarrow> tx_output \<Rightarrow> bool" where
  "output_fits E out \<longleftrightarrow> output_identifier_ok (from_output out) \<and> range_proof_ok (ev_mps E) (o_proof out)"

definition add_output :: "ledger \<Rightarrow> tx_output \<Rightarrow> ledger" where
  "add_output G out = G\<lparr>lg_outputs := lg_outputs G @ [out], lg_live := insert (node_pos (length (lg_outputs G)) 0) (lg_live G)\<rparr>"

lemma utxo_validate_output_spec:
  assumes K: "bitmap_laws (ev_K E)" and h: "holds E gone G0 G x" and i: "indexed (cs_output_pos (ext_batch x)) G"
  shows "utxo_validate_output E out x =
    (if \<exists>m. unspent G m \<and> o_commit (lg_outputs G ! m) = o_commit out then Inl (DuplicateCommitment (o_commit out)) else Inr ())"
proof -
  let ?idx = "cs_output_pos (ext_batch x)" and ?op = "output_pmmr x" and ?dup = "\<exists>m. unspent G m \<and> o_commit (lg_outputs G ! m) = o_commit out"
  have of: "output_file E gone (pm_backend ?op) (lg_outputs G0) (lg_live G0) (lg_outputs G) (lg_live G)"
    and lp: "last_pos ?op = mmr_size (length (lg_outputs G))" using h by (simp_all add: holds_def)
  have rd: "pmmr_get_data (output_be E) ?op (node_pos m 0) = (if unspent G m then Some (from_output (lg_outputs G ! m)) else None)" for m
    using output_read(1) [OF K of, of m] pmmr_eta [OF lp] by (simp add: unspent_def)
  show ?thesis
  proof (cases "?idx (o_commit out)")
    case None
    then have "\<not> ?dup" using indexed_find [OF i] by fastforce
    then show ?thesis using None by (simp add: utxo_validate_output_def get_output_pos_def option_to_not_found_def)
  next
    case (Some pos)
    then obtain m where m: "pos = node_pos m 0" by (rule indexed_pos [OF i])
    have "n = m" if "unspent G n" "o_commit (lg_outputs G ! n) = o_commit out" for n
      using indexed_find [OF i that(1)] that(2) Some m by (simp add: leaf_pos_eq)
    then have "?dup \<longleftrightarrow> unspent G m \<and> o_commit (lg_outputs G ! m) = o_commit out" by blast
    then show ?thesis using Some m rd [of m] by (auto simp: utxo_validate_output_def get_output_pos_def option_to_not_found_def from_output_def)
  qed
qed

lemma apply_output_spec:
  assumes K: "bitmap_laws (ev_K E)" and h: "holds E gone G0 G x" and i: "indexed (cs_output_pos (ext_batch x)) G"
    and ok: "output_fits E out" and sz: "2 * mmr_size (Suc (length (lg_outputs G))) < u32_size"
  shows "(\<exists>m. unspent G m \<and> o_commit (lg_outputs G ! m) = o_commit out) \<Longrightarrow>
      apply_output E out x = Some (Inl (DuplicateCommitment (o_commit out)), x)"
    and "\<not> (\<exists>m. unspent G m \<and> o_commit (lg_outputs G ! m) = o_commit out) \<Longrightarrow>
      \<exists>y. apply_output E out x = Some (Inr (node_pos (length (lg_outputs G)) 0), y) \<and> holds E gone G0 (add_output G out) y \<and>
        ext_batch y = ext_batch x \<and> ext_header y = ext_header x \<and> ext_rollback y = ext_rollback x"
proof -
  let ?idx = "cs_output_pos (ext_batch x)" and ?op = "output_pmmr x" and ?rp = "rproof_pmmr x" and ?n = "length (lg_outputs G)"
  have of: "output_file E gone (pm_backend ?op) (lg_outputs G0) (lg_live G0) (lg_outputs G) (lg_live G)"
    and rf: "rproof_file E gone (pm_backend ?rp) (map o_proof (lg_outputs G0)) (lg_live G0) (map o_proof (lg_outputs G)) (lg_live G)"
    and lp: "last_pos ?op = mmr_size ?n" "last_pos ?rp = mmr_size (length (map o_proof (lg_outputs G)))"
    using h by (simp_all add: holds_def)
  let ?dup = "\<exists>m. unspent G m \<and> o_commit (lg_outputs G ! m) = o_commit out"
  have chk: "(case get_output_pos (ext_batch x) (o_commit out) of
         Inr pos \<Rightarrow> (case pmmr_get_data (output_be E) ?op pos of
             Some out_mmr \<Rightarrow> Some (if oi_commit out_mmr = o_commit out then Inl (DuplicateCommitment (o_commit out)) else Inr ())
           | None \<Rightarrow> Some (Inr ()))
       | Inl _ \<Rightarrow> Some (Inr ())) = Some (if ?dup then Inl (DuplicateCommitment (o_commit out)) else Inr ())"
    unfolding utxo_validate_output_spec [OF K h i, of out, symmetric] by (simp add: utxo_validate_output_def split: sum.split option.split)
  show "?dup \<Longrightarrow> apply_output E out x = Some (Inl (DuplicateCommitment (o_commit out)), x)"
    by (simp add: apply_output_def op_bind_def op_read_def chk)
  assume new: "\<not> ?dup"
  obtain b' where b': "pmmr_push (output_be E) (output_leaf E) (parent_hash E) ?op out =
      Inr (node_pos ?n 0, \<lparr>last_pos = mmr_size (Suc ?n), pm_backend = b'\<rparr>)"
      "output_file E gone b' (lg_outputs G0) (lg_live G0) (lg_outputs G @ [out]) (insert (node_pos ?n 0) (lg_live G))"
    using output_push [OF K of _ sz, of out] ok pmmr_eta [OF lp(1)] by (auto simp: output_fits_def)
  obtain c' where c': "pmmr_push (rproof_be E) (rproof_leaf E) (parent_hash E) ?rp (o_proof out) =
      Inr (node_pos ?n 0, \<lparr>last_pos = mmr_size (Suc ?n), pm_backend = c'\<rparr>)"
      "rproof_file E gone c' (map o_proof (lg_outputs G0)) (lg_live G0) (map o_proof (lg_outputs G) @ [o_proof out]) (insert (node_pos ?n 0) (lg_live G))"
    using rproof_push [OF K rf, of "o_proof out"] ok sz pmmr_eta [OF lp(2)] by (auto simp: output_fits_def)
  let ?y = "x\<lparr>output_pmmr := \<lparr>last_pos = mmr_size (Suc ?n), pm_backend = b'\<rparr>, rproof_pmmr := \<lparr>last_pos = mmr_size (Suc ?n), pm_backend = c'\<rparr>\<rparr>"
  have "apply_output E out x = Some (Inr (node_pos ?n 0), ?y)"
    using chk new b'(1) c'(1) by (simp add: apply_output_def op_bind_def op_read_def op_str_def pmmr_unpruned_size_def)
  moreover have "holds E gone G0 (add_output G out) ?y"
    using h b'(2) c'(2) by (simp add: holds_def add_output_def)
  ultimately show "\<exists>y. apply_output E out x = Some (Inr (node_pos ?n 0), y) \<and> holds E gone G0 (add_output G out) y \<and>
        ext_batch y = ext_batch x \<and> ext_header y = ext_header x \<and> ext_rollback y = ext_rollback x"
    by (intro exI [of _ ?y]) simp
qed

text \<open>\<open>spends E idx G inp m\<close>: the index leads from the input to the unspent output \<open>m\<close>, whose entry in the
  range has the hash of the input at that position.\<close>

definition spends :: "'bm env \<Rightarrow> (commitment \<Rightarrow> u64 option) \<Rightarrow> ledger \<Rightarrow> tx_input \<Rightarrow> nat \<Rightarrow> bool" where
  "spends E idx G inp m \<longleftrightarrow> idx (i_commit inp) = Some (node_pos m 0) \<and> unspent G m \<and>
     output_leaf E (lg_outputs G ! m) (mmr_size m) = hash_with_index (ev_digest E) write_input (mmr_size m) inp"

definition spend :: "ledger \<Rightarrow> nat \<Rightarrow> ledger" where
  "spend G m = G\<lparr>lg_live := lg_live G - {node_pos m 0}\<rparr>"

lemma spends_same: "indexed idx G \<Longrightarrow> unspent G m \<Longrightarrow> from_output (lg_outputs G ! m) = from_input inp \<Longrightarrow> spends E idx G inp m"
  using indexed_find [of idx G m]
  by (auto simp: spends_def output_leaf_def hash_with_index_def write_output_def write_input_def from_output_def from_input_def)

lemma unspent_spend: "unspent (spend G m) n \<longleftrightarrow> unspent G n \<and> n \<noteq> m"
  by (auto simp: unspent_def spend_def leaf_pos_eq)

lemma indexed_spend: "indexed idx G \<Longrightarrow> indexed idx (spend G m)"
  unfolding indexed_def unspent_spend by (simp add: spend_def)

lemma spends_spend: "spends E idx (spend G m) inp n \<longleftrightarrow> spends E idx G inp n \<and> n \<noteq> m"
  unfolding spends_def unspent_spend by (auto simp: spend_def)

lemma utxo_validate_input_spec:
  assumes K: "bitmap_laws (ev_K E)" and h: "holds E gone G0 G x" and i: "indexed (cs_output_pos (ext_batch x)) G"
    and sp: "spends E (cs_output_pos (ext_batch x)) G inp m"
  shows "utxo_validate_input E inp x = Inr ()"
proof -
  let ?op = "output_pmmr x"
  have of: "output_file E gone (pm_backend ?op) (lg_outputs G0) (lg_live G0) (lg_outputs G) (lg_live G)"
    and lp: "last_pos ?op = mmr_size (length (lg_outputs G))" using h by (simp_all add: holds_def)
  have u: "node_pos m 0 < u32_size" using indexed_pos [OF i, of "i_commit inp" "node_pos m 0"] sp unfolding spends_def by blast
  then have "u64_sub (node_pos m 0) 1 = mmr_size m" by (simp add: node_pos_def width)
  moreover have "pmmr_get_hash (output_be E) ?op (node_pos m 0) = Some (output_leaf E (lg_outputs G ! m) (mmr_size m))"
    using output_read(2) [OF K of, of m] pmmr_eta [OF lp] sp by (simp add: unspent_def spends_def)
  ultimately show ?thesis using sp by (simp add: utxo_validate_input_def spends_def get_output_pos_def option_to_not_found_def)
qed

lemma apply_input_spec:
  assumes K: "bitmap_laws (ev_K E)" and h: "holds E gone G0 G x" and i: "indexed (cs_output_pos (ext_batch x)) G"
  shows "spends E (cs_output_pos (ext_batch x)) G inp m \<Longrightarrow>
      \<exists>y. apply_input E inp x = Some (Inr (), y) \<and> holds E gone G0 (spend G m) y \<and>
        ext_batch y = ext_batch x \<and> ext_header y = ext_header x \<and> ext_rollback y = ext_rollback x"
    and "\<not> (\<exists>m. spends E (cs_output_pos (ext_batch x)) G inp m) \<Longrightarrow> \<exists>e. apply_input E inp x = Some (Inl e, x)"
proof -
  let ?idx = "cs_output_pos (ext_batch x)" and ?op = "output_pmmr x" and ?rp = "rproof_pmmr x" and ?n = "length (lg_outputs G)"
  have of: "output_file E gone (pm_backend ?op) (lg_outputs G0) (lg_live G0) (lg_outputs G) (lg_live G)"
    and rf: "rproof_file E gone (pm_backend ?rp) (map o_proof (lg_outputs G0)) (lg_live G0) (map o_proof (lg_outputs G)) (lg_live G)"
    and lp: "last_pos ?op = mmr_size ?n" "last_pos ?rp = mmr_size (length (map o_proof (lg_outputs G)))"
    using h by (simp_all add: holds_def)
  have hash: "pmmr_get_hash (output_be E) ?op (node_pos m 0) = (if unspent G m then Some (output_leaf E (lg_outputs G ! m) (mmr_size m)) else None)" for m
    using output_read(2) [OF K of, of m] pmmr_eta [OF lp(1)] by (simp add: unspent_def)
  have sub: "u64_sub (node_pos m 0) 1 = mmr_size m" if "node_pos m 0 < u32_size" for m
    using that by (simp add: node_pos_def width)
  show "\<exists>y. apply_input E inp x = Some (Inr (), y) \<and> holds E gone G0 (spend G m) y \<and>
        ext_batch y = ext_batch x \<and> ext_header y = ext_header x \<and> ext_rollback y = ext_rollback x" if sp: "spends E ?idx G inp m"
  proof -
    have u: "node_pos m 0 < u32_size" using indexed_pos [OF i, of "i_commit inp" "node_pos m 0"] sp unfolding spends_def by blast
    have un: "unspent G m" "m < ?n" "node_pos m 0 \<in> lg_live G" using sp by (simp_all add: spends_def unspent_def)
    obtain b' where b': "pmmr_prune (output_be E) ?op (node_pos m 0) = Some (Inr (True, \<lparr>last_pos = mmr_size ?n, pm_backend = b'\<rparr>))"
        "output_file E gone b' (lg_outputs G0) (lg_live G0) (lg_outputs G) (lg_live G - {node_pos m 0})"
      using output_prune [OF K of u] un pmmr_eta [OF lp(1)] by auto
    obtain c' where c': "pmmr_prune (rproof_be E) ?rp (node_pos m 0) = Some (Inr (True, \<lparr>last_pos = mmr_size ?n, pm_backend = c'\<rparr>))"
        "rproof_file E gone c' (map o_proof (lg_outputs G0)) (lg_live G0) (map o_proof (lg_outputs G)) (lg_live G - {node_pos m 0})"
      using rproof_prune [OF K rf, of m] un pmmr_eta [OF lp(2)] by auto
    let ?y = "x\<lparr>output_pmmr := \<lparr>last_pos = mmr_size ?n, pm_backend = b'\<rparr>, rproof_pmmr := \<lparr>last_pos = mmr_size ?n, pm_backend = c'\<rparr>\<rparr>"
    have "apply_input E inp x = Some (Inr (), ?y)"
      using sp un(1) b'(1) c'(1) hash [of m] sub [OF u] by (simp add: apply_input_def get_output_pos_def option_to_not_found_def spends_def)
    moreover have "holds E gone G0 (spend G m) ?y" using h b'(2) c'(2) by (simp add: holds_def spend_def)
    ultimately show ?thesis by (intro exI [of _ ?y]) simp
  qed
  show "\<exists>e. apply_input E inp x = Some (Inl e, x)" if no: "\<not> (\<exists>m. spends E ?idx G inp m)"
  proof (cases "?idx (i_commit inp)")
    case None
    then show ?thesis by (simp add: apply_input_def get_output_pos_def option_to_not_found_def)
  next
    case (Some pos)
    then obtain m where m: "pos = node_pos m 0" "pos < u32_size" by (rule indexed_pos [OF i])
    show ?thesis
    proof (cases "unspent G m")
      case True
      then have "output_leaf E (lg_outputs G ! m) (mmr_size m) \<noteq> hash_with_index (ev_digest E) write_input (mmr_size m) inp"
        using no Some m by (auto simp: spends_def)
      then show ?thesis using Some m True hash [of m] sub [of m] by (simp add: apply_input_def get_output_pos_def option_to_not_found_def)
    next
      case False
      then have "pmmr_prune (output_be E) ?op pos = Some (Inr (False, ?op))"
        using output_prune [OF K of m(2) [unfolded m(1)]] m(1) pmmr_eta [OF lp(1)] by (auto simp: unspent_def)
      then show ?thesis using Some m False hash [of m] by (simp add: apply_input_def get_output_pos_def option_to_not_found_def)
    qed
  qed
qed

text \<open>The loops of \<open>apply_block\<close>.\<close>

definition fresh :: "ledger \<Rightarrow> tx_output list \<Rightarrow> bool" where
  "fresh G outs \<longleftrightarrow> distinct (map o_commit outs) \<and> (\<forall>m. unspent G m \<longrightarrow> o_commit (lg_outputs G ! m) \<notin> o_commit ` set outs)"

lemma unspent_add: "unspent (add_output G out) m \<longleftrightarrow> unspent G m \<or> m = length (lg_outputs G)"
  by (auto simp: unspent_def add_output_def leaf_pos_eq)

lemma outputs_add [simp]: "lg_outputs (add_output G out) = lg_outputs G @ [out]"
  by (simp add: add_output_def)

lemma fresh_Cons:
  "fresh G (out # outs) \<longleftrightarrow> \<not> (\<exists>m. unspent G m \<and> o_commit (lg_outputs G ! m) = o_commit out) \<and> fresh (add_output G out) outs"
proof -
  have n: "(lg_outputs G @ [out]) ! m = lg_outputs G ! m" if "unspent G m" for m using that by (simp add: unspent_def nth_append)
  show ?thesis unfolding fresh_def unspent_add outputs_add using n by (auto simp: nth_append)
qed

lemma indexed_add:
  assumes i: "indexed idx G" and new: "\<not> (\<exists>m. unspent G m \<and> o_commit (lg_outputs G ! m) = o_commit out)"
    and u: "node_pos (length (lg_outputs G)) 0 < u32_size"
  shows "indexed (idx(o_commit out \<mapsto> node_pos (length (lg_outputs G)) 0)) (add_output G out)"
proof -
  have "unspent G m \<Longrightarrow> m < length (lg_outputs G)" for m by (simp add: unspent_def)
  then show ?thesis using i new u unfolding indexed_def unspent_add outputs_add by (auto simp: nth_append)
qed

abbreviation add_outputs :: "ledger \<Rightarrow> tx_output list \<Rightarrow> ledger" where
  "add_outputs G outs \<equiv> fold (\<lambda>out G. add_output G out) outs G"

abbreviation apply_outputs :: "'bm env \<Rightarrow> tx_output list \<Rightarrow> ('bm extension, unit) op" where
  "apply_outputs E outs \<equiv> op_for (\<lambda>out. op_bind (apply_output E out) (\<lambda>pos.
     op_set (\<lambda>x. x\<lparr>ext_batch := save_output_pos (ext_batch x) (o_commit out) pos\<rparr>))) outs"

text \<open>Only the index of the batch changes.\<close>

definition same_but_index :: "'bm chain_store \<Rightarrow> 'bm chain_store \<Rightarrow> bool" where
  "same_but_index s t \<longleftrightarrow> (\<exists>idx. t = s\<lparr>cs_output_pos := idx\<rparr>)"

lemma same_but_index_refl: "same_but_index s s"
  unfolding same_but_index_def by (rule exI [of _ "cs_output_pos s"]) simp

lemma same_but_index_save: "same_but_index (save_output_pos s c p) t \<Longrightarrow> same_but_index s t"
  by (auto simp: same_but_index_def save_output_pos_def)

lemma holds_batch [simp]: "holds E gone G0 G (x\<lparr>ext_batch := s\<rparr>) = holds E gone G0 G x"
  and holds_header [simp]: "holds E gone G0 G (x\<lparr>ext_header := h\<rparr>) = holds E gone G0 G x"
  by (simp_all add: holds_def)

lemma apply_outputs_spec:
  assumes K: "bitmap_laws (ev_K E)" and h: "holds E gone G0 G x" and i: "indexed (cs_output_pos (ext_batch x)) G"
    and ok: "list_all (output_fits E) outs" and sz: "2 * mmr_size (length (lg_outputs G) + length outs) < u32_size"
  shows "(fresh G outs \<longrightarrow> (\<exists>y. apply_outputs E outs x = Some (Inr (), y) \<and> holds E gone G0 (add_outputs G outs) y \<and>
        indexed (cs_output_pos (ext_batch y)) (add_outputs G outs) \<and> same_but_index (ext_batch x) (ext_batch y) \<and>
        ext_header y = ext_header x \<and> ext_rollback y = ext_rollback x)) \<and>
    (\<not> fresh G outs \<longrightarrow> (\<exists>e y G'. apply_outputs E outs x = Some (Inl e, y) \<and> holds E gone G0 G' y))"
  using h i ok sz
proof (induction outs arbitrary: G x)
  case Nil
  then show ?case by (auto simp: op_ok_def fresh_def same_but_index_refl)
next
  case (Cons out outs)
  let ?n = "length (lg_outputs G)"
  have le: "mmr_size (Suc ?n) \<le> mmr_size (?n + length (out # outs))" by (simp add: mmr_size_le_iff)
  then have s1: "2 * mmr_size (Suc ?n) < u32_size" using Cons.prems(4) by simp
  have ok1: "output_fits E out" using Cons.prems(3) by simp
  note ao = apply_output_spec [OF K Cons.prems(1,2) ok1 s1]
  show ?case
  proof (cases "\<exists>m. unspent G m \<and> o_commit (lg_outputs G ! m) = o_commit out")
    case True
    then show ?thesis using ao(1) [OF True] Cons.prems(1) unfolding fresh_Cons by (auto simp: op_bind_def)
  next
    case False
    obtain y where y: "apply_output E out x = Some (Inr (node_pos ?n 0), y)" "holds E gone G0 (add_output G out) y"
        "ext_batch y = ext_batch x" "ext_header y = ext_header x" "ext_rollback y = ext_rollback x" using ao(2) [OF False] by blast
    let ?z = "y\<lparr>ext_batch := save_output_pos (ext_batch y) (o_commit out) (node_pos ?n 0)\<rparr>"
    have "node_pos ?n 0 \<le> mmr_size (Suc ?n)" by (simp add: node_pos_le_size)
    then have "node_pos ?n 0 < u32_size" using s1 by simp
    then have i': "indexed (cs_output_pos (ext_batch ?z)) (add_output G out)"
      using indexed_add [OF Cons.prems(2) False] y(3) by (simp add: save_output_pos_def)
    have "holds E gone G0 (add_output G out) ?z" using y(2) by simp
    note IH = Cons.IH [OF this i']
    have "apply_outputs E (out # outs) x = apply_outputs E outs ?z" using y(1) by (simp add: op_bind_def op_set_def)
    then show ?thesis using IH Cons.prems(3,4) y(3-5) False same_but_index_save unfolding fresh_Cons by fastforce
  qed
qed

definition spend_all :: "ledger \<Rightarrow> nat list \<Rightarrow> ledger" where
  "spend_all G ms = G\<lparr>lg_live := lg_live G - (\<lambda>m. node_pos m 0) ` set ms\<rparr>"

lemma spend_all_Cons: "spend_all G (m # ms) = spend_all (spend G m) ms"
  by (cases G) (auto simp: spend_all_def spend_def)

lemma spends_unique: "spends E idx G inp m \<Longrightarrow> spends E idx G inp n \<Longrightarrow> m = n"
  by (auto simp: spends_def leaf_pos_eq)

lemma list_all2_spend:
  "list_all2 (spends E idx (spend G m)) ins ns \<longleftrightarrow> list_all2 (spends E idx G) ins ns \<and> m \<notin> set ns"
proof (induction ins arbitrary: ns)
  case (Cons i ins)
  then show ?case by (cases ns) (auto simp: spends_spend)
qed auto

lemma apply_inputs_spec:
  assumes K: "bitmap_laws (ev_K E)" and h: "holds E gone G0 G x" and i: "indexed (cs_output_pos (ext_batch x)) G"
  shows "(\<forall>ms. list_all2 (spends E (cs_output_pos (ext_batch x)) G) ins ms \<and> distinct ms \<longrightarrow>
      (\<exists>y. op_for (apply_input E) ins x = Some (Inr (), y) \<and> holds E gone G0 (spend_all G ms) y \<and>
        indexed (cs_output_pos (ext_batch y)) (spend_all G ms) \<and>
        ext_batch y = ext_batch x \<and> ext_header y = ext_header x \<and> ext_rollback y = ext_rollback x)) \<and>
    ((\<nexists>ms. list_all2 (spends E (cs_output_pos (ext_batch x)) G) ins ms \<and> distinct ms) \<longrightarrow>
      (\<exists>e y G'. op_for (apply_input E) ins x = Some (Inl e, y) \<and> holds E gone G0 G' y))"
  using h i
proof (induction ins arbitrary: G x)
  case Nil
  then show ?case by (simp add: op_ok_def spend_all_def)
next
  case (Cons inp ins)
  let ?idx = "cs_output_pos (ext_batch x)"
  note ai = apply_input_spec [OF K Cons.prems]
  show ?case
  proof (cases "\<exists>m. spends E ?idx G inp m")
    case False
    then show ?thesis using ai(2) [OF False] Cons.prems(1) unfolding list_all2_Cons1 by (auto simp: op_bind_def)
  next
    case True
    then obtain m where m: "spends E ?idx G inp m" by blast
    obtain y where y: "apply_input E inp x = Some (Inr (), y)" "holds E gone G0 (spend G m) y"
        "ext_batch y = ext_batch x" "ext_header y = ext_header x" "ext_rollback y = ext_rollback x" using ai(1) [OF m] by blast
    have run: "op_for (apply_input E) (inp # ins) x = op_for (apply_input E) ins y" using y(1) by (simp add: op_bind_def)
    note IH = Cons.IH [OF y(2) indexed_spend [OF Cons.prems(2), of m, folded y(3)], unfolded y(3-5)]
    have later: "list_all2 (spends E ?idx (spend G m)) ins ns \<longleftrightarrow> list_all2 (spends E ?idx G) ins ns \<and> m \<notin> set ns" for ns
      by (rule list_all2_spend)
    have eq: "list_all2 (spends E ?idx G) (inp # ins) ms \<and> distinct ms \<longleftrightarrow>
        (\<exists>ns. ms = m # ns \<and> list_all2 (spends E ?idx (spend G m)) ins ns \<and> distinct ns)" for ms
    proof (cases ms)
      case (Cons n ns)
      have "spends E ?idx G inp n \<longleftrightarrow> n = m" using m spends_unique [OF m] by blast
      then show ?thesis unfolding later by (auto simp: Cons)
    qed simp
    show ?thesis unfolding eq run using IH by (auto simp: spend_all_Cons)
  qed
qed

lemma apply_kernels_spec:
  assumes K: "bitmap_laws (ev_K E)" and h: "holds E gone G0 G x" and ok: "list_all kernel_ok ks"
    and sz: "2 * mmr_size (length (lg_kernels G) + length ks) < u32_size"
  shows "\<exists>y. op_for (apply_kernel E) ks x = Some (Inr (), y) \<and> holds E gone G0 (G\<lparr>lg_kernels := lg_kernels G @ ks\<rparr>) y \<and>
    ext_batch y = ext_batch x \<and> ext_header y = ext_header x \<and> ext_rollback y = ext_rollback x"
  using h ok sz
proof (induction ks arbitrary: G x)
  case Nil
  then show ?case by (simp add: op_ok_def)
next
  case (Cons k ks)
  let ?n = "length (lg_kernels G)" and ?kp = "kernel_pmmr x"
  have "mmr_size (Suc ?n) \<le> mmr_size (?n + length (k # ks))" by (simp add: mmr_size_le_iff)
  then have s1: "2 * mmr_size (Suc ?n) < u32_size" using Cons.prems(3) by simp
  have kf: "kernel_file E (pm_backend ?kp) (lg_kernels G0) (lg_kernels G)" and lp: "last_pos ?kp = mmr_size ?n"
    using Cons.prems(1) by (simp_all add: holds_def)
  obtain b' where b': "pmmr_push (kernel_be E) (kernel_leaf E) (parent_hash E) ?kp k =
      Inr (node_pos ?n 0, \<lparr>last_pos = mmr_size (Suc ?n), pm_backend = b'\<rparr>)" "kernel_file E b' (lg_kernels G0) (lg_kernels G @ [k])"
    using kernel_push [OF K kf _ s1, of k] Cons.prems(2) pmmr_eta [OF lp] by auto
  let ?y = "x\<lparr>kernel_pmmr := \<lparr>last_pos = mmr_size (Suc ?n), pm_backend = b'\<rparr>\<rparr>"
  have "holds E gone G0 (G\<lparr>lg_kernels := lg_kernels G @ [k]\<rparr>) ?y" using Cons.prems(1) b'(2) by (simp add: holds_def)
  from Cons.IH [OF this] Cons.prems(2,3) show ?case using b'(1) by (simp add: op_bind_def apply_kernel_def op_str_def)
qed

text \<open>A block on the ledger, with the indices of the outputs that its inputs spend.\<close>

definition ledger_apply :: "ledger \<Rightarrow> block \<Rightarrow> nat list \<Rightarrow> ledger" where
  "ledger_apply G b ms = (spend_all (add_outputs G (outputs (b_body b))) ms)
     \<lparr>lg_headers := lg_headers G @ [b_header b], lg_kernels := lg_kernels G @ kernels (b_body b)\<rparr>"

definition block_fits :: "'bm env \<Rightarrow> ledger \<Rightarrow> block \<Rightarrow> bool" where
  "block_fits E G b \<longleftrightarrow> header_entry_ok (header_as_elmt (ev_ct E) (ev_digest E) (b_header b)) \<and>
     list_all (output_fits E) (outputs (b_body b)) \<and> list_all kernel_ok (kernels (b_body b)) \<and>
     2 * mmr_size (Suc (length (lg_headers G))) < u32_size \<and> 2 * mmr_size (length (lg_outputs G) + length (outputs (b_body b))) < u32_size \<and>
     2 * mmr_size (length (lg_kernels G) + length (kernels (b_body b))) < u32_size"

lemma add_outputs_eq: "add_outputs G outs = G\<lparr>lg_outputs := lg_outputs G @ outs,
    lg_live := lg_live G \<union> (\<lambda>m. node_pos m 0) ` {length (lg_outputs G)..<length (lg_outputs G) + length outs}\<rparr>"
proof (induction outs arbitrary: G)
  case (Cons out outs)
  let ?n = "length (lg_outputs G)"
  have "{?n..<?n + length (out # outs)} = insert ?n {Suc ?n..<Suc ?n + length outs}" by auto
  then show ?case using Cons.IH [of "add_output G out"] by (cases G) (auto simp: add_output_def)
qed simp

lemma add_outputs_fields: "lg_headers (add_outputs G outs) = lg_headers G" "lg_kernels (add_outputs G outs) = lg_kernels G"
  "lg_outputs (add_outputs G outs) = lg_outputs G @ outs"
  by (induction outs arbitrary: G) (simp_all add: add_output_def)

lemma apply_header_spec:
  assumes K: "bitmap_laws (ev_K E)" and h: "holds E gone G0 G x" and ok: "header_entry_ok (header_as_elmt (ev_ct E) (ev_digest E) bh)"
    and sz: "2 * mmr_size (Suc (length (lg_headers G))) < u32_size"
  shows "\<exists>y. apply_header E bh x = Some (Inr (), y) \<and> holds E gone G0 (G\<lparr>lg_headers := lg_headers G @ [bh]\<rparr>) y \<and>
    ext_batch y = ext_batch x \<and> ext_header y = ext_header x \<and> ext_rollback y = ext_rollback x"
proof -
  let ?n = "length (lg_headers G)" and ?hp = "header_pmmr x"
  have hf: "header_file E (pm_backend ?hp) (lg_headers G0) (lg_headers G)" and lp: "last_pos ?hp = mmr_size ?n" using h by (simp_all add: holds_def)
  obtain b' where b': "pmmr_push (header_be E) (header_leaf E) (parent_hash E) ?hp bh =
      Inr (node_pos ?n 0, \<lparr>last_pos = mmr_size (Suc ?n), pm_backend = b'\<rparr>)" "header_file E b' (lg_headers G0) (lg_headers G @ [bh])"
    using header_push [OF K hf ok sz] pmmr_eta [OF lp] by auto
  let ?y = "x\<lparr>header_pmmr := \<lparr>last_pos = mmr_size (Suc ?n), pm_backend = b'\<rparr>\<rparr>"
  have "holds E gone G0 (G\<lparr>lg_headers := lg_headers G @ [bh]\<rparr>) ?y" using h b'(2) by (simp add: holds_def)
  then show ?thesis using b'(1) by (intro exI [of _ ?y]) (simp add: apply_header_def op_str_def)
qed

lemma add_outputs_headed:
  fixes G :: ledger and hs :: "block_header list"
  defines "G1 \<equiv> G\<lparr>lg_headers := hs\<rparr>"
  shows "unspent G1 = unspent G" "fresh G1 outs = fresh G outs" "indexed idx G1 = indexed idx G"
    and "add_outputs G1 outs = (add_outputs G outs)\<lparr>lg_headers := hs\<rparr>"
    and "unspent (add_outputs G1 outs) = unspent (add_outputs G outs)" "spends E idx (add_outputs G1 outs) = spends E idx (add_outputs G outs)"
proof -
  have u: "unspent (H\<lparr>lg_headers := hs\<rparr>) = unspent H" for H by (intro ext) (simp add: unspent_def)
  show "unspent G1 = unspent G" "fresh G1 outs = fresh G outs" "indexed idx G1 = indexed idx G"
    unfolding fresh_def indexed_def G1_def u by simp_all
  show ao: "add_outputs G1 outs = (add_outputs G outs)\<lparr>lg_headers := hs\<rparr>" by (simp add: add_outputs_eq G1_def)
  show "unspent (add_outputs G1 outs) = unspent (add_outputs G outs)" "spends E idx (add_outputs G1 outs) = spends E idx (add_outputs G outs)"
    unfolding ao spends_def u by (intro ext, simp)+
qed

text \<open>\<open>apply_block\<close> up to and with the loop over the outputs, and from there on.\<close>

lemma apply_block_outputs:
  fixes G :: ledger
  assumes K: "bitmap_laws (ev_K E)" and h: "holds E gone G0 G x" and i: "indexed (cs_output_pos (ext_batch x)) G" and fit: "block_fits E G b"
  defines "outs \<equiv> outputs (b_body b)" and "G1 \<equiv> G\<lparr>lg_headers := lg_headers G @ [b_header b]\<rparr>"
  obtains x1 x2 where "apply_header E (b_header b) x = Some (Inr (), x1)" "fresh G outs" "apply_outputs E outs x1 = Some (Inr (), x2)"
      "holds E gone G0 (add_outputs G1 outs) x2" "indexed (cs_output_pos (ext_batch x2)) (add_outputs G1 outs)"
      "same_but_index (ext_batch x) (ext_batch x2)" "ext_rollback x2 = ext_rollback x"
  | e y G' where "\<not> fresh G outs" "apply_block E b x = Some (Inl e, y)" "holds E gone G0 G' y"
proof -
  note headed = add_outputs_headed [where G = G and hs = "lg_headers G @ [b_header b]", folded G1_def]
  obtain x1 where x1: "apply_header E (b_header b) x = Some (Inr (), x1)" "holds E gone G0 G1 x1" "ext_batch x1 = ext_batch x"
      "ext_rollback x1 = ext_rollback x"
    using apply_header_spec [OF K h, of "b_header b"] fit by (auto simp: block_fits_def G1_def)
  have i1: "indexed (cs_output_pos (ext_batch x1)) G1" using i x1(3) by (simp add: headed)
  have sz: "list_all (output_fits E) outs" "2 * mmr_size (length (lg_outputs G1) + length outs) < u32_size"
    using fit by (simp_all add: block_fits_def G1_def outs_def)
  note spec = apply_outputs_spec [OF K x1(2) i1 sz, unfolded headed(2)]
  show thesis
  proof (cases "fresh G outs")
    case True
    then obtain x2 where "apply_outputs E outs x1 = Some (Inr (), x2)" "holds E gone G0 (add_outputs G1 outs) x2"
        "indexed (cs_output_pos (ext_batch x2)) (add_outputs G1 outs)" "same_but_index (ext_batch x1) (ext_batch x2)" "ext_rollback x2 = ext_rollback x1"
      using spec by blast
    then show ?thesis using that(1) [OF x1(1) True] x1(3,4) by simp
  next
    case False
    then obtain e y G' where y: "apply_outputs E outs x1 = Some (Inl e, y)" "holds E gone G0 G' y" using spec by blast
    have "apply_block E b x = Some (Inl e, y)" using x1(1) y(1) by (simp add: apply_block_def op_bind_def outs_def)
    with False show ?thesis using y(2) by (rule that(2))
  qed
qed

lemma apply_block_finish:
  fixes G :: ledger
  defines "G1 b \<equiv> G\<lparr>lg_headers := lg_headers G @ [b_header b]\<rparr>"
  assumes K: "bitmap_laws (ev_K E)" and fit: "block_fits E G b" and x1: "apply_header E (b_header b) x = Some (Inr (), x1)"
    and x2: "apply_outputs E (outputs (b_body b)) x1 = Some (Inr (), x2)" "holds E gone G0 (add_outputs (G1 b) (outputs (b_body b))) x2"
      "indexed (cs_output_pos (ext_batch x2)) (add_outputs (G1 b) (outputs (b_body b)))"
    and ms: "list_all2 (spends E (cs_output_pos (ext_batch x2)) (add_outputs (G1 b) (outputs (b_body b)))) (inputs (b_body b)) ms" "distinct ms"
  shows "\<exists>y. apply_block E b x = Some (Inr (), y) \<and> holds E gone G0 (ledger_apply G b ms) y \<and> indexed (cs_output_pos (ext_batch y)) (ledger_apply G b ms) \<and>
    ext_header y = b_header b \<and> ext_rollback y = ext_rollback x2 \<and> ext_batch y = ext_batch x2"
proof -
  let ?G3 = "spend_all (add_outputs (G1 b) (outputs (b_body b))) ms" and ?ks = "kernels (b_body b)"
  have ledger: "?G3\<lparr>lg_kernels := lg_kernels ?G3 @ ?ks\<rparr> = ledger_apply G b ms"
    unfolding G1_def add_outputs_headed(4) by (simp add: spend_all_def ledger_apply_def add_outputs_fields)
  obtain x3 where x3: "op_for (apply_input E) (inputs (b_body b)) x2 = Some (Inr (), x3)" "holds E gone G0 ?G3 x3"
      "indexed (cs_output_pos (ext_batch x3)) ?G3" "ext_batch x3 = ext_batch x2" "ext_rollback x3 = ext_rollback x2"
    using apply_inputs_spec [OF K x2(2,3), of "inputs (b_body b)"] ms by blast
  have "length (lg_kernels ?G3) = length (lg_kernels G)" by (simp add: spend_all_def add_outputs_fields G1_def)
  then obtain x4 where x4: "op_for (apply_kernel E) ?ks x3 = Some (Inr (), x4)" "holds E gone G0 (ledger_apply G b ms) x4"
      "ext_batch x4 = ext_batch x3" "ext_rollback x4 = ext_rollback x3"
    using apply_kernels_spec [OF K x3(2), of ?ks] fit unfolding ledger by (auto simp: block_fits_def)
  have "indexed (cs_output_pos (ext_batch x3)) (ledger_apply G b ms)"
    using x3(3) unfolding ledger [symmetric] by (simp add: indexed_def unspent_def)
  then show ?thesis using x1 x2 x3 x4 by (simp add: apply_block_def op_bind_def op_set_def)
qed

lemma apply_block_run:
  assumes K: "bitmap_laws (ev_K E)" and h: "holds E gone G0 G x" and i: "indexed (cs_output_pos (ext_batch x)) G" and fit: "block_fits E G b"
  obtains ms y where "apply_block E b x = Some (Inr (), y)" "fresh G (outputs (b_body b))"
      "list_all2 (spends E (cs_output_pos (ext_batch y)) (add_outputs G (outputs (b_body b)))) (inputs (b_body b)) ms" "distinct ms"
      "holds E gone G0 (ledger_apply G b ms) y" "indexed (cs_output_pos (ext_batch y)) (ledger_apply G b ms)"
      "same_but_index (ext_batch x) (ext_batch y)" "ext_header y = b_header b" "ext_rollback y = ext_rollback x"
  | e y G' where "apply_block E b x = Some (Inl e, y)" "holds E gone G0 G' y"
proof (cases rule: apply_block_outputs [OF K h i fit])
  case (1 x1 x2)
  show ?thesis
  proof (cases "\<exists>ms. list_all2 (spends E (cs_output_pos (ext_batch x2)) (add_outputs (G\<lparr>lg_headers := lg_headers G @ [b_header b]\<rparr>) (outputs (b_body b))))
      (inputs (b_body b)) ms \<and> distinct ms")
    case True
    then obtain ms where ms: "list_all2 (spends E (cs_output_pos (ext_batch x2)) (add_outputs (G\<lparr>lg_headers := lg_headers G @ [b_header b]\<rparr>) (outputs (b_body b))))
        (inputs (b_body b)) ms" "distinct ms" by blast
    obtain y where "apply_block E b x = Some (Inr (), y)" "holds E gone G0 (ledger_apply G b ms) y" "indexed (cs_output_pos (ext_batch y)) (ledger_apply G b ms)"
        "ext_header y = b_header b" "ext_rollback y = ext_rollback x2" "ext_batch y = ext_batch x2"
      using apply_block_finish [OF K fit 1(1,3,4,5) ms] by blast
    then show ?thesis using that(1) [of y ms] 1 ms(2) ms(1) [unfolded add_outputs_headed(6)] by simp
  next
    case False
    then obtain e y G' where y: "op_for (apply_input E) (inputs (b_body b)) x2 = Some (Inl e, y)" "holds E gone G0 G' y"
      using apply_inputs_spec [OF K 1(4,5), of "inputs (b_body b)"] by blast
    have "apply_block E b x = Some (Inl e, y)" using 1(1,3) y(1) by (simp add: apply_block_def op_bind_def)
    then show ?thesis using y(2) by (rule that(2))
  qed
qed (rule that(2))

text \<open>What makes a block applicable: new commitments and, for each input, its own unspent output.\<close>

definition applicable :: "ledger \<Rightarrow> block \<Rightarrow> nat list \<Rightarrow> bool" where
  "applicable G b ms \<longleftrightarrow> fresh G (outputs (b_body b)) \<and> distinct ms \<and>
     list_all2 (\<lambda>inp m. unspent (add_outputs G (outputs (b_body b))) m \<and> from_output ((lg_outputs G @ outputs (b_body b)) ! m) = from_input inp)
       (inputs (b_body b)) ms"

lemma apply_block_applicable:
  assumes K: "bitmap_laws (ev_K E)" and h: "holds E gone G0 G x" and i: "indexed (cs_output_pos (ext_batch x)) G" and fit: "block_fits E G b"
    and a: "applicable G b ms"
  obtains y where "apply_block E b x = Some (Inr (), y)" "holds E gone G0 (ledger_apply G b ms) y" "indexed (cs_output_pos (ext_batch y)) (ledger_apply G b ms)"
    "same_but_index (ext_batch x) (ext_batch y)" "ext_header y = b_header b" "ext_rollback y = ext_rollback x"
proof (cases rule: apply_block_outputs [OF K h i fit])
  case (1 x1 x2)
  have "list_all2 (spends E (cs_output_pos (ext_batch x2)) (add_outputs (G\<lparr>lg_headers := lg_headers G @ [b_header b]\<rparr>) (outputs (b_body b)))) (inputs (b_body b)) ms"
    using a [unfolded applicable_def, THEN conjunct2, THEN conjunct2]
    by (rule list_all2_mono) (auto intro!: spends_same [OF 1(5)] simp: add_outputs_headed(5) add_outputs_fields)
  from apply_block_finish [OF K fit 1(1,3,4,5) this] a 1(6,7) that show ?thesis by (auto simp: applicable_def)
next
  case 2
  then show ?thesis using a by (simp add: applicable_def)
qed

section \<open>The roots of the ledger\<close>

lemma peaks_not_empty: "0 < n \<Longrightarrow> peaks (mmr_size n) \<noteq> []"
proof -
  assume "0 < n"
  then have n: "0 < mmr_size n" using mmr_size_le_iff [of n 0] by (simp add: mmr_size_def)
  then have "mmr_size n \<in> set (peaks (mmr_size n))" using parent_gt [OF n] by (simp add: set_peaks parent_of_def)
  then show ?thesis by auto
qed

lemma bag_Some: "hs \<noteq> [] \<Longrightarrow> bag hn sz hs \<noteq> None"
proof -
  have some: "fold (\<lambda>peak res. case res of None \<Rightarrow> Some peak | Some rhash \<Rightarrow> Some (hn (peak, rhash) sz)) xs (Some a) \<noteq> None" for xs a
    by (induction xs arbitrary: a) auto
  assume "hs \<noteq> []"
  then show ?thesis using some unfolding bag_def by (cases "rev hs") auto
qed

lemma range_root_Some: "\<exists>r. range_root hl hn z xs = Some r"
proof (cases xs)
  case (Cons x ys)
  then have "bag hn (mmr_size (length xs)) (map (tree_hash hl hn xs) (peaks (mmr_size (length xs)))) \<noteq> None"
    by (intro bag_Some) (simp add: peaks_not_empty)
  then show ?thesis using Cons by (auto simp: range_root_def)
qed (simp add: range_root_def)

definition ledger_roots :: "'bm env \<Rightarrow> ledger \<Rightarrow> txhashset_roots option" where
  "ledger_roots E G =
     Option.bind (range_root (header_leaf E) (parent_hash E) ZERO_HASH (lg_headers G)) (\<lambda>hr.
     Option.bind (range_root (output_leaf E) (parent_hash E) ZERO_HASH (lg_outputs G)) (\<lambda>outr.
     Option.bind (range_root (rproof_leaf E) (parent_hash E) ZERO_HASH (map o_proof (lg_outputs G))) (\<lambda>rpr.
     Option.bind (range_root (kernel_leaf E) (parent_hash E) ZERO_HASH (lg_kernels G)) (\<lambda>kr.
       Some \<lparr>r_header_root = hr, r_output_root = outr, r_rproof_root = rpr, r_kernel_root = kr\<rparr>))))"

lemma ledger_roots_Some: "\<exists>r. ledger_roots E G = Some r"
  using range_root_Some [of "header_leaf E" "parent_hash E" ZERO_HASH "lg_headers G"] range_root_Some [of "output_leaf E" "parent_hash E" ZERO_HASH "lg_outputs G"]
    range_root_Some [of "rproof_leaf E" "parent_hash E" ZERO_HASH "map o_proof (lg_outputs G)"] range_root_Some [of "kernel_leaf E" "parent_hash E" ZERO_HASH "lg_kernels G"]
  by (auto simp: ledger_roots_def)

lemma file_roots:
  assumes K: "bitmap_laws (ev_K E)"
  shows "header_file E b hs0 hs \<Longrightarrow>
      pmmr_root (header_be E) (parent_hash E) ZERO_HASH \<lparr>last_pos = mmr_size (length hs), pm_backend = b\<rparr> = range_root (header_leaf E) (parent_hash E) ZERO_HASH hs"
    and "output_file E gone b os0 live0 os live \<Longrightarrow>
      pmmr_root (output_be E) (parent_hash E) ZERO_HASH \<lparr>last_pos = mmr_size (length os), pm_backend = b\<rparr> = range_root (output_leaf E) (parent_hash E) ZERO_HASH os"
    and "rproof_file E gone b ps0 live0 ps live \<Longrightarrow>
      pmmr_root (rproof_be E) (parent_hash E) ZERO_HASH \<lparr>last_pos = mmr_size (length ps), pm_backend = b\<rparr> = range_root (rproof_leaf E) (parent_hash E) ZERO_HASH ps"
    and "kernel_file E b ks0 ks \<Longrightarrow>
      pmmr_root (kernel_be E) (parent_hash E) ZERO_HASH \<lparr>last_pos = mmr_size (length ks), pm_backend = b\<rparr> = range_root (kernel_leaf E) (parent_hash E) ZERO_HASH ks"
  unfolding header_file_def header_be_def output_file_def output_be_def rproof_file_def rproof_be_def kernel_file_def kernel_be_def
  by (erule conjE, rule element_store.session_root [OF header_store [OF K]], assumption)
    (erule conjE, rule element_store.session_root [OF output_store [OF K]], assumption,
      erule conjE, rule element_store.session_root [OF rangeproof_store [OF K]], assumption,
      erule conjE, rule element_store.session_root [OF kernel_store [OF K]], assumption)

lemma ext_roots_holds:
  assumes K: "bitmap_laws (ev_K E)" and h: "holds E gone G0 G x"
  shows "ext_roots E x = ledger_roots E G"
proof -
  have f: "header_file E (pm_backend (header_pmmr x)) (lg_headers G0) (lg_headers G)"
    "output_file E gone (pm_backend (output_pmmr x)) (lg_outputs G0) (lg_live G0) (lg_outputs G) (lg_live G)"
    "rproof_file E gone (pm_backend (rproof_pmmr x)) (map o_proof (lg_outputs G0)) (lg_live G0) (map o_proof (lg_outputs G)) (lg_live G)"
    "kernel_file E (pm_backend (kernel_pmmr x)) (lg_kernels G0) (lg_kernels G)"
    and e: "header_pmmr x = \<lparr>last_pos = mmr_size (length (lg_headers G)), pm_backend = pm_backend (header_pmmr x)\<rparr>"
    "output_pmmr x = \<lparr>last_pos = mmr_size (length (lg_outputs G)), pm_backend = pm_backend (output_pmmr x)\<rparr>"
    "rproof_pmmr x = \<lparr>last_pos = mmr_size (length (map o_proof (lg_outputs G))), pm_backend = pm_backend (rproof_pmmr x)\<rparr>"
    "kernel_pmmr x = \<lparr>last_pos = mmr_size (length (lg_kernels G)), pm_backend = pm_backend (kernel_pmmr x)\<rparr>"
    using h by (simp_all add: holds_def pmmr_eta)
  note r = file_roots(1) [OF K f(1), folded e(1)] file_roots(2) [OF K f(2), folded e(2)] file_roots(3) [OF K f(3), folded e(3)] file_roots(4) [OF K f(4), folded e(4)]
  show ?thesis by (simp add: ext_roots_def ledger_roots_def r)
qed

end
