(* ===== verification/Pipe.thy ===== *)
theory Pipe
  imports Ledger
begin

text \<open>
  The block processing pipeline, \<open>chain/src/pipe.rs\<close>: validation of headers, processing of full blocks on
  the chain and on forks, and the sync of headers. The state is the set of ranges with the batch of the
  database. Log messages are left out. Parameters: the policy configuration, the options, the verifier of
  the proof of work, the clock in seconds, the pool of orphans, the foundation's file and the functions
  behind the difficulty of a proof.
\<close>

section \<open>Definitions\<close>

record 'bm pipe_env =
  pe_env :: "'bm env"
  pe_policy :: policy_config
  pe_skip_pow :: bool
  pe_pow_verifier :: "block_header \<Rightarrow> bool"
  pe_now :: i64
  pe_orphans :: "hash \<Rightarrow> bool"
  pe_foundation :: foundation_file
  pe_u256 :: "u8 list \<Rightarrow> nat"
  pe_progpow_value :: "u8 list \<Rightarrow> u64 \<Rightarrow> u64 \<Rightarrow> u8 list"

abbreviation pe_ct :: "'bm pipe_env \<Rightarrow> chain_types" where "pe_ct P \<equiv> ev_ct (pe_env P)"
abbreviation pe_hash :: "'bm pipe_env \<Rightarrow> block_header \<Rightarrow> hash" where "pe_hash P \<equiv> ev_hash (pe_env P)"
abbreviation pe_hash_fun :: "'bm pipe_env \<Rightarrow> hash_fun" where "pe_hash_fun P \<equiv> (\<lambda>bs. hash_bytes (ev_digest (pe_env P) bs))"

text \<open>Reading the database in the pipeline.\<close>

definition op_store :: "('bm chain_store \<Rightarrow> (chain_error + 'a) option) \<Rightarrow> ('bm chain_ctx, 'a) op" where
  "op_store f = op_read (\<lambda>(trees, s). f s)"

subsection \<open>Checks\<close>

definition check_known_head :: "'bm pipe_env \<Rightarrow> block_header \<Rightarrow> 'bm chain_store \<Rightarrow> chain_error + unit" where
  "check_known_head P header s = bind_res (of_store (get_head s)) (\<lambda>head.
     if pe_hash P header = last_block_h head \<or> pe_hash P header = prev_block_h head then Inl (Unfit ''already known in head'') else Inr ())"

definition check_known_orphans :: "'bm pipe_env \<Rightarrow> block_header \<Rightarrow> chain_error + unit" where
  "check_known_orphans P header = (if pe_orphans P (pe_hash P header) then Inl (Unfit ''already known in orphans'') else Inr ())"

definition check_known_store :: "'bm pipe_env \<Rightarrow> block_header \<Rightarrow> 'bm chain_store \<Rightarrow> chain_error + unit" where
  "check_known_store P header s =
     (if cs_blocks s (pe_hash P header) \<noteq> None then
        bind_res (of_store (get_head s)) (\<lambda>head.
          if h_height header < u64_sat_sub (tip_height head) 50 then Inl OldBlock else Inl (Unfit ''already known in store''))
      else Inr ())"

definition check_known :: "'bm pipe_env \<Rightarrow> block \<Rightarrow> 'bm chain_store \<Rightarrow> chain_error + unit" where
  "check_known P b s =
     bind_res (check_known_head P (b_header b) s) (\<lambda>_.
     bind_res (check_known_orphans P (b_header b)) (\<lambda>_.
     check_known_store P (b_header b) s))"

definition check_header_known :: "'bm pipe_env \<Rightarrow> block_header \<Rightarrow> 'bm chain_store \<Rightarrow> chain_error + unit" where
  "check_header_known P header s = bind_res (of_store (get_header_head s)) (\<lambda>head.
     if pe_hash P header = last_block_h head \<or> pe_hash P header = prev_block_h head then Inl (Unfit ''header already known'') else Inr ())"

text \<open>The two hashes are written as the numbers they stand for.\<close>

definition bad_hashes :: "hash list" where
  "bad_hashes = map (\<lambda>n. hash_of (be_bytes 32 n))
     [0x840cdf3ad968bd6895b07e4e3235ee704226f85c3163d2da2e6764c7e2b81ea2,
      0xa98bbc899892d2553c52ef17cab6d708f9eaf7d575b3d62ca49bbf9d50ae55a7]"

definition check_bad_header :: "'bm pipe_env \<Rightarrow> block_header \<Rightarrow> chain_error + unit" where
  "check_bad_header P header =
     (if pe_hash P header \<in> set bad_hashes then Inl (InvalidBlockProof (BlockOther ''explicit bad header'')) else Inr ())"

definition prev_header_store :: "block_header \<Rightarrow> 'bm chain_store \<Rightarrow> chain_error + block_header" where
  "prev_header_store header s = map_err (\<lambda>_. Orphan) (get_previous_header s header)"

subsection \<open>Headers\<close>

definition SEEDHASH_EPOCH_BLOCKS :: u64 where "SEEDHASH_EPOCH_BLOCKS = 1000"
definition SEEDHASH_EPOCH_LAG :: u64 where "SEEDHASH_EPOCH_LAG = 60"

definition rx_current_seed_height :: "u64 \<Rightarrow> u64" where
  "rx_current_seed_height height =
     (if height \<le> SEEDHASH_EPOCH_LAG + SEEDHASH_EPOCH_BLOCKS then 0
      else if height mod SEEDHASH_EPOCH_BLOCKS \<le> SEEDHASH_EPOCH_LAG then height - height mod SEEDHASH_EPOCH_BLOCKS - SEEDHASH_EPOCH_BLOCKS
      else height - height mod SEEDHASH_EPOCH_BLOCKS)"

definition difficultyfix_height :: "chain_types \<Rightarrow> u64" where
  "difficultyfix_height ct = (case ct of AutomatedTesting \<Rightarrow> 50 | UserTesting \<Rightarrow> 50 | Floonet \<Rightarrow> 200 | _ \<Rightarrow> 501160)"

definition is_correct_algo :: "pow_type \<Rightarrow> pow_proof \<Rightarrow> bool" where
  "is_correct_algo algo p = (case p of
     CuckooProof edge_bits _ \<Rightarrow> if edge_bits = 29 then algo = Cuckaroo else algo = Cuckatoo
   | RandomXProof _ \<Rightarrow> algo = RandomX
   | ProgPowProof _ \<Rightarrow> algo = ProgPow
   | MD5Proof _ _ \<Rightarrow> False)"

text \<open>\<open>validate_header\<close> in four parts, in the order of the source: what needs no database, the seed and the
  policy, height and time, and the difficulty.\<close>

definition validate_header_alone :: "'bm pipe_env \<Rightarrow> block_header \<Rightarrow> chain_error + unit" where
  "validate_header_alone P header =
     (if \<not> valid_header_version (h_height header) (h_version header) then Inl (ChainInvalidBlockVersion (h_version header))
      else if h_timestamp header > pe_now P + int (6 * BLOCK_TIME_SEC) \<and> pe_ct P \<noteq> AutomatedTesting then Inl InvalidBlockTime
      else bind_res (check_bad_header P header) (\<lambda>_.
        if pe_skip_pow P then Inr ()
        else if \<not> is_primary (pe_ct P) (h_pow header) \<and> \<not> is_secondary (h_pow header) then Inl LowEdgebits
        else if \<not> pe_pow_verifier P header then Inl InvalidPow
        else Inr ()))"

definition validate_header_policy :: "'bm pipe_env \<Rightarrow> block_header \<Rightarrow> block_header \<Rightarrow> 'bm chain_store \<Rightarrow> (chain_error + unit) option" where
  "validate_header_policy P header prev s =
     (case get_block_header s (hash_of (pow_seed (h_pow header))) of
        Inl _ \<Rightarrow> Some (Inl InvalidSeed)
      | Inr header_seed \<Rightarrow>
          if h_height header_seed \<noteq> rx_current_seed_height (h_height header) then Some (Inl InvalidSeed)
          else Option.bind (is_allowed_policy (allowed_policies (pe_policy P)) (h_height header) (h_policy header)) (\<lambda>allowed.
            if \<not> allowed then Some (Inl PolicyIsNotAllowed)
            else if get_policies (pe_policy P) (h_policy header) = None then Some (Inl ThereIsNotPolicy)
            else map_option (\<lambda>(algo, _). if is_correct_algo algo (pow_proof (h_pow header)) then Inr () else Inl InvalidSortAlgo)
              (next_policy (pe_policy P) (h_policy header)
                (case bottle_next s (h_policy header) (cs_headers s (pe_hash P prev)) of None \<Rightarrow> [] | Some (b, _) \<Rightarrow> [b]))))"

definition validate_header_succession :: "'bm pipe_env \<Rightarrow> block_header \<Rightarrow> block_header \<Rightarrow> chain_error + unit" where
  "validate_header_succession P header prev =
     (if h_height header \<noteq> u64_add (h_height prev) 1 then Inl InvalidBlockHeight
      else if h_timestamp header \<le> h_timestamp prev \<and> pe_ct P \<noteq> AutomatedTesting then Inl InvalidBlockTime
      else Inr ())"

definition validate_header_difficulty :: "'bm pipe_env \<Rightarrow> block_header \<Rightarrow> block_header \<Rightarrow> 'bm chain_store \<Rightarrow> (chain_error + unit) option" where
  "validate_header_difficulty P header prev s =
     (let target_difficulty = difficulty_sub (total_difficulty (h_pow header)) (total_difficulty (h_pow prev)) in
      Option.bind (to_difficulty (pe_ct P) (pe_hash_fun P) (pe_u256 P) (pe_progpow_value P) (h_pow header) (pre_pow header)
          (h_height header) (pow_nonce (h_pow header))) (\<lambda>diff.
        if to_num diff (header_type header) < to_num target_difficulty (header_type header) then Some (Inl DifficultyTooLow)
        else Option.bind (difficulty_iter s (pe_hash P prev)) (\<lambda>cursor.
          map_option (\<lambda>next_header_info.
              if target_difficulty \<noteq> hi_difficulty next_header_info then Inl WrongTotalDifficulty
              else (case pow_proof (h_pow header) of
                  CuckooProof _ _ \<Rightarrow> if secondary_scaling (h_pow header) \<noteq> hi_secondary_scaling next_header_info then Inl InvalidScaling else Inr ()
                | _ \<Rightarrow> Inr ()))
            (if h_height header < difficultyfix_height (pe_ct P) then next_difficulty (pe_ct P) (h_height header) (header_type prev) cursor
             else next_difficulty_era1 (pe_ct P) (h_height header) (header_type prev) cursor))))"

definition validate_header :: "'bm pipe_env \<Rightarrow> block_header \<Rightarrow> 'bm chain_store \<Rightarrow> (chain_error + unit) option" where
  "validate_header P header s =
     (case bind_res (validate_header_alone P header) (\<lambda>_. prev_header_store header s) of
        Inl e \<Rightarrow> Some (Inl e)
      | Inr prev \<Rightarrow> Option.bind (validate_header_policy P header prev s) (\<lambda>r.
          case bind_res r (\<lambda>_. validate_header_succession P header prev) of
            Inl e \<Rightarrow> Some (Inl e)
          | Inr _ \<Rightarrow> if pe_skip_pow P then Some (Inr ()) else validate_header_difficulty P header prev s))"

definition has_more_work :: "block_header \<Rightarrow> tip \<Rightarrow> bool" where
  "has_more_work header head \<longleftrightarrow> difficulty_less (tip_total_difficulty head) (total_difficulty (h_pow header))"

definition update_header_head :: "'bm pipe_env \<Rightarrow> block_header \<Rightarrow> ('bm chain_ctx, tip option) op" where
  "update_header_head P bh = op_bind (op_store (\<lambda>s. Some (of_store (get_header_head s)))) (\<lambda>head.
     if has_more_work bh head then
       let t = tip_from_header (pe_ct P) (ev_digest (pe_env P)) bh in
       op_bind (op_set (\<lambda>(trees, s). (trees, s\<lparr>cs_header_head := Some t\<rparr>))) (\<lambda>_. op_ok (Some t))
     else op_ok None)"

definition update_head :: "'bm pipe_env \<Rightarrow> block \<Rightarrow> ('bm chain_ctx, tip option) op" where
  "update_head P b = op_bind (op_store (\<lambda>s. Some (of_store (get_head s)))) (\<lambda>head.
     if has_more_work (b_header b) head then
       let t = tip_from_header (pe_ct P) (ev_digest (pe_env P)) (b_header b) in
       op_bind (op_set (\<lambda>(trees, s). (trees, s\<lparr>cs_head := Some t\<rparr>))) (\<lambda>_. op_ok (Some t))
     else op_ok None)"

subsection \<open>Forks\<close>

text \<open>The walk back from a header to the chain of the header range, with the hashes passed on the way.\<close>

partial_function (option) fork_point :: "'bm env \<Rightarrow> 'bm pmmr_backend pmmr \<Rightarrow> 'bm chain_store \<Rightarrow> block_header \<Rightarrow> hash list \<Rightarrow>
    (chain_error + hash list \<times> block_header) option" where
  "fork_point E p s current fork_hashes =
     (if h_height current > 0 \<and> is_on_current_chain E p s current \<noteq> Inr () then
        (case of_store (get_previous_header s current) of
           Inl e \<Rightarrow> Some (Inl e)
         | Inr previous \<Rightarrow> fork_point E p s previous (fork_hashes @ [ev_hash E current]))
      else Some (Inr (rev fork_hashes, current)))"

definition rewind_and_apply_header_fork :: "'bm env \<Rightarrow> block_header \<Rightarrow> ('bm header_extension, unit) op" where
  "rewind_and_apply_header_fork E header =
     op_bind (op_read (\<lambda>x. case of_store (get_previous_header (hx_batch x) header) of
         Inl e \<Rightarrow> Some (Inl e) | Inr current \<Rightarrow> fork_point E (hx_pmmr x) (hx_batch x) current [])) (\<lambda>(fork_hashes, forked_header).
     op_bind (hx_rewind E forked_header) (\<lambda>_.
     op_for (\<lambda>h. op_bind (op_read (\<lambda>x. Some (map_err (\<lambda>e. StoreErr e ''getting forked headers'') (get_block_header (hx_batch x) h)))) (\<lambda>bh.
         op_bind (hx_apply_header E bh) (\<lambda>_. op_ok ()))) fork_hashes))"

definition verify_block_sums :: "'bm env \<Rightarrow> block \<Rightarrow> ('bm extension, unit) op" where
  "verify_block_sums E b =
     op_bind (op_read (\<lambda>x. Some (of_store (bind_res (get_previous_header (ext_batch x) (b_header b)) (\<lambda>prev.
         get_block_sums (ext_batch x) (ev_hash E prev)))))) (\<lambda>sums_before.
     op_bind (op_read (\<lambda>x. Option.bind (header_overage (ev_ct E) (b_header b)) (\<lambda>overage.
         map_option (map_err ChainCommitted) (verify_kernel_sums (ev_secp E) (committed_on_sums sums_before (body_committed (b_body b))) overage
           (total_kernel_offset (b_header b)))))) (\<lambda>(u, k).
     op_set (\<lambda>x. x\<lparr>ext_batch := (ext_batch x)\<lparr>cs_block_sums := (cs_block_sums (ext_batch x))(ev_hash E (b_header b) \<mapsto> \<lparr>utxo_sum = u, kernel_sum = k\<rparr>)\<rparr>\<rparr>)))"

definition apply_block_to_txhashset :: "'bm env \<Rightarrow> block \<Rightarrow> ('bm extension, unit) op" where
  "apply_block_to_txhashset E b =
     op_bind (validate_header_root E (b_header b)) (\<lambda>_.
     op_bind (apply_block E b) (\<lambda>_.
     op_bind (validate_roots E) (\<lambda>_.
     validate_sizes)))"

text \<open>The steps that a block takes inside the extension, on the chain and on a fork.\<close>

definition check_and_apply :: "'bm env \<Rightarrow> block \<Rightarrow> ('bm extension, unit) op" where
  "check_and_apply E b =
     op_bind (verify_coinbase_maturity E (inputs (b_body b)) (h_height (b_header b))) (\<lambda>_.
     op_bind (utxo_validate E (b_body b)) (\<lambda>_.
     op_bind (verify_block_sums E b) (\<lambda>_.
     apply_block_to_txhashset E b)))"

definition rewind_and_apply_fork :: "'bm env \<Rightarrow> block \<Rightarrow> ('bm extension, unit) op" where
  "rewind_and_apply_fork E b =
     op_bind (op_read (\<lambda>x. case of_store (get_previous_header (ext_batch x) (b_header b)) of
         Inl e \<Rightarrow> Some (Inl e) | Inr current \<Rightarrow> fork_point E (header_pmmr x) (ext_batch x) current [])) (\<lambda>(fork_hashes, forked_header).
     op_bind (ext_rewind E forked_header) (\<lambda>_.
     op_for (\<lambda>h. op_bind (op_read (\<lambda>x. Some (map_err (\<lambda>e. StoreErr e ''getting forked blocks'') (get_block (ext_batch x) h)))) (check_and_apply E)) fork_hashes))"

subsection \<open>Blocks\<close>

definition process_header_for_block :: "'bm pipe_env \<Rightarrow> block_header \<Rightarrow> bool \<Rightarrow> ('bm chain_ctx, unit) op" where
  "process_header_for_block P header is_fork =
     op_bind (header_extending (
       op_bind (op_set (\<lambda>x. x\<lparr>hx_rollback := True\<rparr>)) (\<lambda>_.
       op_bind (if is_fork then rewind_and_apply_header_fork (pe_env P) header else op_ok ()) (\<lambda>_.
       op_bind (hx_validate_root (pe_env P) header) (\<lambda>_.
       op_bind (hx_apply_header (pe_env P) header) (\<lambda>_. op_ok ())))))) (\<lambda>_.
     op_bind (op_store (validate_header P header)) (\<lambda>_.
     op_bind (op_set (\<lambda>(trees, s). (trees, save_block_header (pe_ct P) (ev_digest (pe_env P)) s header))) (\<lambda>_.
     op_bind (update_header_head P header) (\<lambda>_. op_ok ()))))"

definition validate_block :: "'bm pipe_env \<Rightarrow> block \<Rightarrow> 'bm chain_store \<Rightarrow> (chain_error + unit) option" where
  "validate_block P b s = (case of_store (get_previous_header s (b_header b)) of
     Inl e \<Rightarrow> Some (Inl e)
   | Inr prev \<Rightarrow> map_option (\<lambda>r. bind_res (map_err InvalidBlockProof r) (\<lambda>_. Inr ()))
       (block_validate (pe_ct P) (ev_secp (pe_env P)) (pe_hash_fun P) (pe_foundation P) b (total_kernel_offset prev)))"

definition extend_with_block :: "'bm pipe_env \<Rightarrow> block \<Rightarrow> bool \<Rightarrow> ('bm extension, unit) op" where
  "extend_with_block P b is_fork =
     op_bind (if is_fork then rewind_and_apply_fork (pe_env P) b else op_ok ()) (\<lambda>_.
     op_bind (check_and_apply (pe_env P) b) (\<lambda>_.
     op_bind (op_read (\<lambda>x. Some (of_store (get_head (ext_batch x))))) (\<lambda>head.
     if \<not> has_more_work (b_header b) head then op_set (\<lambda>x. x\<lparr>ext_rollback := True\<rparr>) else op_ok ())))"

definition process_block :: "'bm pipe_env \<Rightarrow> block \<Rightarrow> ('bm chain_ctx, tip option) op" where
  "process_block P b =
     op_bind (op_store (\<lambda>s. Some (check_known P b s))) (\<lambda>_.
     op_bind (op_store (\<lambda>s. Some (of_store (get_head s)))) (\<lambda>head.
     let is_next = (prev_hash (b_header b) = last_block_h head) in
     op_bind (op_store (\<lambda>s. Some (prev_header_store (b_header b) s))) (\<lambda>prev.
     op_bind (op_store (\<lambda>s. Some (if \<not> is_next \<and> cs_blocks s (pe_hash P prev) = None then Inl Orphan else Inr ()))) (\<lambda>_.
     op_bind (process_header_for_block P (b_header b) (\<not> is_next)) (\<lambda>_.
     op_bind (op_store (validate_block P b)) (\<lambda>_.
     op_bind (extending (extend_with_block P b (\<not> is_next))) (\<lambda>_.
     op_bind (op_set (\<lambda>(trees, s). (trees, save_block (pe_ct P) (ev_digest (pe_env P)) (ev_K (pe_env P)) s b))) (\<lambda>_.
     op_bind (op_set (\<lambda>(trees, s). (trees, if cs_tail s = None
         then s\<lparr>cs_tail := Some (tip_from_header (pe_ct P) (ev_digest (pe_env P)) (b_header b))\<rparr> else s))) (\<lambda>_.
     update_head P b)))))))))"

definition process_block_header :: "'bm pipe_env \<Rightarrow> block_header \<Rightarrow> ('bm chain_ctx, unit) op" where
  "process_block_header P header =
     op_bind (op_store (\<lambda>s. Some (check_header_known P header s))) (\<lambda>_.
     op_store (validate_header P header))"

definition sync_block_headers :: "'bm pipe_env \<Rightarrow> block_header list \<Rightarrow> ('bm chain_ctx, tip option) op" where
  "sync_block_headers P headers = (case headers of
     [] \<Rightarrow> op_ok None
   | first_header # _ \<Rightarrow>
       op_bind (op_for (\<lambda>header. op_read (\<lambda>_. Some (check_bad_header P header))) headers) (\<lambda>_.
       op_bind (op_read (\<lambda>(trees, s). Some (Inr (cs_headers s (pe_hash P (last headers)) \<noteq> None)))) (\<lambda>all_known.
       op_bind (if all_known then op_ok () else
         op_bind (op_store (\<lambda>s. Some (of_store (get_previous_header s first_header)))) (\<lambda>prev_header.
         op_bind (sync_extending (
           op_bind (hx_rewind (pe_env P) prev_header) (\<lambda>_.
           op_for (\<lambda>header.
             op_bind (hx_validate_root (pe_env P) header) (\<lambda>_.
             op_bind (hx_apply_header (pe_env P) header) (\<lambda>_.
             op_set (\<lambda>x. x\<lparr>hx_batch := save_block_header (pe_ct P) (ev_digest (pe_env P)) (hx_batch x) header\<rparr>)))) headers))) (\<lambda>_.
         op_for (\<lambda>header. op_store (validate_header P header)) headers))) (\<lambda>_.
       op_bind (op_set (\<lambda>(trees, s). (trees, s\<lparr>cs_sync_head := Some (tip_from_header (pe_ct P) (ev_digest (pe_env P)) (last headers))\<rparr>))) (\<lambda>_.
       update_header_head P (last headers))))))"

section \<open>What a block that does not become the head leaves behind\<close>

lemma op_bind_assoc: "op_bind (op_bind m f) g = op_bind m (\<lambda>v. op_bind (f v) g)"
  by (rule ext) (simp add: op_bind_def split: option.split prod.split sum.split)

lemma op_bind_set [simp]: "op_bind (op_set f) g x = g () (f x)"
  by (simp add: op_bind_def op_set_def)

lemma keeps_op_if [keeps]: "op_keeps R m \<Longrightarrow> op_keeps R n \<Longrightarrow> op_keeps R (if c then m else n)"
  by simp

lemma keeps_case_prod [keeps]: "(\<And>a b. op_keeps R (f a b)) \<Longrightarrow> op_keeps R (case p of (a, b) \<Rightarrow> f a b)"
  by (cases p) simp

lemma keeps_rewind_and_apply_header_fork [keeps]: "op_keeps hx_base (rewind_and_apply_header_fork E h)"
  unfolding rewind_and_apply_header_fork_def by (intro keeps)

lemma keeps_verify_block_sums [keeps]: "op_keeps ext_base (verify_block_sums E b)"
  unfolding verify_block_sums_def by (intro keeps)

lemma keeps_check_and_apply [keeps]: "op_keeps ext_base (check_and_apply E b)"
  unfolding check_and_apply_def apply_block_to_txhashset_def by (intro keeps)

lemma keeps_rewind_and_apply_fork [keeps]: "op_keeps ext_base (rewind_and_apply_fork E b)"
  unfolding rewind_and_apply_fork_def by (intro keeps)

lemma keeps_extend_with_block [keeps]: "op_keeps ext_base (extend_with_block P b fork)"
  unfolding extend_with_block_def by (intro keeps)

text \<open>The head of the body chain and the mark for a rollback stay what they are inside an extension.\<close>

definition ext_head :: "'bm extension \<Rightarrow> 'bm extension \<Rightarrow> bool" where
  "ext_head x y \<longleftrightarrow> cs_head (ext_batch x) = cs_head (ext_batch y) \<and> ext_rollback x = ext_rollback y"

interpretation head_kept: kept ext_head
  unfolding ext_head_def by unfold_locales simp_all

lemmas [keeps] = head_kept.keeps_ok head_kept.keeps_read head_kept.keeps_bind head_kept.keeps_for

lemma head_set_batch [keeps]: "(\<And>x. cs_head (g x) = cs_head (ext_batch x)) \<Longrightarrow> op_keeps ext_head (op_set (\<lambda>x. x\<lparr>ext_batch := g x\<rparr>))"
  and head_set [keeps]: "op_keeps ext_head (op_set (\<lambda>x. x\<lparr>ext_header := h\<rparr>))"
  by (auto simp: op_keeps_def op_set_def ext_head_def)

lemma head_str: "(\<And>x v y. f x = Inr (v, y) \<Longrightarrow> ext_batch y = ext_batch x \<and> ext_rollback y = ext_rollback x) \<Longrightarrow> op_keeps ext_head (op_str f)"
  by (auto simp: op_keeps_def op_str_def ext_head_def split: sum.splits prod.splits)

lemma head_apply [keeps]: "op_keeps ext_head (apply_header E h)" "op_keeps ext_head (apply_kernel E k)" "op_keeps ext_head (apply_output E out)"
  "op_keeps ext_head (apply_input E inp)"
  unfolding apply_header_def apply_kernel_def apply_output_def
  by (intro keeps head_str; auto simp: bind_res_Inr_iff)+
    (auto simp: op_keeps_def ext_head_def apply_input_def split: sum.splits option.splits if_splits bool.splits)

lemma head_apply_block [keeps]: "op_keeps ext_head (apply_block E b)"
  unfolding apply_block_def by (intro keeps) (simp add: save_output_pos_def)

lemma head_rewind_to_pos [keeps]: "op_keeps ext_head (rewind_to_pos E hp opos kp rm)"
  unfolding rewind_to_pos_def by (intro keeps head_str; auto simp: bind_res_Inr_iff)

lemma input_bitmap_head: "cs_head (snd (get_block_input_bitmap ct digest K s h)) = cs_head s"
  by (auto simp: get_block_input_bitmap_def build_and_store_block_input_bitmap_def Let_def split: option.splits sum.splits)

lemma input_bitmaps_head:
  assumes "input_bitmaps E bh cur bms s = Some res"
  shows "cs_head (snd res) = cs_head s"
proof (rule input_bitmaps.raw_induct [OF _ assms, where P = "\<lambda>E bh cur bms s res. cs_head (snd res) = cs_head s"], goal_cases)
  case (1 f E bh cur bms s res)
  obtain v s1 where g: "get_block_input_bitmap (ev_ct E) (ev_digest E) (ev_K E) s (ev_hash E cur) = (v, s1)" by fastforce
  then have head: "cs_head s1 = cs_head s" using input_bitmap_head [of "ev_ct E" "ev_digest E" "ev_K E" s "ev_hash E cur"] by simp
  show ?case
  proof (cases "ev_hash E cur = ev_hash E bh \<or> h_height cur < 1")
    case False
    show ?thesis
    proof (cases "of_store (get_previous_header s1 cur)")
      case (Inl e)
      then show ?thesis using 1(2) g False head by auto
    next
      case (Inr prev)
      then have "f E bh prev (case v of Inr b \<Rightarrow> snd (bitmap_fast_or (ev_K E) (Some b) bms) | Inl _ \<Rightarrow> bms) s1 = Some res"
        using 1(2) g False by (simp add: Let_def)
      from 1(1) [OF this] show ?thesis using head by simp
    qed
  qed (use 1(2) in auto)
qed

lemma head_ext_rewind [keeps]: "op_keeps ext_head (ext_rewind E h)"
  unfolding ext_rewind_def
  by (intro keeps) (auto simp: op_keeps_def ext_head_def input_pos_to_rewind_def dest!: input_bitmaps_head split: if_splits)

lemma head_validations [keeps]:
  "op_keeps ext_head (validate_roots E)" "op_keeps ext_head (validate_header_root E h)" "op_keeps ext_head validate_sizes"
  "op_keeps ext_head (utxo_validate E body)" "op_keeps ext_head (verify_coinbase_maturity E ins ht)"
  unfolding validate_roots_def validate_header_root_def validate_sizes_def utxo_validate_def verify_coinbase_maturity_def
  by (intro keeps)+

lemma head_verify_block_sums [keeps]: "op_keeps ext_head (verify_block_sums E b)"
  unfolding verify_block_sums_def by (intro keeps) simp

lemma head_extend_parts [keeps]: "op_keeps ext_head (check_and_apply E b)" "op_keeps ext_head (rewind_and_apply_fork E b)"
  unfolding rewind_and_apply_fork_def check_and_apply_def apply_block_to_txhashset_def by (intro keeps)+

text \<open>The pipeline's two units of work.\<close>

lemma extend_with_block_head:
  assumes "extend_with_block P b fork x = Some (r, y)"
  shows "cs_head (ext_batch y) = cs_head (ext_batch x)"
    and "r = Inr () \<Longrightarrow> \<exists>head. cs_head (ext_batch x) = Some head \<and> (ext_rollback y \<longleftrightarrow> ext_rollback x \<or> \<not> has_more_work (b_header b) head)"
proof -
  let ?m = "op_bind (if fork then rewind_and_apply_fork (pe_env P) b else op_ok ()) (\<lambda>_. check_and_apply (pe_env P) b)"
  let ?k = "op_bind (op_read (\<lambda>x. Some (of_store (get_head (ext_batch x))))) (\<lambda>head.
     if \<not> has_more_work (b_header b) head then op_set (\<lambda>x. x\<lparr>ext_rollback := True\<rparr>) else op_ok ())"
  have k: "op_keeps ext_head ?m" by (intro keeps)
  have "op_bind ?m (\<lambda>_. ?k) x = Some (r, y)" using assms by (simp add: extend_with_block_def op_bind_assoc)
  then have "cs_head (ext_batch y) = cs_head (ext_batch x) \<and>
      (r = Inr () \<longrightarrow> (\<exists>head. cs_head (ext_batch x) = Some head \<and> (ext_rollback y \<longleftrightarrow> ext_rollback x \<or> \<not> has_more_work (b_header b) head)))"
  proof (cases rule: op_bind_cases)
    case err
    then show ?thesis using k unfolding op_keeps_def ext_head_def by fastforce
  next
    case (ok v z)
    then have "ext_head x z" using k unfolding op_keeps_def by blast
    then have "cs_head (ext_batch z) = cs_head (ext_batch x)" "ext_rollback z = ext_rollback x" by (simp_all add: ext_head_def)
    then show ?thesis using ok(2)
      by (cases "cs_head (ext_batch x)") (auto simp: op_bind_def op_read_def op_set_def op_ok_def get_head_def option_to_not_found_def of_store_def map_err_def
          split: if_splits)
  qed
  then show "cs_head (ext_batch y) = cs_head (ext_batch x)"
    "r = Inr () \<Longrightarrow> \<exists>head. cs_head (ext_batch x) = Some head \<and> (ext_rollback y \<longleftrightarrow> ext_rollback x \<or> \<not> has_more_work (b_header b) head)"
    by blast+
qed

lemma header_extending_rollback:
  assumes t: "settled_trees t" and k: "op_keeps hx_base inner" and rb: "\<And>x v y. inner x = Some (Inr v, y) \<Longrightarrow> hx_rollback y"
    and run: "header_extending inner (t, s) = Some (r, (t', s'))"
  shows "t' = t \<and> s' = s"
proof (cases "of_store (bind_res (get_head s) (\<lambda>head. get_block_header s (last_block_h head)))")
  case (Inl e)
  then show ?thesis using run by (simp add: header_extending_def header_range_extending_def)
next
  case (Inr header)
  let ?x = "\<lparr>hx_header = header, hx_pmmr = handle_pmmr (header_pmmr_h t), hx_rollback = False, hx_batch = s\<rparr>"
  obtain res x where x: "inner ?x = Some (res, x)"
    using run Inr by (auto simp: header_extending_def header_range_extending_def split: option.splits)
  then have "same_base (ph_backend (header_pmmr_h t)) (pm_backend (hx_pmmr x))" using k unfolding op_keeps_def hx_base_def by fastforce
  then have undone: "handle_discard ((header_pmmr_h t)\<lparr>ph_backend := pm_backend (hx_pmmr x)\<rparr>) = header_pmmr_h t"
    using t settled_back [of "header_pmmr_h t"] by (simp add: settled_trees_def)
  have "(t', s') = (header_pmmr_h_update handle_discard (header_pmmr_h_update (\<lambda>h. h\<lparr>ph_backend := pm_backend (hx_pmmr x)\<rparr>) t), s)"
    using run Inr x rb [of ?x _ x] by (cases res) (simp_all add: header_extending_def header_range_extending_def)
  then show ?thesis using undone by (cases t) simp
qed

lemma hx_rollback_kept: "op_keeps (\<lambda>x y. hx_rollback x = hx_rollback y) m \<Longrightarrow> m x = Some (r, y) \<Longrightarrow> hx_rollback y = hx_rollback x"
  unfolding op_keeps_def by blast

interpretation rollback_kept: kept "\<lambda>x y. hx_rollback x = hx_rollback y"
  by unfold_locales simp_all

lemmas [keeps] = rollback_kept.keeps_ok rollback_kept.keeps_read rollback_kept.keeps_bind rollback_kept.keeps_for

lemma rollback_hx [keeps]: "op_keeps (\<lambda>x y. hx_rollback x = hx_rollback y) (hx_apply_header E h)"
  "op_keeps (\<lambda>x y. hx_rollback x = hx_rollback y) (hx_rewind E h)" "op_keeps (\<lambda>x y. hx_rollback x = hx_rollback y) (hx_validate_root E h)"
  unfolding hx_apply_header_def hx_rewind_def hx_validate_root_def
  by (intro keeps; auto simp: op_keeps_def op_str_def op_set_def bind_res_Inr_iff split: sum.splits)+

lemma rollback_header_fork [keeps]: "op_keeps (\<lambda>x y. hx_rollback x = hx_rollback y) (rewind_and_apply_header_fork E h)"
  unfolding rewind_and_apply_header_fork_def by (intro keeps)

lemma process_header_for_block_keeps:
  assumes t: "settled_trees t" and run: "process_header_for_block P h fork (t, s) = Some (r, (t', s'))"
  shows "t' = t \<and> cs_head s' = cs_head s"
proof -
  let ?rest = "op_bind (if fork then rewind_and_apply_header_fork (pe_env P) h else op_ok ()) (\<lambda>_.
       op_bind (hx_validate_root (pe_env P) h) (\<lambda>_. op_bind (hx_apply_header (pe_env P) h) (\<lambda>_. op_ok ())))"
  let ?inner = "op_bind (op_set (\<lambda>x. x\<lparr>hx_rollback := True\<rparr>)) (\<lambda>_. ?rest)"
  have k: "op_keeps hx_base ?inner" by (intro keeps)
  have rk: "op_keeps (\<lambda>x y. hx_rollback x = hx_rollback y) ?rest" by (intro keeps)
  have rb: "hx_rollback y" if "?inner x = Some (Inr v, y)" for x v y
    using hx_rollback_kept [OF rk, of "x\<lparr>hx_rollback := True\<rparr>" "Inr v" y] that by simp
  have unit: "t1 = t \<and> s1 = s1'" if "header_extending ?inner (t, s1') = Some (r1, (t1, s1))" for r1 t1 s1 s1'
    using header_extending_rollback [OF t k _ that] rb by simp
  from run [unfolded process_header_for_block_def] show ?thesis
  proof (cases rule: op_bind_cases)
    case err
    then show ?thesis using unit [OF err(1)] by simp
  next
    case (ok v z)
    obtain t1 s1 where z: "z = (t1, s1)" by fastforce
    have "t1 = t \<and> s1 = s" using unit [OF ok(1) [unfolded z]] by simp
    then show ?thesis using ok(2) z
      by (auto simp: op_bind_def op_store_def op_read_def op_set_def op_ok_def update_header_head_def save_block_header_def Let_def
          split: option.splits sum.splits if_splits)
  qed
qed

lemma sync_handle_cases:
  assumes "sync_handle field field_update z = Some (r, (t', s'))"
  shows "s' = snd z \<and> (r = Inr () \<or> r = Inl (TxHashSetErr ''io''))"
  using assms by (auto simp: sync_handle_def split: prod.splits option.splits sum.splits)

lemma extending_cases:
  assumes t: "settled_trees t" and k: "op_keeps ext_base inner" and run: "extending inner (t, s) = Some (r, (t', s'))"
  obtains (err) e where "r = Inl e" "t' = t" "s' = s"
  | (rollback) header v x where "inner (extension_new t s header) = Some (Inr v, x)" "ext_rollback x" "r = Inr v" "t' = t" "s' = s"
  | (commit) header v x where "inner (extension_new t s header) = Some (Inr v, x)" "\<not> ext_rollback x" "s' = ext_batch x"
      "r = Inr v \<or> r = Inl (TxHashSetErr ''io'')"
proof (cases "of_store (head_header s)")
  case (Inl e)
  then show thesis using run by (intro err [of e]) (simp_all add: extending_def)
next
  case (Inr header)
  obtain res x where x: "inner (extension_new t s header) = Some (res, x)" using run Inr by (auto simp: extending_def split: option.splits)
  then have "ext_base (extension_new t s header) x" using k unfolding op_keeps_def by blast
  then have undone: "discard_trees (give_back x t) = t" by (rule rolled_back [OF t])
  show thesis
  proof (cases res)
    case Inl_res: (Inl e)
    then show thesis using run Inr x undone by (intro err [of e]) (simp_all add: extending_def)
  next
    case Inr_res: (Inr v)
    show thesis
    proof (cases "ext_rollback x")
      case True
      then show thesis using run Inr x Inr_res undone by (intro rollback [of header v x]) (simp_all add: extending_def)
    next
      case False
      from run Inr x Inr_res False have "s' = ext_batch x \<and> (r = Inr v \<or> r = Inl (TxHashSetErr ''io''))"
        by (auto simp: extending_def op_ok_def op_set_def elim!: op_bind_cases dest!: sync_handle_cases split: prod.splits)
      then show thesis using commit x Inr_res False by blast
    qed
  qed
qed

text \<open>The parts of \<open>process_block\<close> around the extension.\<close>

lemma op_store_cases:
  assumes "op_bind (op_store f) g z = Some (r, y)"
  obtains (err) e where "r = Inl e" "y = z" | (ok) v where "f (snd z) = Some (Inr v)" "g v z = Some (r, y)"
  using assms by (auto simp: op_bind_def op_store_def op_read_def split: option.splits prod.splits sum.splits)

lemma update_head_run:
  assumes "update_head P b (t, s) = Some (r, (t', s'))" and "cs_head s = Some head"
  shows "t' = t" "has_more_work (b_header b) head \<Longrightarrow> \<exists>tip. r = Inr (Some tip) \<and> cs_head s' = Some tip \<and>
      tip = tip_from_header (pe_ct P) (ev_digest (pe_env P)) (b_header b)"
    "\<not> has_more_work (b_header b) head \<Longrightarrow> r = Inr None \<and> s' = s"
  using assms by (auto simp: update_head_def op_bind_def op_store_def op_read_def op_set_def op_ok_def get_head_def option_to_not_found_def
      of_store_def map_err_def Let_def split: if_splits)

definition finish_block :: "'bm pipe_env \<Rightarrow> block \<Rightarrow> ('bm chain_ctx, tip option) op" where
  "finish_block P b =
     op_bind (op_set (\<lambda>(trees, s). (trees, save_block (pe_ct P) (ev_digest (pe_env P)) (ev_K (pe_env P)) s b))) (\<lambda>_.
     op_bind (op_set (\<lambda>(trees, s). (trees, if cs_tail s = None
         then s\<lparr>cs_tail := Some (tip_from_header (pe_ct P) (ev_digest (pe_env P)) (b_header b))\<rparr> else s))) (\<lambda>_.
     update_head P b))"

lemma finish_block_run:
  assumes "finish_block P b (t, s) = Some (r, (t', s'))" and "cs_head s = Some head"
  shows "t' = t" "has_more_work (b_header b) head \<Longrightarrow> \<exists>tip. r = Inr (Some tip) \<and> cs_head s' = Some tip \<and>
      tip = tip_from_header (pe_ct P) (ev_digest (pe_env P)) (b_header b)"
    "\<not> has_more_work (b_header b) head \<Longrightarrow> r = Inr None \<and> cs_head s' = cs_head s"
proof -
  obtain s1 where s1: "update_head P b (t, s1) = Some (r, (t', s'))" "cs_head s1 = cs_head s"
    using assms(1) by (auto simp: finish_block_def save_block_def build_and_store_block_input_bitmap_def Let_def split: if_splits)
  show "t' = t" "has_more_work (b_header b) head \<Longrightarrow> \<exists>tip. r = Inr (Some tip) \<and> cs_head s' = Some tip \<and>
      tip = tip_from_header (pe_ct P) (ev_digest (pe_env P)) (b_header b)"
    "\<not> has_more_work (b_header b) head \<Longrightarrow> r = Inr None \<and> cs_head s' = cs_head s"
    using update_head_run [OF s1(1)] s1(2) assms(2) by simp_all
qed

text \<open>\<open>process_block\<close> up to the extension.\<close>

lemma process_block_cases:
  assumes t: "settled_trees t" and run: "process_block P b (t, s) = Some (r, (t', s'))"
  obtains (early) e where "r = Inl e" "t' = t" "cs_head s' = cs_head s"
  | (late) fork s1 where "cs_head s1 = cs_head s" "op_bind (extending (extend_with_block P b fork)) (\<lambda>_. finish_block P b) (t, s1) = Some (r, (t', s'))"
proof -
  note run = run [unfolded process_block_def Let_def, folded finish_block_def]
  from run show thesis
  proof (cases rule: op_store_cases)
    case (ok u)
    from ok(2) show thesis
    proof (cases rule: op_store_cases)
      case ok2: (ok head)
      from ok2(2) show thesis
      proof (cases rule: op_store_cases)
        case ok3: (ok prev)
        from ok3(2) show thesis
        proof (cases rule: op_store_cases)
          case ok4: (ok u)
          from ok4(2) show thesis
          proof (cases rule: op_bind_cases)
            case (err e)
            then show thesis using early process_header_for_block_keeps [OF t err(1)] by blast
          next
            case ok5: (ok u z)
            obtain t1 s1 where z: "z = (t1, s1)" by fastforce
            have k: "t1 = t \<and> cs_head s1 = cs_head s" by (rule process_header_for_block_keeps [OF t ok5(1) [unfolded z]])
            from ok5(2) [unfolded z] show thesis
              by (cases rule: op_store_cases) (use early late k in auto)
          qed
        qed (use early in auto)
      qed (use early in auto)
    qed (use early in auto)
  qed (use early in auto)
qed

text \<open>Nothing in the validation of a header looks at the bottles it carries: they enter through the hash and the
  verifier of the proof of work only.\<close>

lemma validate_header_ignores_bottles:
  assumes "check_bad_header P (h\<lparr>bottles := bs\<rparr>) = check_bad_header P h" and "pe_pow_verifier P (h\<lparr>bottles := bs\<rparr>) = pe_pow_verifier P h"
  shows "validate_header P (h\<lparr>bottles := bs\<rparr>) s = validate_header P h s"
proof -
  let ?h = "h\<lparr>bottles := bs\<rparr>"
  have f: "h_pow ?h = h_pow h" "h_height ?h = h_height h" "h_version ?h = h_version h" "h_timestamp ?h = h_timestamp h"
    "h_policy ?h = h_policy h" "prev_hash ?h = prev_hash h" by simp_all
  have pre: "pre_pow ?h = pre_pow h" by (simp add: pre_pow_def write_header_pre_pow_def)
  have dif: "validate_header_difficulty P ?h p s = validate_header_difficulty P h p s" for p
    unfolding validate_header_difficulty_def f pre ..
  have alone: "validate_header_alone P ?h = validate_header_alone P h"
    unfolding validate_header_alone_def f assms ..
  show ?thesis
    unfolding validate_header_def prev_header_store_def get_previous_header_def validate_header_policy_def validate_header_succession_def f dif alone ..
qed

end
