(* ===== verification/Acceptance.thy ===== *)
theory Acceptance
  imports Pipe
begin

text \<open>
  Which blocks the pipeline accepts: the steps of \<open>process_block\<close> on ranges that hold a ledger, an example of
  an accepted block, and the properties of the pipeline.
\<close>

section \<open>The next valid block is accepted\<close>

lemma op_bind_ok: "m x = Some (Inr v, y) \<Longrightarrow> op_bind m f x = f v y"
  by (simp add: op_bind_def)

lemma op_for_read: "(\<And>v. v \<in> set vs \<Longrightarrow> f v x = Inr ()) \<Longrightarrow> op_for (\<lambda>v. op_read (\<lambda>x. Some (f v x))) vs x = Some (Inr (), x)"
  by (induction vs) (simp_all add: op_ok_def op_bind_def op_read_def)

text \<open>What a header states about the ledger before its block and about the one after it.\<close>

definition header_matches :: "'bm env \<Rightarrow> ledger \<Rightarrow> ledger \<Rightarrow> block_header \<Rightarrow> bool" where
  "header_matches E G G' h \<longleftrightarrow> h_height h = length (lg_headers G) \<and> 0 < h_height h \<and>
     map_option r_header_root (ledger_roots E G) = Some (prev_root h) \<and>
     map_option r_output_root (ledger_roots E G') = Some (output_root h) \<and>
     map_option r_rproof_root (ledger_roots E G') = Some (range_proof_root h) \<and>
     map_option r_kernel_root (ledger_roots E G') = Some (kernel_root h) \<and>
     output_mmr_size h = mmr_size (length (lg_outputs G')) \<and> kernel_mmr_size h = mmr_size (length (lg_kernels G'))"

lemma apply_block_to_txhashset_ok:
  assumes K: "bitmap_laws (ev_K E)" and h: "holds E gone G0 G x" and i: "indexed (cs_output_pos (ext_batch x)) G" and fit: "block_fits E G b"
    and a: "applicable G b ms" and m: "header_matches E G (ledger_apply G b ms) (b_header b)"
  obtains y where "apply_block_to_txhashset E b x = Some (Inr (), y)" "holds E gone G0 (ledger_apply G b ms) y"
    "indexed (cs_output_pos (ext_batch y)) (ledger_apply G b ms)" "same_but_index (ext_batch x) (ext_batch y)" "ext_rollback y = ext_rollback x"
proof -
  let ?G' = "ledger_apply G b ms" and ?h = "b_header b"
  have "validate_header_root E ?h x = Some (Inr (), x)"
    using m ext_roots_holds [OF K h] by (auto simp: validate_header_root_def op_read_def header_matches_def)
  moreover obtain y where y: "apply_block E b x = Some (Inr (), y)" "holds E gone G0 ?G' y" "indexed (cs_output_pos (ext_batch y)) ?G'"
      "same_but_index (ext_batch x) (ext_batch y)" "ext_header y = ?h" "ext_rollback y = ext_rollback x"
    by (rule apply_block_applicable [OF K h i fit a])
  moreover have "validate_roots E y = Some (Inr (), y)"
    using m y(5) ext_roots_holds [OF K y(2)] by (auto simp: validate_roots_def op_read_def header_matches_def)
  moreover have "validate_sizes y = Some (Inr (), y)"
  proof -
    let ?n = "length (lg_headers G)"
    have "2 * mmr_size (Suc ?n) < u32_size" "Suc ?n \<le> mmr_size (Suc ?n)" using fit by (simp_all add: block_fits_def mmr_size_ge)
    then have "u64_add ?n 2 = Suc (Suc ?n)" by (simp add: u64_add_def width)
    then have "u64_sub (insertion_to_pmmr_index (u64_add ?n 2)) 1 = mmr_size (Suc ?n)" by (simp add: insertion_index node_pos_def u64_sub_def)
    moreover have "length (lg_headers ?G') = Suc ?n" by (simp add: ledger_apply_def)
    ultimately show ?thesis using m y(2,5) by (simp add: validate_sizes_def op_read_def header_matches_def holds_def pmmr_unpruned_size_def)
  qed
  ultimately show thesis
    by (intro that [of y]) (simp_all add: apply_block_to_txhashset_def op_bind_ok)
qed

lemma header_at_holds:
  assumes K: "bitmap_laws (ev_K E)" and h: "holds E gone G0 G x" and n: "n < length (lg_headers G)" "Suc n < u64_size"
  shows "header_at E (header_pmmr x) s n = of_store (get_block_header s (ev_hash E (lg_headers G ! n)))"
proof -
  have f: "\<not> pb_prunable (pm_backend (header_pmmr x))" "session (ev_K E) write_header_entry header_entry_ok (Some HEADER_ENTRY_LEN)
      (header_as_elmt (ev_ct E) (ev_digest E)) (header_leaf E) (parent_hash E) (pm_backend (header_pmmr x)) (lg_headers G0) {} (lg_headers G) {} {}"
    and e: "header_pmmr x = \<lparr>last_pos = mmr_size (length (lg_headers G)), pm_backend = pm_backend (header_pmmr x)\<rparr>"
    using h by (simp_all add: holds_def header_file_def pmmr_eta)
  have "pmmr_get_data (header_be E) (header_pmmr x) (node_pos n 0) = Some (header_as_elmt (ev_ct E) (ev_digest E) (lg_headers G ! n))"
    using element_store.session_read_all [OF header_store [OF K] f(2,1) n(1) e] by (simp add: header_be_def)
  moreover have "u64_add n 1 = Suc n" using n(2) by (simp add: u64_add_def)
  ultimately show ?thesis by (simp add: header_at_def insertion_index header_as_elmt_def)
qed

text \<open>Coinbase outputs that the block spends are below the size of the output range at the cutoff.\<close>

definition matured :: "'bm env \<Rightarrow> 'bm chain_store \<Rightarrow> ledger \<Rightarrow> u64 \<Rightarrow> tx_input \<Rightarrow> nat \<Rightarrow> bool" where
  "matured E s G height inp m \<longleftrightarrow> (i_features inp = CoinbaseOutput \<longrightarrow> coinbase_maturity (ev_ct E) \<le> height \<and>
     (case cs_headers s (ev_hash E (lg_headers G ! (height - coinbase_maturity (ev_ct E)))) of
        None \<Rightarrow> False | Some cutoff_header \<Rightarrow> node_pos m 0 \<le> output_mmr_size cutoff_header))"

lemma fold_max_le: "fold max ps (a :: nat) \<le> c \<longleftrightarrow> a \<le> c \<and> (\<forall>p \<in> set ps. p \<le> c)"
  by (induction ps arbitrary: a) auto

lemma list_all2_set1: "list_all2 R xs ys \<Longrightarrow> x \<in> set xs \<Longrightarrow> \<exists>y \<in> set ys. R x y"
  by (induction rule: list_all2_induct) auto

lemma verify_coinbase_maturity_ok:
  assumes K: "bitmap_laws (ev_K E)" and h: "holds E gone G0 G x"
    and ht: "height = length (lg_headers G)" "0 < coinbase_maturity (ev_ct E)" "height < u64_size"
    and ins: "list_all2 (\<lambda>inp m. cs_output_pos (ext_batch x) (i_commit inp) = Some (node_pos m 0) \<and> matured E (ext_batch x) G height inp m) ins ms"
  shows "verify_coinbase_maturity E ins height x = Some (Inr (), x)"
proof -
  let ?cb = "filter (\<lambda>i. i_features i = CoinbaseOutput) ins" and ?mat = "coinbase_maturity (ev_ct E)"
  let ?ps = "List.map_filter (\<lambda>i. cs_output_pos (ext_batch x) (i_commit i)) ?cb"
  show ?thesis
  proof (cases "fold max ?ps 0 = 0")
    case False
    then have "?cb \<noteq> []" by auto
    then obtain i where i: "i \<in> set ins" "i_features i = CoinbaseOutput" by (auto simp: filter_empty_conv)
    let ?n = "height - ?mat"
    obtain m where m: "matured E (ext_batch x) G height i m" using list_all2_set1 [OF ins i(1)] by blast
    then obtain c where c: "?mat \<le> height" "cs_headers (ext_batch x) (ev_hash E (lg_headers G ! ?n)) = Some c"
      using i(2) by (auto simp: matured_def split: option.splits)
    have "p \<le> output_mmr_size c" if p: "p \<in> set ?ps" for p
    proof -
      obtain j where j: "j \<in> set ins" "i_features j = CoinbaseOutput" "cs_output_pos (ext_batch x) (i_commit j) = Some p"
        using p by (auto simp: List.map_filter_def)
      obtain k where "cs_output_pos (ext_batch x) (i_commit j) = Some (node_pos k 0)" "matured E (ext_batch x) G height j k"
        using list_all2_set1 [OF ins j(1)] by blast
      then show ?thesis using j c by (simp add: matured_def)
    qed
    then have "fold max ?ps 0 \<le> output_mmr_size c" by (simp add: fold_max_le)
    moreover have "header_at E (header_pmmr x) (ext_batch x) ?n = Inr c"
      using header_at_holds [OF K h, of ?n "ext_batch x"] c ht by (simp add: get_block_header_def option_to_not_found_def of_store_def map_err_def)
    ultimately show ?thesis using False c(1) by (simp add: verify_coinbase_maturity_def op_read_def Let_def)
  qed (simp add: verify_coinbase_maturity_def op_read_def Let_def)
qed

lemma utxo_validate_ok:
  assumes K: "bitmap_laws (ev_K E)" and h: "holds E gone G0 G x" and i: "indexed (cs_output_pos (ext_batch x)) G"
    and a: "fresh G (outputs b)" "list_all2 (\<lambda>inp m. unspent G m \<and> from_output (lg_outputs G ! m) = from_input inp) (inputs b) ms"
  shows "utxo_validate E b x = Some (Inr (), x)"
proof -
  have "utxo_validate_output E out x = Inr ()" if "out \<in> set (outputs b)" for out
    using utxo_validate_output_spec [OF K h i, of out] a(1) that by (auto simp: fresh_def)
  moreover have "utxo_validate_input E inp x = Inr ()" if "inp \<in> set (inputs b)" for inp
    using list_all2_set1 [OF a(2) that] utxo_validate_input_spec [OF K h i] spends_same [OF i] by blast
  ultimately show ?thesis by (simp add: utxo_validate_def op_bind_ok op_for_read)
qed

text \<open>A valid block on top of the ledger: its outputs are new, each input spends an unspent output of its own, which
  is mature, and the sums balance.\<close>

definition applies :: "'bm env \<Rightarrow> 'bm chain_store \<Rightarrow> ledger \<Rightarrow> block \<Rightarrow> nat list \<Rightarrow> bool" where
  "applies E s G b ms \<longleftrightarrow> fresh G (outputs (b_body b)) \<and> distinct ms \<and>
     list_all2 (\<lambda>inp m. unspent G m \<and> from_output (lg_outputs G ! m) = from_input inp \<and> matured E s G (h_height (b_header b)) inp m) (inputs (b_body b)) ms"

lemma applies_applicable: "applies E s G b ms \<Longrightarrow> applicable G b ms"
proof -
  assume a: "applies E s G b ms"
  have "list_all2 (\<lambda>inp m. unspent (add_outputs G (outputs (b_body b))) m \<and> from_output ((lg_outputs G @ outputs (b_body b)) ! m) = from_input inp)
      (inputs (b_body b)) ms"
    using a [unfolded applies_def, THEN conjunct2, THEN conjunct2]
    by (rule list_all2_mono) (auto simp: unspent_def add_outputs_eq nth_append)
  then show ?thesis using a by (simp add: applies_def applicable_def)
qed

definition balances :: "'bm env \<Rightarrow> 'bm chain_store \<Rightarrow> block_header \<Rightarrow> block \<Rightarrow> bool" where
  "balances E s prev b = (case (cs_block_sums s (ev_hash E prev), header_overage (ev_ct E) (b_header b)) of
     (Some sums_before, Some overage) \<Rightarrow>
       (case verify_kernel_sums (ev_secp E) (committed_on_sums sums_before (body_committed (b_body b))) overage (total_kernel_offset (b_header b)) of
          Some (Inr _) \<Rightarrow> True | _ \<Rightarrow> False)
   | _ \<Rightarrow> False)"

lemma verify_block_sums_ok:
  assumes "cs_headers (ext_batch x) (prev_hash (b_header b)) = Some prev" and "balances E (ext_batch x) prev b"
  obtains bs where "verify_block_sums E b x = Some (Inr (), x\<lparr>ext_batch := (ext_batch x)\<lparr>cs_block_sums := bs\<rparr>\<rparr>)"
  using assms by (auto simp: verify_block_sums_def balances_def op_bind_def op_read_def op_set_def of_store_def map_err_def get_previous_header_def
      get_block_header_def get_block_sums_def option_to_not_found_def split: option.splits sum.splits prod.splits)

lemma check_and_apply_ok:
  assumes K: "bitmap_laws (ev_K E)" and h: "holds E gone G0 G x" and i: "indexed (cs_output_pos (ext_batch x)) G" and fit: "block_fits E G b"
    and a: "applies E (ext_batch x) G b ms" and m: "header_matches E G (ledger_apply G b ms) (b_header b)"
    and prev: "cs_headers (ext_batch x) (prev_hash (b_header b)) = Some prev" and bal: "balances E (ext_batch x) prev b"
  obtains y bs idx where "check_and_apply E b x = Some (Inr (), y)" "holds E gone G0 (ledger_apply G b ms) y"
    "indexed (cs_output_pos (ext_batch y)) (ledger_apply G b ms)" "ext_batch y = (ext_batch x)\<lparr>cs_block_sums := bs, cs_output_pos := idx\<rparr>"
    "ext_rollback y = ext_rollback x"
proof -
  have ht: "h_height (b_header b) = length (lg_headers G)" using m by (simp add: header_matches_def)
  have "length (lg_headers G) \<le> mmr_size (Suc (length (lg_headers G)))" using mmr_size_ge [of "Suc (length (lg_headers G))"] by simp
  then have "length (lg_headers G) < u64_size" using fit by (simp add: block_fits_def width)
  moreover have "0 < coinbase_maturity (ev_ct E)" by (cases "ev_ct E") (simp_all add: coinbase_maturity_def)
  moreover have "list_all2 (\<lambda>inp m. cs_output_pos (ext_batch x) (i_commit inp) = Some (node_pos m 0) \<and> matured E (ext_batch x) G (h_height (b_header b)) inp m)
      (inputs (b_body b)) ms"
    using a [unfolded applies_def, THEN conjunct2, THEN conjunct2]
    by (rule list_all2_mono) (use spends_same [OF i] in \<open>auto simp: spends_def\<close>)
  ultimately have mat: "verify_coinbase_maturity E (inputs (b_body b)) (h_height (b_header b)) x = Some (Inr (), x)"
    using verify_coinbase_maturity_ok [OF K h] ht by simp
  have "list_all2 (\<lambda>inp m. unspent G m \<and> from_output (lg_outputs G ! m) = from_input inp) (inputs (b_body b)) ms"
    using a [unfolded applies_def, THEN conjunct2, THEN conjunct2] by (rule list_all2_mono) simp
  then have utxo: "utxo_validate E (b_body b) x = Some (Inr (), x)" using utxo_validate_ok [OF K h i] a by (simp add: applies_def)
  obtain bs where s: "verify_block_sums E b x = Some (Inr (), x\<lparr>ext_batch := (ext_batch x)\<lparr>cs_block_sums := bs\<rparr>\<rparr>)"
    using verify_block_sums_ok [OF prev bal] .
  let ?x = "x\<lparr>ext_batch := (ext_batch x)\<lparr>cs_block_sums := bs\<rparr>\<rparr>"
  obtain y where "apply_block_to_txhashset E b ?x = Some (Inr (), y)" "holds E gone G0 (ledger_apply G b ms) y"
      "indexed (cs_output_pos (ext_batch y)) (ledger_apply G b ms)" "same_but_index (ext_batch ?x) (ext_batch y)" "ext_rollback y = ext_rollback ?x"
    using apply_block_to_txhashset_ok [OF K, of gone G0 G ?x b ms] h i fit applies_applicable [OF a] m by auto
  then show thesis using mat utxo s that by (auto simp: check_and_apply_def op_bind_ok same_but_index_def)
qed

text \<open>The ranges hold the ledger, and nothing else is in their buffers.\<close>

definition rests :: "'bm env \<Rightarrow> nat set \<Rightarrow> ledger \<Rightarrow> 'bm chain_ctx \<Rightarrow> bool" where
  "rests E gone G z \<longleftrightarrow> holds E gone G G (extension_new (fst z) (snd z) (header_default (ev_ct E))) \<and> indexed (cs_output_pos (snd z)) G"

lemma rests_new: "rests E gone G (t, s) \<longleftrightarrow> holds E gone G G (extension_new t s' h) \<and> indexed (cs_output_pos s) G"
  by (simp add: rests_def holds_def extension_new_def)

lemma file_syncs:
  assumes K: "bitmap_laws (ev_K E)"
  shows "header_file E b hs0 hs \<Longrightarrow> \<exists>b'. backend_sync b = Some (Inr b') \<and> header_file E b' hs hs"
    and "output_file E gone b os0 live0 os live \<Longrightarrow> \<exists>b'. backend_sync b = Some (Inr b') \<and> output_file E gone b' os live os live"
    and "rproof_file E gone b ps0 live0 ps live \<Longrightarrow> \<exists>b'. backend_sync b = Some (Inr b') \<and> rproof_file E gone b' ps live ps live"
    and "kernel_file E b ks0 ks \<Longrightarrow> \<exists>b'. backend_sync b = Some (Inr b') \<and> kernel_file E b' ks ks"
  unfolding header_file_def output_file_def rproof_file_def kernel_file_def
  using element_store.session_sync [OF header_store [OF K], of _ _ _ b hs0 "{}" hs "{}" "{}"]
    element_store.session_sync [OF output_store [OF K], of _ _ _ b os0 live0 os live gone]
    element_store.session_sync [OF rangeproof_store [OF K], of _ "\<lambda>p. p" _ _ b ps0 live0 ps live gone]
    element_store.session_sync [OF kernel_store [OF K], of from_kernel _ _ b ks0 "{}" ks "{}" "{}"]
  by fastforce+

lemma extending_commit:
  assumes K: "bitmap_laws (ev_K E)" and hd: "head_header s = Inr header" and run: "inner (extension_new t s header) = Some (Inr v, x)" "\<not> ext_rollback x"
    and h: "holds E gone G0 G x" and i: "indexed (cs_output_pos (ext_batch x)) G"
  obtains t' where "extending inner (t, s) = Some (Inr v, (t', ext_batch x))" "rests E gone G (t', ext_batch x)"
proof -
  obtain hb ob rb kb where sy:
      "backend_sync (pm_backend (header_pmmr x)) = Some (Inr hb)" "header_file E hb (lg_headers G) (lg_headers G)"
      "backend_sync (pm_backend (output_pmmr x)) = Some (Inr ob)" "output_file E gone ob (lg_outputs G) (lg_live G) (lg_outputs G) (lg_live G)"
      "backend_sync (pm_backend (rproof_pmmr x)) = Some (Inr rb)"
      "rproof_file E gone rb (map o_proof (lg_outputs G)) (lg_live G) (map o_proof (lg_outputs G)) (lg_live G)"
      "backend_sync (pm_backend (kernel_pmmr x)) = Some (Inr kb)" "kernel_file E kb (lg_kernels G) (lg_kernels G)"
    using h file_syncs [OF K] unfolding holds_def by metis
  let ?t = "t\<lparr>header_pmmr_h := \<lparr>ph_backend = hb, ph_last_pos = last_pos (header_pmmr x)\<rparr>,
      output_pmmr_h := \<lparr>ph_backend = ob, ph_last_pos = last_pos (output_pmmr x)\<rparr>,
      rproof_pmmr_h := \<lparr>ph_backend = rb, ph_last_pos = last_pos (rproof_pmmr x)\<rparr>,
      kernel_pmmr_h := \<lparr>ph_backend = kb, ph_last_pos = last_pos (kernel_pmmr x)\<rparr>\<rparr>"
  have "extending inner (t, s) = Some (Inr v, (?t, ext_batch x))"
    using hd run sy by (simp add: extending_def of_store_def map_err_def give_back_def sync_handle_def op_bind_def op_set_def op_ok_def)
  moreover have "rests E gone G (?t, ext_batch x)"
    using h i sy by (simp add: rests_def holds_def extension_new_def)
  ultimately show thesis by (rule that)
qed

lemma header_file_discard: "bitmap_laws (ev_K E) \<Longrightarrow> header_file E b hs0 hs \<Longrightarrow> header_file E (backend_discard b) hs0 hs0"
  unfolding header_file_def using element_store.session_discard(1,3) [OF header_store] by blast

lemma update_header_head_ok:
  assumes "cs_header_head s = Some hhead"
  shows "\<exists>v hh'. update_header_head P h (t, s) = Some (Inr v, (t, s\<lparr>cs_header_head := hh'\<rparr>))"
proof (cases "has_more_work h hhead")
  case False
  then have "update_header_head P h (t, s) = Some (Inr None, (t, s\<lparr>cs_header_head := cs_header_head s\<rparr>))"
    using assms by (simp add: update_header_head_def op_bind_def op_store_def op_read_def op_ok_def get_header_head_def option_to_not_found_def
        of_store_def map_err_def)
  then show ?thesis by blast
qed (use assms in \<open>auto simp: update_header_head_def op_bind_def op_store_def op_read_def op_ok_def op_set_def get_header_head_def option_to_not_found_def
        of_store_def map_err_def Let_def\<close>)

lemma process_header_ok:
  assumes K: "bitmap_laws (ev_K (pe_env P))" and r: "rests (pe_env P) gone G (t, s)" and hd: "head_header s = Inr header"
    and fit: "header_entry_ok (header_as_elmt (pe_ct P) (ev_digest (pe_env P)) h)" "2 * mmr_size (Suc (length (lg_headers G))) < u32_size"
    and root: "map_option r_header_root (ledger_roots (pe_env P) G) = Some (prev_root h)" "0 < h_height h"
    and valid: "validate_header P h s = Some (Inr ())" and hh: "cs_header_head s = Some hhead"
  obtains t' hh' where "process_header_for_block P h False (t, s) =
      Some (Inr (), (t', (save_block_header (pe_ct P) (ev_digest (pe_env P)) s h)\<lparr>cs_header_head := hh'\<rparr>))" "rests (pe_env P) gone G (t', s)"
proof -
  let ?E = "pe_env P" and ?x = "\<lparr>hx_header = header, hx_pmmr = handle_pmmr (header_pmmr_h t), hx_rollback = True, hx_batch = s\<rparr>"
  let ?n = "length (lg_headers G)" and ?b = "ph_backend (header_pmmr_h t)"
  have f: "header_file ?E ?b (lg_headers G) (lg_headers G)" and lp: "ph_last_pos (header_pmmr_h t) = mmr_size ?n"
    using r by (simp_all add: rests_def holds_def extension_new_def)
  obtain b' where b': "pmmr_push (header_be ?E) (header_leaf ?E) (parent_hash ?E) \<lparr>last_pos = mmr_size ?n, pm_backend = ?b\<rparr> h =
      Inr (node_pos ?n 0, \<lparr>last_pos = mmr_size (Suc ?n), pm_backend = b'\<rparr>)" "header_file ?E b' (lg_headers G) (lg_headers G @ [h])"
    using header_push [OF K f fit] by blast
  have vr: "hx_validate_root ?E h ?x = Some (Inr (), ?x)"
    using root file_roots(1) [OF K f] lp by (auto simp: hx_validate_root_def op_read_def hx_root_def ledger_roots_def split: Option.bind_splits)
  let ?y = "?x\<lparr>hx_pmmr := \<lparr>last_pos = mmr_size (Suc ?n), pm_backend = b'\<rparr>, hx_header := h\<rparr>"
  obtain rt where "hx_root ?E ?y = Some rt"
    using file_roots(1) [OF K b'(2)] range_root_Some [of "header_leaf ?E" "parent_hash ?E" ZERO_HASH "lg_headers G @ [h]"] by (auto simp: hx_root_def)
  then have ap: "hx_apply_header ?E h ?x = Some (Inr rt, ?y)"
    using b'(1) lp by (simp add: hx_apply_header_def op_bind_def op_str_def op_set_def op_read_def)
  let ?t = "t\<lparr>header_pmmr_h := handle_discard ((header_pmmr_h t)\<lparr>ph_backend := b'\<rparr>)\<rparr>"
  let ?inner = "op_bind (op_set (\<lambda>x. x\<lparr>hx_rollback := True\<rparr>)) (\<lambda>_.
       op_bind (if False then rewind_and_apply_header_fork ?E h else op_ok ()) (\<lambda>_.
       op_bind (hx_validate_root ?E h) (\<lambda>_. op_bind (hx_apply_header ?E h) (\<lambda>_. op_ok ()))))"
  have "op_bind (op_ok ()) f z = f () z" for f :: "unit \<Rightarrow> ('a header_extension, unit) op" and z by (simp add: op_bind_def op_ok_def)
  then have inner: "?inner \<lparr>hx_header = header, hx_pmmr = handle_pmmr (header_pmmr_h t), hx_rollback = False, hx_batch = s\<rparr> = Some (Inr (), ?y)"
    by (simp add: op_bind_ok [of "hx_validate_root ?E h", OF vr] op_bind_ok [of "hx_apply_header ?E h", OF ap] op_ok_def)
  have unit: "header_extending ?inner (t, s) = Some (Inr (), (?t, s))"
    unfolding header_extending_def header_range_extending_def
    using hd inner by (simp add: head_header_def of_store_def map_err_def)
  have "rests ?E gone G (?t, s)"
    using r header_file_discard [OF K b'(2)] by (simp add: rests_def holds_def extension_new_def handle_discard_def)
  moreover obtain v hh' where "update_header_head P h (?t, save_block_header (pe_ct P) (ev_digest ?E) s h) =
      Some (Inr v, (?t, (save_block_header (pe_ct P) (ev_digest ?E) s h)\<lparr>cs_header_head := hh'\<rparr>))"
    using update_header_head_ok [of "save_block_header (pe_ct P) (ev_digest ?E) s h" hhead P h ?t] hh by (auto simp: save_block_header_def)
  ultimately show thesis using unit valid
    by (intro that [of ?t]) (simp_all add: process_header_for_block_def op_bind_ok op_store_def op_read_def op_bind_def op_ok_def op_set_def)
qed

text \<open>Saving the header changes nothing for the checks of the block.\<close>

lemma applies_saved:
  assumes "cs_headers s (pe_hash P (b_header b)) \<in> {None, Some (b_header b)}" and "applies (pe_env P) s G b ms"
  shows "applies (pe_env P) ((save_block_header (pe_ct P) (ev_digest (pe_env P)) s (b_header b))\<lparr>cs_header_head := hh\<rparr>) G b ms"
proof -
  let ?s = "(save_block_header (pe_ct P) (ev_digest (pe_env P)) s (b_header b))\<lparr>cs_header_head := hh\<rparr>"
  have "matured (pe_env P) ?s G ht inp m" if "matured (pe_env P) s G ht inp m" for ht inp m
    using that assms(1) by (auto simp: matured_def save_block_header_def split: option.splits if_splits)
  then have "list_all2 (\<lambda>inp m. unspent G m \<and> from_output (lg_outputs G ! m) = from_input inp \<and> matured (pe_env P) ?s G (h_height (b_header b)) inp m)
      (inputs (b_body b)) ms"
    using assms(2) [unfolded applies_def, THEN conjunct2, THEN conjunct2] by (auto elim!: list_all2_mono)
  then show ?thesis using assms(2) by (simp add: applies_def)
qed

lemma extend_with_block_ok:
  assumes run: "check_and_apply (pe_env P) b x = Some (Inr (), y)" and head: "cs_head (ext_batch y) = Some head" "has_more_work (b_header b) head"
  shows "extend_with_block P b False x = Some (Inr (), y)"
proof -
  have "op_bind (op_ok ()) f z = f () z" for f :: "unit \<Rightarrow> ('a extension, unit) op" and z by (simp add: op_bind_def op_ok_def)
  then show ?thesis using head
    by (simp add: extend_with_block_def op_bind_ok [of "check_and_apply (pe_env P) b", OF run])
      (simp add: op_bind_def op_read_def op_ok_def get_head_def option_to_not_found_def of_store_def map_err_def)
qed

lemma finish_block_head:
  assumes "cs_head s = Some head" and "has_more_work (b_header b) head"
  shows "\<exists>s'. finish_block P b (t, s) = Some (Inr (cs_head s'), (t, s')) \<and> cs_output_pos s' = cs_output_pos s \<and>
    cs_head s' = Some (tip_from_header (pe_ct P) (ev_digest (pe_env P)) (b_header b)) \<and> cs_blocks s' (pe_hash P (b_header b)) = Some b"
proof -
  let ?tip = "tip_from_header (pe_ct P) (ev_digest (pe_env P)) (b_header b)"
  let ?s1 = "save_block (pe_ct P) (ev_digest (pe_env P)) (ev_K (pe_env P)) s b"
  let ?s2 = "if cs_tail ?s1 = None then ?s1\<lparr>cs_tail := Some ?tip\<rparr> else ?s1"
  have s1: "cs_head ?s1 = Some head" "cs_output_pos ?s1 = cs_output_pos s" "cs_blocks ?s1 (pe_hash P (b_header b)) = Some b"
    using assms(1) by (simp_all add: save_block_def build_and_store_block_input_bitmap_def Let_def)
  then have "cs_head ?s2 = Some head" by simp
  then have "update_head P b (t, ?s2) = Some (Inr (Some ?tip), (t, ?s2\<lparr>cs_head := Some ?tip\<rparr>))"
    using assms(2) by (simp add: update_head_def op_bind_ok op_store_def op_read_def get_head_def option_to_not_found_def of_store_def map_err_def Let_def op_ok_def
        op_bind_def op_set_def)
  then show ?thesis using s1 by (intro exI [of _ "?s2\<lparr>cs_head := Some ?tip\<rparr>"]) (simp add: finish_block_def)
qed

lemma process_block_steps:
  assumes "check_known P b s = Inr ()" and "cs_head s = Some head" and "prev_hash (b_header b) = last_block_h head"
    and "cs_headers s (last_block_h head) = Some prev"
    and h: "process_header_for_block P (b_header b) False (t, s) = Some (Inr (), (t1, s1))" and v: "validate_block P b s1 = Some (Inr ())"
    and x: "extending (extend_with_block P b False) (t1, s1) = Some (Inr (), z)"
  shows "process_block P b (t, s) = finish_block P b z"
proof -
  have st: "op_bind (op_store f) g (t, s) = g v (t, s)" if "f s = Some (Inr v)" for f g v t s
    using that by (simp add: op_bind_def op_store_def op_read_def)
  have hd: "of_store (get_head s) = Inr head" and pv: "prev_header_store (b_header b) s = Inr prev"
    using assms(2-4) by (simp_all add: get_head_def option_to_not_found_def of_store_def map_err_def prev_header_store_def get_previous_header_def get_block_header_def)
  show ?thesis
    by (simp add: process_block_def Let_def finish_block_def [symmetric] op_bind_ok [of "process_header_for_block P (b_header b) False", OF h] assms(3)
      op_bind_ok [of "extending (extend_with_block P b False)", OF x] st [of "validate_block P b" s1 "()", OF v] st [of "\<lambda>s. Some (check_known P b s)" s] assms(1)
      st [of "\<lambda>s. Some (of_store (get_head s))" s head] hd st [of "\<lambda>s. Some (prev_header_store (b_header b) s)" s prev] pv st [of "\<lambda>s. Some (Inr ())"])
qed

subsection \<open>An accepted block\<close>

text \<open>A chain with one header and a block that mines the first reward, under a policy of one algorithm only.\<close>

definition small_env :: "nat list pipe_env" where
  "small_env = \<lparr>pe_env = \<lparr>ev_ct = Mainnet, ev_digest = (\<lambda>_. hash_of (replicate 32 1)), ev_K = list_bitmap, ev_mps = 1, ev_secp = int_secp\<rparr>,
     pe_policy = \<lparr>allowed_policies = [\<lparr>ap_height = 0, ap_value = 1\<rparr>], policies = [Feijoada.full (\<lambda>a. if a = RandomX then 100 else 0)]\<rparr>,
     pe_skip_pow = True, pe_pow_verifier = (\<lambda>_. True), pe_now = 1000, pe_orphans = (\<lambda>_. False),
     pe_foundation = \<lparr>ff_bytes = [], ff_parse = (\<lambda>_. None)\<rparr>, pe_u256 = (\<lambda>_. 1), pe_progpow_value = (\<lambda>_ _ _. [])\<rparr>"

definition small_block :: block where
  "small_block = \<lparr>b_header = (header_default Mainnet)\<lparr>h_height := 1, h_timestamp := 5, prev_hash := hash_of (replicate 32 2),
       prev_root := hash_of (replicate 32 1), output_root := hash_of (replicate 32 1), range_proof_root := hash_of (replicate 32 1),
       kernel_root := hash_of (replicate 32 1), output_mmr_size := 1, kernel_mmr_size := 1,
       h_pow := (proof_of_work_default Mainnet)\<lparr>total_difficulty := difficulty_from_num 2, pow_proof := RandomXProof (replicate 32 0), pow_seed := replicate 32 2\<rparr>\<rparr>,
     b_body = \<lparr>inputs = [], outputs = [\<lparr>o_features = CoinbaseOutput, o_commit = [0, 1457920000] @ replicate 31 0, o_proof = [0]\<rparr>],
       kernels = [\<lparr>k_features = CoinbaseKernel, fee = 0, lock_height = 0, excess = replicate 33 0, excess_sig = replicate 64 0\<rparr>]\<rparr>\<rparr>"

definition small_store :: "nat list chain_store" where
  "small_store = \<lparr>cs_head = Some \<lparr>tip_height = 0, last_block_h = hash_of (replicate 32 2), prev_block_h = ZERO_HASH, tip_total_difficulty = difficulty_from_num 1\<rparr>,
     cs_tail = None,
     cs_header_head = Some \<lparr>tip_height = 0, last_block_h = hash_of (replicate 32 2), prev_block_h = ZERO_HASH, tip_total_difficulty = difficulty_from_num 1\<rparr>,
     cs_sync_head = None, cs_headers = [hash_of (replicate 32 2) \<mapsto> header_default Mainnet], cs_blocks = Map.empty, cs_output_pos = Map.empty,
     cs_input_bitmap = Map.empty, cs_block_sums = [hash_of (replicate 32 1) \<mapsto> \<lparr>utxo_sum = [0, 0], kernel_sum = [0, 0]\<rparr>]\<rparr>"

definition small_ledger :: ledger where
  "small_ledger = \<lparr>lg_headers = [header_default Mainnet], lg_outputs = [], lg_live = {}, lg_kernels = []\<rparr>"

lemma small_hash: "pe_hash small_env h = hash_of (replicate 32 1)"
  by (simp add: small_env_def header_hash_def)

lemma small_check_known: "check_known small_env small_block small_store = Inr ()"
  by (simp add: check_known_def check_known_head_def check_known_orphans_def check_known_store_def small_hash)
    (simp add: small_env_def small_store_def get_head_def option_to_not_found_def of_store_def map_err_def hash_of_eq ZERO_HASH_def)

lemma small_bad_header: "check_bad_header small_env h = Inr ()"
proof -
  have ne: "hash_of (be_bytes 32 n) \<noteq> hash_of (replicate 32 1)" if "n mod 256 \<noteq> 1" for n
  proof
    have 32: "(32 :: nat) = Suc 31" by simp
    have "last (be_bytes 32 n) = n mod 256" by (simp only: 32 be_bytes.simps last_snoc)
    moreover have "last (replicate 32 (1 :: nat)) = 1" by simp
    moreover assume "hash_of (be_bytes 32 n) = hash_of (replicate 32 1)"
    ultimately show False using that by (simp only: hash_of_eq length_be_bytes length_replicate)
  qed
  show ?thesis unfolding check_bad_header_def small_hash bad_hashes_def list.map set_simps
    by (rule if_not_P) (use ne [THEN not_sym] in simp)
qed

lemma small_next_policy: "\<exists>b. next_policy (pe_policy small_env) 0 [] = Some (RandomX, b)"
proof -
  let ?P = "\<lambda>a. if a = RandomX then 100 else (0 :: nat)"
  obtain a where a: "choose_algo (Feijoada.full ?P) get_bottles_default = Some a" "0 < ?P a"
    using choose_algo_room [of ?P "\<lambda>_. 0"] by (auto simp: get_bottles_default_full beans_simp)
  then show ?thesis by (auto simp: next_policy_def get_policies_def small_env_def split: if_splits)
qed

lemma small_fields:
  "h_height (b_header small_block) = 1" "h_policy (b_header small_block) = 0" "pow_seed (h_pow (b_header small_block)) = replicate 32 2"
  "pow_proof (h_pow (b_header small_block)) = RandomXProof (replicate 32 0)" "prev_hash (b_header small_block) = hash_of (replicate 32 2)"
  "get_block_header small_store (hash_of (replicate 32 2)) = Inr (header_default Mainnet)" "h_height (header_default Mainnet) = 0"
  "total_kernel_offset (header_default Mainnet) = blinding_zero"
  by (simp_all add: small_block_def small_store_def header_default_def get_block_header_def option_to_not_found_def)

lemma small_validate_header: "validate_header small_env (b_header small_block) small_store = Some (Inr ())"
proof -
  obtain b where b: "next_policy (pe_policy small_env) 0 [] = Some (RandomX, b)" using small_next_policy by blast
  have "validate_header_alone small_env (b_header small_block) = Inr ()"
    unfolding validate_header_alone_def small_bad_header
    by (simp add: small_env_def small_block_def header_default_def valid_header_version_def BLOCK_TIME_SEC_def)
  moreover have "prev_header_store (b_header small_block) small_store = Inr (header_default Mainnet)"
    by (simp add: prev_header_store_def get_previous_header_def get_block_header_def option_to_not_found_def map_err_def small_block_def small_store_def)
  moreover have "validate_header_policy small_env (b_header small_block) (header_default Mainnet) small_store = Some (Inr ())"
  proof -
    have "is_allowed_policy (allowed_policies (pe_policy small_env)) 1 0 = Some True"
      by (simp add: is_allowed_policy_def policy_search_def small_env_def u64_shl_def max_by_def)
    moreover have "bottle_next small_store 0 (cs_headers small_store (pe_hash small_env (header_default Mainnet))) = None"
      unfolding small_hash by (simp add: small_store_def bottle_next_def hash_of_eq)
    moreover have "get_policies (pe_policy small_env) 0 \<noteq> None" by (simp add: get_policies_def small_env_def)
    ultimately show ?thesis unfolding validate_header_policy_def small_fields using b by (simp add: small_fields rx_current_seed_height_def is_correct_algo_def)
  qed
  moreover have "validate_header_succession small_env (b_header small_block) (header_default Mainnet) = Inr ()"
    by (simp add: validate_header_succession_def small_block_def header_default_def width)
  ultimately show ?thesis by (simp add: validate_header_def) (simp add: small_env_def)
qed

lemma small_reward:
  "reward_at_height 1 = Some 1457920000" "add_reward_foundation Mainnet 1 = Some 0" "is_foundation_height Mainnet 1 = Some False"
  using reward_at_height_closed [of 1] add_reward_foundation_closed [of 1] is_foundation_height_closed [of 1]
  by (simp_all add: levy_index_def reward_early foundation_part_def foundation_rate_def levy_rate_def)

lemma small_overage: "header_overage Mainnet (b_header small_block) = Some (- 1457920000)"
  using small_reward small_fields(1) by (simp add: header_overage_def checked_neg_or_0_def width)

lemma small_nonzero: "0 # 1457920000 # bs \<noteq> commit_to_zero_value" "[0, 0] \<noteq> commit_to_zero_value" "replicate 33 0 = commit_to_zero_value"
  by (auto simp: commit_to_zero_value_def PEDERSEN_COMMITMENT_SIZE_def dest: arg_cong [of _ _ length] arg_cong [of _ _ "\<lambda>xs. xs ! 1"])

lemma small_validate_block: "validate_block small_env small_block small_store = Some (Inr ())"
proof -
  have kern: "verify_kernels int_secp hash (kernels (b_body small_block)) = Inr ()" for hash
    by (simp add: small_block_def kernel_verify_def kernel_is_coinbase_def kernel_is_height_locked_def int_secp_def map_err_def msg_to_sign_def kernel_sig_msg_def)
  have body: "body_validate Mainnet int_secp hash (b_body small_block) AsBlock = Inr ()" for hash
    unfolding body_validate_def body_validate_read_def kern
    by (simp add: small_block_def verify_sorted_def verify_cut_through_def
        verify_weight_def body_weight_as_block_def weight_as_block_def BLOCK_INPUT_WEIGHT_def BLOCK_OUTPUT_WEIGHT_def
        BLOCK_KERNEL_WEIGHT_def max_block_weight_def batch_verify_proofs_def int_secp_def map_err_def u64_sat_add_def u64_sat_mul_def)
  have cb: "verify_coinbase Mainnet int_secp f small_block = Some (Inr ())" for f
    using small_reward small_fields(1) by (simp add: verify_coinbase_def coinbase_sums_def reward_foundation_def reward_def block_total_fees_def
        small_block_def int_secp_def map_err_def u64_sat_add_def width output_is_coinbase_def kernel_is_coinbase_def enc_int_def dec_zeros)
  have ofs: "block_kernel_offset int_secp small_block blinding_zero = Inr blinding_zero"
    by (simp add: block_kernel_offset_def small_block_def header_default_def)
  have "\<exists>ks. block_validate Mainnet int_secp hash f small_block blinding_zero = Some (Inr ks)" for hash f
    using body [of hash] cb [of f] ofs small_overage unfolding block_validate_def
    by (simp add: map_err_def verify_kernel_sums_def sum_commitments_def sum_commits_def sum_kernel_excesses_def secret_key_def
        int_secp_def body_committed_def small_block_def enc_int_def dec_zeros small_nonzero)
  then obtain ks where "block_validate Mainnet int_secp (pe_hash_fun small_env) (pe_foundation small_env) small_block blinding_zero = Some (Inr ks)" by blast
  moreover have "pe_ct small_env = Mainnet" "ev_secp (pe_env small_env) = int_secp" by (simp_all add: small_env_def)
  ultimately show ?thesis by (simp add: validate_block_def get_previous_header_def small_fields of_store_def map_err_def)
qed

lemma small_balances: "balances (pe_env small_env) small_store (header_default Mainnet) small_block"
proof -
  have "cs_block_sums small_store (pe_hash small_env (header_default Mainnet)) = Some \<lparr>utxo_sum = [0, 0], kernel_sum = [0, 0]\<rparr>"
    unfolding small_hash by (simp add: small_store_def)
  moreover have "header_overage (pe_ct small_env) (b_header small_block) = Some (- 1457920000)" "ev_secp (pe_env small_env) = int_secp"
    using small_overage by (simp_all add: small_env_def)
  moreover have "\<exists>r. verify_kernel_sums int_secp (committed_on_sums \<lparr>utxo_sum = [0, 0], kernel_sum = [0, 0]\<rparr> (body_committed (b_body small_block)))
      (- 1457920000) (total_kernel_offset (b_header small_block)) = Some (Inr r)"
    by (simp add: verify_kernel_sums_def sum_commitments_def sum_commits_def sum_kernel_excesses_def committed_on_sums_def int_secp_def body_committed_def
        small_block_def header_default_def enc_int_def dec_zeros map_err_def small_nonzero)
  ultimately show ?thesis by (auto simp: balances_def)
qed

lemma small_fits: "block_fits (pe_env small_env) small_ledger small_block"
  by (simp add: block_fits_def small_env_def small_ledger_def small_block_def output_fits_def output_identifier_ok_def from_output_def range_proof_ok_def
      kernel_ok_def header_entry_ok_def header_as_elmt_def header_default_def PEDERSEN_COMMITMENT_SIZE_def AGG_SIGNATURE_SIZE_def mmr_size_def count_ones.simps
      width pow_types_def difficulty_from_num_def number_def proof_of_work_default_def u64_of_i64_def)

lemma small_applies: "applies (pe_env small_env) small_store small_ledger small_block []"
  by (simp add: applies_def fresh_def small_block_def small_ledger_def unspent_def)

lemma small_more_work: "has_more_work (b_header small_block) \<lparr>tip_height = 0, last_block_h = hash_of (replicate 32 2), prev_block_h = ZERO_HASH, tip_total_difficulty = difficulty_from_num 1\<rparr>"
  by (simp add: has_more_work_def small_block_def difficulty_less_def difficulty_sum_def difficulty_from_num_def number_def pow_types_def)

lemma range_root_single: "range_root hl hn z [x] = Some (hl x 0)"
proof -
  have "peaks (Suc 0) = [Suc 0]" by (simp add: peaks_def top_peak_size_def peaks_loop.simps Let_def bit_len.simps)
  moreover have "mmr_size (Suc 0) = Suc 0" "node_pos 0 0 = Suc 0" by (simp_all add: mmr_size_def count_ones.simps node_pos_def)
  ultimately show ?thesis using tree_hash_node [of 0 0 hl hn "[x]"] by (simp add: range_root_def bag_def)
qed

lemma small_leaves:
  "header_leaf (pe_env small_env) h n = hash_of (replicate 32 1)" "output_leaf (pe_env small_env) out n = hash_of (replicate 32 1)"
  "rproof_leaf (pe_env small_env) p n = hash_of (replicate 32 1)" "kernel_leaf (pe_env small_env) k n = hash_of (replicate 32 1)"
  by (simp_all add: header_leaf_def output_leaf_def rproof_leaf_def kernel_leaf_def small_env_def hash_with_index_def header_hash_with_index_def)

lemma small_matches: "header_matches (pe_env small_env) small_ledger (ledger_apply small_ledger small_block []) (b_header small_block)"
proof -
  let ?E = "pe_env small_env" and ?G = "ledger_apply small_ledger small_block []" and ?c = "hash_of (replicate 32 1)"
  have G: "lg_outputs ?G = outputs (b_body small_block)" "lg_kernels ?G = kernels (b_body small_block)"
    by (simp_all add: ledger_apply_def spend_all_def add_outputs_eq small_ledger_def)
  obtain r where r: "range_root (header_leaf ?E) (parent_hash ?E) ZERO_HASH (lg_headers ?G) = Some r" using range_root_Some [of "header_leaf ?E" "parent_hash ?E" ZERO_HASH "lg_headers ?G"] by (elim exE)
  have "ledger_roots ?E ?G = Some \<lparr>r_header_root = r, r_output_root = ?c, r_rproof_root = ?c, r_kernel_root = ?c\<rparr>"
    unfolding ledger_roots_def r G by (simp add: small_block_def range_root_single small_leaves)
  moreover have "\<exists>r. ledger_roots ?E small_ledger = Some r \<and> r_header_root r = ?c"
    by (simp add: ledger_roots_def small_ledger_def range_root_single small_leaves range_root_def [where xs = "[]"])
  moreover have "mmr_size (Suc 0) = 1" by (simp add: mmr_size_def count_ones.simps)
  ultimately show ?thesis unfolding header_matches_def G
    by (auto simp: small_fields) (auto simp: small_ledger_def small_block_def)
qed

lemma small_rests: "\<exists>t. rests (pe_env small_env) {} small_ledger (t, small_store)"
proof -
  let ?E = "pe_env small_env"
  have K: "bitmap_laws (ev_K ?E)" by (simp add: small_env_def list_bitmap_laws)
  have z: "mmr_size 0 = 0" "mmr_size (Suc 0) = 1" by (simp_all add: mmr_size_def count_ones.simps)
  obtain hb0 where "header_file ?E hb0 [] []"
    using element_store.session_new [OF header_store [OF K], where prunable = False] unfolding header_file_def by fast
  then obtain hb1 where "header_file ?E hb1 [] [header_default Mainnet]"
    using header_push [OF K, of hb0 "[]" "[]" "header_default Mainnet"]
    by (auto simp: z width header_entry_ok_def header_as_elmt_def header_default_def pow_types_def difficulty_from_num_def number_def proof_of_work_default_def u64_of_i64_def)
  then obtain hb where hb: "header_file ?E hb [header_default Mainnet] [header_default Mainnet]" using file_syncs(1) [OF K] by blast
  obtain ob where ob: "output_file ?E {} ob [] {} [] {}"
    using element_store.session_new [OF output_store [OF K], where prunable = True] unfolding output_file_def by fast
  obtain rb where rb: "rproof_file ?E {} rb [] {} [] {}"
    using element_store.session_new [OF rangeproof_store [OF K], where prunable = True] unfolding rproof_file_def by fast
  obtain kb where kb: "kernel_file ?E kb [] []"
    using element_store.session_new [OF kernel_store [OF K], where prunable = False] unfolding kernel_file_def by fast
  let ?t = "\<lparr>header_pmmr_h = \<lparr>ph_backend = hb, ph_last_pos = 1\<rparr>, sync_pmmr_h = \<lparr>ph_backend = hb, ph_last_pos = 1\<rparr>,
    output_pmmr_h = \<lparr>ph_backend = ob, ph_last_pos = 0\<rparr>, rproof_pmmr_h = \<lparr>ph_backend = rb, ph_last_pos = 0\<rparr>, kernel_pmmr_h = \<lparr>ph_backend = kb, ph_last_pos = 0\<rparr>\<rparr>"
  have "rests ?E {} small_ledger (?t, small_store)"
    using hb ob rb kb by (simp add: rests_def holds_def extension_new_def small_ledger_def z indexed_def unspent_def) (simp add: small_store_def)
  then show ?thesis by blast
qed

definition example_handle :: "nat list pmmr_handle" where
  "example_handle = \<lparr>ph_backend = \<lparr>pb_prunable = False,
     pb_hash_file = AppendOnlyFile (FixedSize 32) \<lparr>on_disk = replicate 32 0, mmap = Some (replicate 32 0), buffer = [], buffer_start_pos = 1, buffer_start_pos_bak = 0\<rparr>,
     pb_data_file = AppendOnlyFile (FixedSize 1) \<lparr>on_disk = [7], mmap = Some [7], buffer = [], buffer_start_pos = 1, buffer_start_pos_bak = 0\<rparr>,
     pb_leaf_set = leaf_set_open [], pb_prune_list = \<lparr>pl_bitmap = [], pl_pruned_cache = [], pl_shift_cache = [], pl_leaf_shift_cache = []\<rparr>\<rparr>,
     ph_last_pos = 1\<rparr>"

definition example_trees :: "nat list txhashset" where
  "example_trees = \<lparr>header_pmmr_h = example_handle, sync_pmmr_h = example_handle, output_pmmr_h = example_handle,
     rproof_pmmr_h = example_handle, kernel_pmmr_h = example_handle\<rparr>"

lemma example_trees_settled: "settled_trees example_trees"
  by (simp add: example_trees_def example_handle_def settled_trees_def settled_def handle_discard_def backend_discard_def discard_raw_def
      leaf_set_discard_def leaf_set_open_def anchored_backend_def)

section \<open>Properties\<close>

text \<open>C2: a block that does not become the new head leaves no trace in the ranges. From ranges at rest, whatever
  the block, on the chain or on a fork, and whatever else is in the database: \<open>process_block\<close> either makes the
  block the head, which then has strictly more work than the head before; or it fails, or keeps the block on
  the side, and then every range is exactly what it was before and so is the head. The one exception is an error
  while the files are written at the end.\<close>

theorem process_block_atomic:
  assumes "settled_trees t" and "process_block P b (t, s) = Some (r, (t', s'))" and "r \<noteq> Inl (TxHashSetErr ''io'')"
  shows "(\<exists>tip head. r = Inr (Some tip) \<and> cs_head s' = Some tip \<and> tip = tip_from_header (pe_ct P) (ev_digest (pe_env P)) (b_header b) \<and>
       cs_head s = Some head \<and> difficulty_less (tip_total_difficulty head) (tip_total_difficulty tip)) \<or>
    ((r = Inr None \<or> (\<exists>e. r = Inl e)) \<and> t' = t \<and> cs_head s' = cs_head s)"
  using assms(1,2)
proof (cases rule: process_block_cases)
  case (late fork s1)
  note k = keeps_extend_with_block [of P b fork]
  from late(2) show ?thesis
  proof (cases rule: op_bind_cases)
    case (err e)
    from assms(1) k err(1) show ?thesis by (cases rule: extending_cases) (use err assms(3) late(1) in auto)
  next
    case (ok v z)
    obtain t2 s2 where z: "z = (t2, s2)" by fastforce
    from assms(1) k ok(1) [unfolded z] show ?thesis
    proof (cases rule: extending_cases)
      case (rollback header w x)
      then obtain head where head: "cs_head s1 = Some head" "\<not> has_more_work (b_header b) head"
        using extend_with_block_head(2) [OF rollback(1)] by (auto simp: extension_new_def)
      then show ?thesis using finish_block_run(1,3) [OF ok(2) [unfolded z], of head] rollback late(1) by auto
    next
      case (commit header w x)
      then obtain head where head: "cs_head s1 = Some head" "has_more_work (b_header b) head" "cs_head s2 = Some head"
        using extend_with_block_head [OF commit(1)] by (auto simp: extension_new_def)
      then show ?thesis using finish_block_run(2) [OF ok(2) [unfolded z], of head] late(1) by (auto simp: has_more_work_def tip_from_header_def)
    qed simp
  qed
qed simp

theorem process_block_atomic_witness:
  "\<exists>s'. process_block small_env (small_block\<lparr>b_header := (b_header small_block)\<lparr>prev_hash := hash_of (replicate 32 3)\<rparr>\<rparr>) (example_trees, small_store) =
      Some (Inl Orphan, (example_trees, s')) \<and> cs_head s' = cs_head small_store"
proof -
  let ?b = "small_block\<lparr>b_header := (b_header small_block)\<lparr>prev_hash := hash_of (replicate 32 3)\<rparr>\<rparr>"
  have known: "check_known small_env ?b small_store = Inr ()"
    by (simp add: check_known_def check_known_head_def check_known_orphans_def check_known_store_def small_hash)
      (simp add: small_env_def small_store_def get_head_def option_to_not_found_def of_store_def map_err_def hash_of_eq ZERO_HASH_def)
  have run: "process_block small_env ?b (example_trees, small_store) = Some (Inl Orphan, (example_trees, small_store))"
    by (simp add: process_block_def op_bind_def op_store_def op_read_def known Let_def)
      (simp add: small_store_def get_head_def option_to_not_found_def of_store_def map_err_def hash_of_eq prev_header_store_def get_previous_header_def get_block_header_def)
  from process_block_atomic [OF example_trees_settled run] run show ?thesis by simp
qed

text \<open>C1: the next valid block is accepted. Let the ranges hold the ledger \<open>G\<close>. A block that continues the head,
  is not known yet, whose header and body are valid, whose outputs are new, whose inputs each spend a mature unspent output
  of their own, whose sums balance, whose header states the roots and sizes before and after the block and which
  adds work to the chain is processed without an error or a panic: it is saved, it is the new head, and the ranges on disk hold the
  ledger with the block applied.\<close>

theorem next_block_accepted:
  assumes "bitmap_laws (ev_K (pe_env P))" and "rests (pe_env P) gone G (t, s)"
    and "cs_head s = Some head" and "prev_hash (b_header b) = last_block_h head" and "cs_headers s (last_block_h head) = Some prev"
    and "cs_header_head s = Some hhead" and "cs_headers s (pe_hash P (b_header b)) \<in> {None, Some (b_header b)}"
    and "check_known P b s = Inr ()" and "validate_header P (b_header b) s = Some (Inr ())" and "validate_block P b s = Some (Inr ())"
    and "block_fits (pe_env P) G b" and "applies (pe_env P) s G b ms" and "balances (pe_env P) s prev b"
    and "header_matches (pe_env P) G (ledger_apply G b ms) (b_header b)" and "has_more_work (b_header b) head"
  shows "\<exists>t' s'. process_block P b (t, s) = Some (Inr (cs_head s'), (t', s')) \<and> rests (pe_env P) gone (ledger_apply G b ms) (t', s') \<and>
    cs_head s' = Some (tip_from_header (pe_ct P) (ev_digest (pe_env P)) (b_header b)) \<and> cs_blocks s' (pe_hash P (b_header b)) = Some b"
proof -
  let ?E = "pe_env P" and ?h = "b_header b"
  have hd: "head_header s = Inr prev" using assms(3,5) by (simp add: head_header_def get_head_def get_block_header_def option_to_not_found_def)
  have hf: "header_entry_ok (header_as_elmt (pe_ct P) (ev_digest ?E) ?h)" "2 * mmr_size (Suc (length (lg_headers G))) < u32_size"
      "map_option r_header_root (ledger_roots ?E G) = Some (prev_root ?h)" "0 < h_height ?h"
    using assms(11,14) unfolding block_fits_def header_matches_def by blast+
  obtain t1 hh where t1: "process_header_for_block P ?h False (t, s) = Some (Inr (), (t1, (save_block_header (pe_ct P) (ev_digest ?E) s ?h)\<lparr>cs_header_head := hh\<rparr>))"
      "rests ?E gone G (t1, s)"
    by (rule process_header_ok [OF assms(1,2) hd hf assms(9,6)])
  let ?s1 = "(save_block_header (pe_ct P) (ev_digest ?E) s ?h)\<lparr>cs_header_head := hh\<rparr>"
  have ne: "pe_hash P ?h \<noteq> last_block_h head"
    using assms(3,8) by (auto simp: check_known_def check_known_head_def get_head_def option_to_not_found_def of_store_def map_err_def split: if_splits)
  then have s1: "cs_headers ?s1 (prev_hash ?h) = Some prev" "head_header ?s1 = Inr prev" "validate_block P b ?s1 = Some (Inr ())" "balances ?E ?s1 prev b"
      "cs_head ?s1 = Some head" "cs_output_pos ?s1 = cs_output_pos s"
    using assms(3,4,5,10,13) by (simp_all add: save_block_header_def head_header_def get_head_def get_block_header_def get_previous_header_def
        option_to_not_found_def validate_block_def balances_def)
  let ?x = "extension_new t1 ?s1 prev"
  have x: "holds ?E gone G G ?x" "indexed (cs_output_pos (ext_batch ?x)) G" "ext_batch ?x = ?s1" "\<not> ext_rollback ?x"
    using t1(2) [unfolded rests_new [where s' = ?s1 and h = prev]] s1(6) by (simp_all add: extension_new_def)
  obtain y bs idx where y: "check_and_apply ?E b ?x = Some (Inr (), y)" "holds ?E gone G (ledger_apply G b ms) y"
      "indexed (cs_output_pos (ext_batch y)) (ledger_apply G b ms)" "ext_batch y = ?s1\<lparr>cs_block_sums := bs, cs_output_pos := idx\<rparr>" "ext_rollback y = ext_rollback ?x"
    using check_and_apply_ok [OF assms(1) x(1,2) assms(11), of ms prev] applies_saved [OF assms(7,12), of hh] assms(14) s1(1,4) x(3) by metis
  have "extend_with_block P b False ?x = Some (Inr (), y)" using extend_with_block_ok [OF y(1)] y(4) s1(5) assms(15) by simp
  then obtain t2 where t2: "extending (extend_with_block P b False) (t1, ?s1) = Some (Inr (), (t2, ext_batch y))" "rests ?E gone (ledger_apply G b ms) (t2, ext_batch y)"
    using extending_commit [OF assms(1) s1(2) _ _ y(2,3)] y(5) x(4) by metis
  have "process_block P b (t, s) = finish_block P b (t2, ext_batch y)"
    by (rule process_block_steps [OF assms(8,3,4,5) t1(1) s1(3) t2(1)])
  also obtain s' where "finish_block P b (t2, ext_batch y) = Some (Inr (cs_head s'), (t2, s'))" "cs_output_pos s' = cs_output_pos (ext_batch y)"
      "cs_head s' = Some (tip_from_header (pe_ct P) (ev_digest ?E) ?h)" "cs_blocks s' (pe_hash P ?h) = Some b"
    using finish_block_head [of "ext_batch y" head b P t2] s1(5) y(4) assms(15) by auto
  ultimately show ?thesis using t2(2) [unfolded rests_new [where s' = s and h = prev]] rests_new [of ?E gone _ t2 s' s prev] by auto
qed

theorem next_block_accepted_witness:
  "\<exists>t t' s'. process_block small_env small_block (t, small_store) = Some (Inr (cs_head s'), (t', s')) \<and>
    map_option tip_height (cs_head s') = Some 1 \<and> rests (pe_env small_env) {} (ledger_apply small_ledger small_block []) (t', s')"
proof -
  obtain t where t: "rests (pe_env small_env) {} small_ledger (t, small_store)" using small_rests by blast
  have K: "bitmap_laws (ev_K (pe_env small_env))" by (simp add: small_env_def list_bitmap_laws)
  have s: "cs_head small_store = Some \<lparr>tip_height = 0, last_block_h = hash_of (replicate 32 2), prev_block_h = ZERO_HASH, tip_total_difficulty = difficulty_from_num 1\<rparr>"
    "cs_header_head small_store = cs_head small_store"
    "cs_headers small_store (hash_of (replicate 32 2)) = Some (header_default Mainnet)"
    "cs_headers small_store (pe_hash small_env (b_header small_block)) \<in> {None, Some (b_header small_block)}"
    unfolding small_hash by (simp_all add: small_store_def hash_of_eq)
  from next_block_accepted [OF K t s(1) _ _ _ s(4) small_check_known small_validate_header small_validate_block small_fits small_applies small_balances
      small_matches small_more_work] s small_fields(5)
  obtain t' s' where "process_block small_env small_block (t, small_store) = Some (Inr (cs_head s'), (t', s'))"
      "rests (pe_env small_env) {} (ledger_apply small_ledger small_block []) (t', s')"
      "cs_head s' = Some (tip_from_header (pe_ct small_env) (ev_digest (pe_env small_env)) (b_header small_block))" by auto
  moreover have "tip_height (tip_from_header ct d (b_header small_block)) = 1" for ct d by (simp add: tip_from_header_def small_fields)
  ultimately show ?thesis by (intro exI [of _ t] exI [of _ t'] exI [of _ s']) simp
qed

text \<open>C5: the walk back to the fork point ends. In a database in which every header is higher than its predecessor, the loop
  that starts a fork returns from every known header: with the first ancestor that is on the chain of the header range, or
  has height 0, and the hashes of the headers before it, oldest first; or with the error of the database when there is none.\<close>

theorem fork_point_ends:
  fixes E p s
  defines "stop \<equiv> \<lambda>h. h_height h = 0 \<or> is_on_current_chain E p s h = Inr ()"
  assumes "descending s" and "cs_headers s k = Some current"
  shows "case find stop (ancestors s current) of
      Some forked \<Rightarrow> fork_point E p s current fork_hashes =
        Some (Inr (rev (fork_hashes @ map (ev_hash E) (takeWhile (Not \<circ> stop) (ancestors s current))), forked))
    | None \<Rightarrow> fork_point E p s current fork_hashes = Some (Inl (StoreErr (NotFoundErr ''BLOCK HEADER'') ''store error''))"
  using assms(3)
proof (induction "h_height current" arbitrary: current k fork_hashes rule: less_induct)
  case less
  have an: "ancestors s current = current # tl (ancestors s current)" by (rule ancestors_Cons)
  show ?case
  proof (cases "stop current")
    case True
    then show ?thesis by (subst (1 2) an) (auto simp: fork_point.simps [of E p s current] stop_def)
  next
    case False
    note run = fork_point.simps [of E p s current fork_hashes]
    show ?thesis
    proof (cases "cs_headers s (prev_hash current)")
      case None
      then have "tl (ancestors s current) = []" using ancestors_tl [OF assms(2) less.prems] by simp
      then show ?thesis using False None run an
        by (simp add: stop_def get_previous_header_def get_block_header_def option_to_not_found_def of_store_def map_err_def)
    next
      case (Some q)
      then have lt: "h_height q < h_height current" using assms(2) less.prems by (auto simp: descending_def)
      have "tl (ancestors s current) = ancestors s q" using ancestors_tl [OF assms(2) less.prems] Some by simp
      then have an': "ancestors s current = current # ancestors s q" using an by simp
      have "fork_point E p s current fork_hashes = fork_point E p s q (fork_hashes @ [ev_hash E current])"
        using False Some run by (simp add: stop_def get_previous_header_def get_block_header_def option_to_not_found_def of_store_def map_err_def)
      then show ?thesis using less.hyps [OF lt Some, of "fork_hashes @ [ev_hash E current]"] False unfolding an' by (auto split: option.splits)
    qed
  qed
qed

theorem fork_point_ends_witness:
  "\<exists>h. fork_point (pe_env small_env) \<lparr>last_pos = 0, pm_backend = ph_backend example_handle\<rparr> two_headers
      ((header_default Mainnet)\<lparr>h_height := 1, h_timestamp := 60, prev_hash := hash_of (replicate 32 1)\<rparr>) [] =
    Some (Inr ([hash_of (replicate 32 1)], h)) \<and> h_height h = 0"
proof -
  let ?h = "(header_default Mainnet)\<lparr>h_height := 1, h_timestamp := 60, prev_hash := hash_of (replicate 32 1)\<rparr>"
  let ?E = "pe_env small_env" and ?p = "\<lparr>last_pos = 0, pm_backend = ph_backend example_handle\<rparr>"
  have an: "ancestors two_headers ?h = [?h, header_default Mainnet]" using two_headers_headers by (simp add: ancestors_def header_default_def)
  have "insertion_to_pmmr_index (Suc (Suc 0)) \<noteq> 0" by code_simp
  then have off: "is_on_current_chain ?E ?p two_headers ?h \<noteq> Inr ()"
    by (simp add: is_on_current_chain_def header_at_def pmmr_get_data_def width)
  have g: "h_height (header_default Mainnet) = 0" by (simp add: header_default_def)
  show ?thesis using fork_point_ends [OF two_headers_descending two_headers_headers(1), of ?E ?p "[]"] off small_hash [of ?h] unfolding an by (simp add: g)
qed



end
