(* ===== verification/Spec2Isabelle.thy ===== *)
theory Spec2Isabelle
  imports Prelude Rust_Float Consensus_Reward Pow_Types Consensus_Difficulty Feijoada
    Pmmr_Pos Pmmr Merkle_Proof Ser Pow_Codec Tx_Types Committed Transaction Bitmap Prune_List Leaf_Set Store_File Store_Pmmr
    Store_Compact Pmmr_Session Element_Stores Block Chain_Store Txhashset Ledger Pipe Acceptance
begin

text \<open>
  Verification of the epic node.
\<close>

end
